(* ===== verification/Prelude.thy ===== *)
theory Prelude
  imports Main "HOL-Library.Monad_Syntax" "HOL-Library.Signed_Division"
begin

text \<open>
  What the components share: the C++ exceptions the sources throw, the ranges of the
  machine integers, and the fault discipline. A computation of type \<open>'a option\<close> yields
  \<open>None\<close> where the C++ has no defined result: signed overflow of \<open>long long\<close>
  arithmetic, an array access outside the allocation, or a failed \<open>assert\<close>. A function
  that throws returns a value of \<open>exn + 'a\<close>.
\<close>

section \<open>Exceptions\<close>

datatype exn =
    InvalidArgument string
  | RuntimeError string
  | OverflowError string

text \<open>Sequencing of computations that may throw.\<close>

fun bind_exn :: "exn + 'a \<Rightarrow> ('a \<Rightarrow> exn + 'b) \<Rightarrow> exn + 'b" where
  "bind_exn (Inl e) f = Inl e"
| "bind_exn (Inr x) f = f x"

lemma bind_exn_Inr [simp]: "bind_exn m f = Inr y \<longleftrightarrow> (\<exists>x. m = Inr x \<and> f x = Inr y)"
  by (cases m) auto

fun map_exn :: "('a \<Rightarrow> exn + 'b) \<Rightarrow> 'a list \<Rightarrow> exn + 'b list" where
  "map_exn f [] = Inr []"
| "map_exn f (x # xs) = bind_exn (f x) (\<lambda>y. bind_exn (map_exn f xs) (\<lambda>ys. Inr (y # ys)))"

lemma map_exn_Inr: "map_exn f xs = Inr ys \<longleftrightarrow> list_all2 (\<lambda>x y. f x = Inr y) xs ys"
  by (induction xs arbitrary: ys) (auto simp: list_all2_Cons1)

lemma map_exn_map: "\<forall>x \<in> set xs. f (g x) = Inr (h x) \<Longrightarrow> map_exn f (map g xs) = Inr (map h xs)"
  by (induction xs) auto

section \<open>Machine integers\<close>

definition LLONG_MAX :: int where
  "LLONG_MAX = 9223372036854775807"

definition LLONG_MIN :: int where
  "LLONG_MIN = - 9223372036854775808"

definition INT_MAX :: int where
  "INT_MAX = 2147483647"

lemmas int_limits = LLONG_MAX_def LLONG_MIN_def INT_MAX_def

text \<open>The values of a \<open>long long\<close>, and the check that a result is one.\<close>

definition in_ll :: "int \<Rightarrow> bool" where
  "in_ll x \<longleftrightarrow> LLONG_MIN \<le> x \<and> x \<le> LLONG_MAX"

definition ll :: "int \<Rightarrow> int option" where
  "ll x = (if in_ll x then Some x else None)"

text \<open>\<open>static_cast<int>\<close> of a \<open>long long\<close>: C++20 reduces it modulo \<open>2^32\<close>.\<close>

definition to_int32 :: "int \<Rightarrow> int" where
  "to_int32 x = (x + 2147483648) mod 4294967296 - 2147483648"

text \<open>\<open>--c\<close> on a \<open>std::size_t\<close> wraps below zero.\<close>

definition size_dec :: "nat \<Rightarrow> nat" where
  "size_dec c = (if c = 0 then 18446744073709551615 else c - 1)"

named_theorems machine "rules that discharge the overflow and range checks"

lemma ll_Some [machine]: "in_ll x \<Longrightarrow> ll x = Some x"
  by (simp add: ll_def)

lemma ll_eq_Some [simp]: "ll x = Some y \<longleftrightarrow> y = x \<and> in_ll x"
  by (auto simp: ll_def)

lemma in_llI: "LLONG_MIN \<le> x \<Longrightarrow> x \<le> LLONG_MAX \<Longrightarrow> in_ll x"
  by (simp add: in_ll_def)

lemma to_int32_id [machine]: "- 2147483648 \<le> x \<Longrightarrow> x \<le> INT_MAX \<Longrightarrow> to_int32 x = x"
  by (simp add: to_int32_def int_limits)

lemma sdiv_nonneg [machine]: "0 \<le> (a::int) \<Longrightarrow> 0 < b \<Longrightarrow> a sdiv b = a div b"
  by (cases "a = 0") (simp_all add: signed_divide_int_def)

lemma sdiv_mult_dvd [machine]: "0 < (b::int) \<Longrightarrow> b dvd a \<Longrightarrow> (a sdiv b) * b = a"
  by (auto simp: signed_divide_int_def abs_mult sgn_mult sgn_mult_abs elim!: dvdE)

lemma sdiv_dvd [machine]: "0 < (b::int) \<Longrightarrow> b dvd a \<Longrightarrow> a sdiv b = a div b"
  using sdiv_mult_dvd [of b a] by (metis nonzero_mult_div_cancel_right less_irrefl)

lemma sdiv_mult_le:
  assumes "0 < (b::int)"
  shows "\<bar>(a sdiv b) * b\<bar> \<le> \<bar>a\<bar>"
proof -
  have "\<bar>a\<bar> div b * b \<le> \<bar>a\<bar>" "0 \<le> \<bar>a\<bar> div b"
    using assms by (simp_all add: minus_mod_eq_div_mult [symmetric] pos_imp_zdiv_nonneg_iff)
  then show ?thesis
    using assms by (cases "a = 0") (simp_all add: signed_divide_int_def abs_mult abs_sgn_eq)
qed

lemma sdiv_mult_close: "0 < (b::int) \<Longrightarrow> \<bar>a - (a sdiv b) * b\<bar> < b"
  by (cases "a = 0"; cases "0 < a")
    (simp_all add: signed_divide_int_def minus_mod_eq_div_mult [symmetric])

lemma sdiv_mult_floor: "0 < (b::int) \<Longrightarrow> 0 \<le> a \<Longrightarrow> (a sdiv b) * b = a - a mod b"
  by (simp add: sdiv_nonneg minus_mod_eq_div_mult)

lemma int_le_div_iff [machine]:
  assumes "0 < (b::int)"
  shows "a \<le> m div b \<longleftrightarrow> a * b \<le> m"
proof
  assume "a \<le> m div b"
  then have "a * b \<le> (m div b) * b" using assms by (simp add: mult_right_mono)
  also have "\<dots> \<le> m" using assms by (simp add: pos_mod_sign minus_mod_eq_div_mult [symmetric])
  finally show "a * b \<le> m" .
next
  assume "a * b \<le> m"
  then have "a * b div b \<le> m div b" using assms by (rule zdiv_mono1)
  then show "a \<le> m div b" using assms by simp
qed

lemma int_div_less_iff [machine]: "0 < (b::int) \<Longrightarrow> m div b < a \<longleftrightarrow> m < a * b"
  using int_le_div_iff [of b a m] by linarith

section \<open>Arrays\<close>

text \<open>A read of \<open>a[i]\<close> is a fault outside the allocation.\<close>

definition arr_get :: "'a list \<Rightarrow> int \<Rightarrow> 'a option" where
  "arr_get xs i = (if 0 \<le> i \<and> i < int (length xs) then Some (xs ! nat i) else None)"

lemma arr_get_Some [machine]: "0 \<le> i \<Longrightarrow> i < int (length xs) \<Longrightarrow> arr_get xs i = Some (xs ! nat i)"
  by (simp add: arr_get_def)

section \<open>Folds that may fault\<close>

text \<open>A loop body that may fault, run over a list with a state.\<close>

fun foldM :: "('s \<Rightarrow> 'a \<Rightarrow> 's option) \<Rightarrow> 's \<Rightarrow> 'a list \<Rightarrow> 's option" where
  "foldM f s [] = Some s"
| "foldM f s (x # xs) = do { s' \<leftarrow> f s x; foldM f s' xs }"

lemma foldM_append: "foldM f s (xs @ ys) = do { s' \<leftarrow> foldM f s xs; foldM f s' ys }"
  by (induction xs arbitrary: s) (auto split: Option.bind_splits)

text \<open>An invariant that every step of the loop keeps, with no fault, holds at its end.\<close>

lemma foldM_inv:
  assumes "I s" and "\<And>s x. I s \<Longrightarrow> x \<in> set xs \<Longrightarrow> \<exists>s'. f s x = Some s' \<and> I s'"
  shows "\<exists>s'. foldM f s xs = Some s' \<and> I s'"
  using assms
proof (induction xs arbitrary: s)
  case Nil
  then show ?case by simp
next
  case (Cons x xs)
  then obtain s' where "f s x = Some s'" "I s'" by fastforce
  with Cons.IH [of s'] Cons.prems(2) show ?case by auto
qed

end
