(* ===== verification/Safe_Arithmetic.thy ===== *)
theory Safe_Arithmetic
  imports Prelude
begin

text \<open>
  \<open>src/safe_arithmetic.hpp\<close> (throwing arithmetic, instantiated at \<open>long long\<close>, the only
  type the program uses it with) and \<open>src/utils/checked_arith.hpp\<close> (saturating
  arithmetic). The lemmas show that the guards detect exactly the overflows of the exact
  result.
\<close>

section \<open>Throwing arithmetic\<close>

definition with_context :: "string \<Rightarrow> string \<Rightarrow> string" where
  "with_context msg context = msg @ (if context = [] then '''' else '': '' @ context)"

definition safeMultiply :: "int \<Rightarrow> int \<Rightarrow> string \<Rightarrow> exn + int" where
  "safeMultiply a b context =
     (if 0 < a \<and> 0 < b \<and> LLONG_MAX sdiv b < a
      then Inl (OverflowError (with_context ''Overflow in multiplication'' context))
      else if a < 0 \<and> b < 0 \<and> a < LLONG_MAX sdiv b
      then Inl (OverflowError (with_context ''Overflow in multiplication'' context))
      else if 0 < a \<and> b < 0 \<and> b < LLONG_MIN sdiv a
      then Inl (OverflowError (with_context ''Underflow in multiplication'' context))
      else if a < 0 \<and> 0 < b \<and> a < LLONG_MIN sdiv b
      then Inl (OverflowError (with_context ''Underflow in multiplication'' context))
      else Inr (a * b))"

definition safeAdd :: "int \<Rightarrow> int \<Rightarrow> string \<Rightarrow> exn + int" where
  "safeAdd a b context =
     (if 0 < b \<and> LLONG_MAX - b < a
      then Inl (OverflowError (with_context ''Overflow in addition'' context))
      else if b < 0 \<and> a < LLONG_MIN - b
      then Inl (OverflowError (with_context ''Underflow in addition'' context))
      else Inr (a + b))"

definition safeSubstract :: "int \<Rightarrow> int \<Rightarrow> string \<Rightarrow> exn + int" where
  "safeSubstract a b context =
     (if b < 0 \<and> LLONG_MAX + b < a
      then Inl (OverflowError (with_context ''Overflow in subtraction'' context))
      else if 0 < b \<and> a < LLONG_MIN + b
      then Inl (OverflowError (with_context ''Underflow in subtraction'' context))
      else Inr (a - b))"

text \<open>Truncating division against the exact bound, one lemma per sign pattern.\<close>

lemma sdiv_pos_pos:
  assumes "0 < (a::int)" "0 < b" "0 \<le> m"
  shows "m sdiv b < a \<longleftrightarrow> m < a * b"
  using assms by (simp add: sdiv_nonneg int_div_less_iff)

lemma sdiv_neg_div:
  assumes "b < 0" "0 \<le> (m::int)"
  shows "m sdiv b = - (m div (- b))"
  using assms by (cases "m = 0") (simp_all add: signed_divide_int_def)

lemma sdiv_div_pos:
  assumes "0 < b" "(m::int) \<le> 0"
  shows "m sdiv b = - ((- m) div b)"
  using assms by (cases "m = 0") (simp_all add: signed_divide_int_def)

lemma sdiv_neg_neg:
  assumes "(a::int) < 0" "b < 0" "0 \<le> m"
  shows "a < m sdiv b \<longleftrightarrow> m < a * b"
proof -
  have "a < m sdiv b \<longleftrightarrow> m div (- b) < - a"
    using assms by (auto simp: sdiv_neg_div)
  also have "\<dots> \<longleftrightarrow> m < (- a) * (- b)"
    using assms by (intro int_div_less_iff) simp
  finally show ?thesis by simp
qed

lemma sdiv_min_pos:
  assumes "0 < (b::int)" "a < 0" "m \<le> 0"
  shows "a < m sdiv b \<longleftrightarrow> a * b < m"
proof -
  have "a < m sdiv b \<longleftrightarrow> (- m) div b < - a"
    using assms by (auto simp: sdiv_div_pos)
  also have "\<dots> \<longleftrightarrow> - m < (- a) * b"
    using assms by (intro int_div_less_iff) simp
  finally show ?thesis by simp
qed

text \<open>Each throwing operation is the exact operation followed by a range check.\<close>

lemma mult_sign_bounds:
  fixes a b :: int
  shows "0 < a \<Longrightarrow> 0 < b \<Longrightarrow> LLONG_MIN \<le> a * b" "a < 0 \<Longrightarrow> b < 0 \<Longrightarrow> LLONG_MIN \<le> a * b"
    "0 < a \<Longrightarrow> b < 0 \<Longrightarrow> a * b \<le> LLONG_MAX" "a < 0 \<Longrightarrow> 0 < b \<Longrightarrow> a * b \<le> LLONG_MAX"
  by (drule (1) mult_pos_pos mult_neg_neg mult_pos_neg mult_neg_pos; unfold int_limits; linarith)+

lemma safeMultiply_cases:
  "safeMultiply a b c = Inr r \<longleftrightarrow> r = a * b \<and> in_ll (a * b)"
proof -
  consider "a = 0 \<or> b = 0" | "0 < a" "0 < b" | "a < 0" "b < 0" | "0 < a" "b < 0" | "a < 0" "0 < b"
    by fastforce
  then show ?thesis
  proof cases
    case 1
    then show ?thesis by (auto simp: safeMultiply_def in_ll_def int_limits)
  next
    case 2
    then show ?thesis using mult_sign_bounds(1) [of a b]
      by (auto simp: safeMultiply_def in_ll_def sdiv_pos_pos int_limits)
  next
    case 3
    then show ?thesis using mult_sign_bounds(2) [of a b]
      by (auto simp: safeMultiply_def in_ll_def sdiv_neg_neg int_limits)
  next
    case 4
    then show ?thesis using mult_sign_bounds(3) [of a b] sdiv_min_pos [of a b LLONG_MIN]
      by (auto simp: safeMultiply_def in_ll_def int_limits mult.commute)
  next
    case 5
    then show ?thesis using mult_sign_bounds(4) [of a b] sdiv_min_pos [of b a LLONG_MIN]
      by (auto simp: safeMultiply_def in_ll_def int_limits)
  qed
qed

lemma safeAdd_cases:
  "in_ll a \<Longrightarrow> in_ll b \<Longrightarrow> safeAdd a b c = Inr r \<longleftrightarrow> r = a + b \<and> in_ll (a + b)"
  by (auto simp: safeAdd_def in_ll_def int_limits)

lemma safeSubstract_cases:
  "in_ll a \<Longrightarrow> in_ll b \<Longrightarrow> safeSubstract a b c = Inr r \<longleftrightarrow> r = a - b \<and> in_ll (a - b)"
  by (auto simp: safeSubstract_def in_ll_def int_limits)

section \<open>Saturating arithmetic\<close>

definition checkedAdd :: "int \<Rightarrow> int \<Rightarrow> int" where
  "checkedAdd a b =
     (if 0 < b \<and> LLONG_MAX - b < a then LLONG_MAX
      else if b < 0 \<and> a < LLONG_MIN - b then LLONG_MIN
      else a + b)"

definition checkedSubtract :: "int \<Rightarrow> int \<Rightarrow> int" where
  "checkedSubtract a b =
     (if b < 0 \<and> LLONG_MAX + b < a then LLONG_MAX
      else if 0 < b \<and> a < LLONG_MIN + b then LLONG_MIN
      else a - b)"

text \<open>The product is taken in \<open>__int128\<close>, which holds every product of two \<open>long long\<close>.\<close>

definition checkedMultiply :: "int \<Rightarrow> int \<Rightarrow> int" where
  "checkedMultiply a b =
     (if a = 0 \<or> b = 0 then 0
      else let result = a * b
           in if LLONG_MAX < result then LLONG_MAX
              else if result < LLONG_MIN then LLONG_MIN
              else result)"

definition clamp_ll :: "int \<Rightarrow> int" where
  "clamp_ll x = max LLONG_MIN (min LLONG_MAX x)"

lemma clamp_ll_range: "in_ll (clamp_ll x)"
  by (simp add: clamp_ll_def in_ll_def int_limits)

lemma clamp_ll_id: "in_ll x \<Longrightarrow> clamp_ll x = x"
  by (simp add: clamp_ll_def in_ll_def)

lemma checked_is_clamp:
  assumes "in_ll a" "in_ll b"
  shows "checkedAdd a b = clamp_ll (a + b)" "checkedSubtract a b = clamp_ll (a - b)"
    "checkedMultiply a b = clamp_ll (a * b)"
  using assms
  by (auto simp: checkedAdd_def checkedSubtract_def checkedMultiply_def clamp_ll_def in_ll_def
      int_limits Let_def)

end
