(* ===== verification/Decimal.thy ===== *)
theory Decimal
  imports Safe_Arithmetic
begin

text \<open>
  \<open>src/decimal.hpp\<close>: decimal text to a \<open>long long\<close> scaled by \<open>10^8\<close>, and its inverse
  \<open>formatScaled\<close> of \<open>src/subscriber_protocol.hpp\<close>. \<open>from_chars\<close> and \<open>to_string\<close> are
  the functions of the C++ standard library. The specification is \<open>denotes\<close>: which text
  means which number.
\<close>

section \<open>Digits\<close>

definition is_digit :: "char \<Rightarrow> bool" where
  "is_digit c \<longleftrightarrow> (48::nat) \<le> of_char c \<and> of_char c \<le> (57::nat)"

definition digit_value :: "char \<Rightarrow> int" where
  "digit_value c = of_char c - 48"

definition digits_value :: "string \<Rightarrow> int" where
  "digits_value = foldl (\<lambda>n c. n * 10 + digit_value c) 0"

section \<open>Parsing\<close>

datatype errc = Ok | Invalid | OutOfRange

text \<open>
  \<open>std::from_chars\<close> on a \<open>long long\<close>: the error code, the number of characters consumed
  and the value (meaningful when there is no error).
\<close>

definition from_chars :: "string \<Rightarrow> errc \<times> nat \<times> int" where
  "from_chars s =
     (let neg = (s \<noteq> [] \<and> hd s = CHR ''-'');
          ds = takeWhile is_digit (if neg then tl s else s);
          v = (if neg then - digits_value ds else digits_value ds);
          used = (if neg then 1 else 0) + length ds
      in if ds = [] then (Invalid, 0, 0)
         else if \<not> in_ll v then (OutOfRange, used, 0)
         else (Ok, used, v))"

text \<open>The use of it in \<open>decimal.hpp\<close>: the whole text must be consumed.\<close>

definition parse_all :: "string \<Rightarrow> string \<Rightarrow> exn + int" where
  "parse_all msg s =
     (case from_chars s of (ec, ptr, value) \<Rightarrow>
        if ec \<noteq> Ok \<or> ptr \<noteq> length s then Inl (RuntimeError msg) else Inr value)"

definition kPow10 :: "int list" where
  "kPow10 = [100000000, 10000000, 1000000, 100000, 10000, 1000, 100, 10, 1]"

definition parseFractionalPart :: "string \<Rightarrow> exn + int" where
  "parseFractionalPart frac =
     (if frac = [] then Inr 0
      else if 8 < length frac then Inl (RuntimeError (''Too many fractional digits: '' @ frac))
      else if \<not> list_all is_digit frac
      then Inl (RuntimeError (''Failed to parse fractional part: '' @ frac))
      else bind_exn (parse_all (''Failed to parse fractional part: '' @ frac) frac)
             (\<lambda>fracPart. Inr (fracPart * kPow10 ! length frac)))"

definition SCALE :: int where
  "SCALE = 100000000"

definition parseDecimal :: "string \<Rightarrow> exn + int" where
  "parseDecimal str =
     (let negative = (str \<noteq> [] \<and> hd str = CHR ''-'');
          before = takeWhile (\<lambda>c. c \<noteq> CHR ''.'') str;
          dotPos = length before
      in if CHR ''.'' \<notin> set str
         then bind_exn (parse_all (''Failed to parse integer: '' @ str) str)
                (\<lambda>value. safeMultiply value SCALE ''parseDecimal'')
         else if str = ''.'' then Inl (RuntimeError ''Failed to parse decimal: .'')
         else bind_exn (if 0 < dotPos then parse_all (''Failed to parse integer part: '' @ str) before
                        else Inr 0)
           (\<lambda>intPart. bind_exn (parseFractionalPart (drop (dotPos + 1) str))
             (\<lambda>fracPart. bind_exn (safeMultiply intPart SCALE ''parseDecimal'')
               (\<lambda>scaled. if negative then safeSubstract scaled fracPart ''parseDecimal''
                          else safeAdd scaled fracPart ''parseDecimal''))))"

section \<open>Printing\<close>

definition digit_of :: "nat \<Rightarrow> char" where
  "digit_of n = ''0123456789'' ! n"

fun to_string :: "nat \<Rightarrow> string" where
  "to_string n = (if n < 10 then [digit_of n] else to_string (n div 10) @ [digit_of (n mod 10)])"

declare to_string.simps [simp del]

text \<open>The two loops of \<open>formatScaled\<close>: pad to eight digits, drop trailing zeros.\<close>

definition pad8 :: "string \<Rightarrow> string" where
  "pad8 frac = replicate (8 - length frac) (CHR ''0'') @ frac"

definition drop_zeros :: "string \<Rightarrow> string" where
  "drop_zeros frac = rev (dropWhile (\<lambda>c. c = CHR ''0'') (rev frac))"

text \<open>\<open>unsigned long long\<close> arithmetic is modulo \<open>2^64\<close>; the negation relies on it.\<close>

definition to_u64 :: "int \<Rightarrow> int" where
  "to_u64 x = x mod 18446744073709551616"

definition formatScaled :: "int \<Rightarrow> string" where
  "formatScaled scaled =
     (let sign = scaled < 0;
          absScaled = (if sign then to_u64 (- to_u64 scaled) else to_u64 scaled);
          intPart = absScaled div SCALE;
          fracPart = absScaled mod SCALE;
          result = to_string (nat intPart);
          result = (if fracPart \<noteq> 0
                    then result @ ''.'' @ drop_zeros (pad8 (to_string (nat fracPart)))
                    else result)
      in if sign then ''-'' @ result else result)"

section \<open>The meaning of decimal text\<close>

definition all_digits :: "string \<Rightarrow> bool" where
  "all_digits s = list_all is_digit s"

definition frac_value :: "string \<Rightarrow> int" where
  "frac_value f = digits_value f * 10 ^ (8 - length f)"

text \<open>
  An optional minus sign, digits, and an optional fraction of at most eight digits;
  the integer part may be left out when there is no sign, and \<open>''.''\<close> alone is nothing.
\<close>

inductive denotes :: "string \<Rightarrow> int \<Rightarrow> bool" where
  integer: "all_digits ds \<Longrightarrow> ds \<noteq> [] \<Longrightarrow> denotes ds (digits_value ds * SCALE)"
| neg_integer: "all_digits ds \<Longrightarrow> ds \<noteq> [] \<Longrightarrow> denotes (CHR ''-'' # ds) (- (digits_value ds * SCALE))"
| decimal: "all_digits ds \<Longrightarrow> all_digits fs \<Longrightarrow> length fs \<le> 8 \<Longrightarrow> ds \<noteq> [] \<or> fs \<noteq> [] \<Longrightarrow>
    denotes (ds @ CHR ''.'' # fs) (digits_value ds * SCALE + frac_value fs)"
| neg_decimal: "all_digits ds \<Longrightarrow> all_digits fs \<Longrightarrow> length fs \<le> 8 \<Longrightarrow> ds \<noteq> [] \<Longrightarrow>
    denotes (CHR ''-'' # ds @ CHR ''.'' # fs) (- (digits_value ds * SCALE + frac_value fs))"

lemma digits_value_Nil [simp]: "digits_value [] = 0"
  by (simp add: digits_value_def)

lemma digits_value_snoc [simp]: "digits_value (s @ [c]) = digits_value s * 10 + digit_value c"
  by (simp add: digits_value_def)

lemma digits_value_append: "digits_value (s @ t) = digits_value s * 10 ^ length t + digits_value t"
  by (induction t rule: rev_induct) (simp_all add: append_assoc [symmetric] algebra_simps del: append_assoc)

lemma digit_value_bounds: "is_digit c \<Longrightarrow> 0 \<le> digit_value c \<and> digit_value c \<le> 9"
proof -
  assume "is_digit c"
  then have "48 \<le> (of_char c :: nat)" "of_char c \<le> (57::nat)" by (simp_all add: is_digit_def)
  moreover have "(of_char c :: int) = int (of_char c)" by (metis of_nat_of_char)
  ultimately show ?thesis by (simp add: digit_value_def)
qed

lemma digits_value_bounds: "all_digits s \<Longrightarrow> 0 \<le> digits_value s \<and> digits_value s < 10 ^ length s"
proof (induction s rule: rev_induct)
  case (snoc c s)
  then show ?case using digit_value_bounds [of c] by (auto simp: all_digits_def)
qed simp

lemma digit_chars [simp]: "\<not> is_digit (CHR ''-'')" "\<not> is_digit (CHR ''.'')" "is_digit (CHR ''0'')"
  "digit_value (CHR ''0'') = 0"
  by (simp_all add: is_digit_def digit_value_def of_char_def)

lemma all_digits_simps [simp]: "all_digits []" "all_digits (c # s) \<longleftrightarrow> is_digit c \<and> all_digits s"
  "all_digits (s @ t) \<longleftrightarrow> all_digits s \<and> all_digits t"
  by (simp_all add: all_digits_def)

lemma all_digits_notin: "all_digits s \<Longrightarrow> CHR ''.'' \<notin> set s" "all_digits s \<Longrightarrow> CHR ''-'' \<notin> set s"
  unfolding all_digits_def list_all_iff by (metis digit_chars)+

lemma takeWhile_all_digits: "takeWhile is_digit s = s \<longleftrightarrow> all_digits s"
  unfolding all_digits_def list_all_iff by (rule takeWhile_eq_all_conv)

text \<open>A complete integer text.\<close>

lemma parse_all_Inr:
  "parse_all msg s = Inr v \<longleftrightarrow> in_ll v \<and>
     ((s \<noteq> [] \<and> all_digits s \<and> v = digits_value s) \<or>
      (\<exists>ds. s = CHR ''-'' # ds \<and> ds \<noteq> [] \<and> all_digits ds \<and> v = - digits_value ds))"
proof -
  have len: "length (takeWhile is_digit t) = length t \<longleftrightarrow> all_digits t" for t
    by (metis takeWhile_all_digits takeWhile_eq_take take_all order_refl)
  have Nil: "takeWhile is_digit t = [] \<and> all_digits t \<longleftrightarrow> t = []" for t
    by (metis takeWhile_all_digits all_digits_simps(1))
  have all: "all_digits t \<Longrightarrow> takeWhile is_digit t = t" for t by (rule takeWhile_all_digits [THEN iffD2])
  show ?thesis
  proof (cases "s \<noteq> [] \<and> hd s = CHR ''-''")
    case True
    then obtain ds where s: "s = CHR ''-'' # ds" by (cases s) auto
    then show ?thesis using len [of ds]
      by (cases "all_digits ds") (auto simp: parse_all_def from_chars_def Let_def all)
  next
    case False
    then show ?thesis using len [of s]
      by (cases "all_digits s") (auto simp: parse_all_def from_chars_def Let_def all)
  qed
qed

lemma kPow10_nth: "n \<le> 8 \<Longrightarrow> kPow10 ! n = 10 ^ (8 - n)"
proof -
  assume "n \<le> 8"
  then have "n \<in> {0, 1, 2, 3, 4, 5, 6, 7, 8}" by auto
  then show ?thesis by (auto simp: kPow10_def)
qed

lemma frac_value_bounds: "all_digits f \<Longrightarrow> length f \<le> 8 \<Longrightarrow> 0 \<le> frac_value f \<and> frac_value f < 10 ^ 8"
proof -
  assume f: "all_digits f" "length f \<le> 8"
  have "digits_value f * 10 ^ (8 - length f) < 10 ^ length f * 10 ^ (8 - length f)"
    using digits_value_bounds [OF f(1)] by (intro mult_strict_right_mono) auto
  also have "\<dots> = (10::int) ^ 8" using f(2) by (simp add: power_add [symmetric])
  finally show ?thesis using digits_value_bounds [OF f(1)] by (simp add: frac_value_def)
qed

lemma parseFractionalPart_Inr:
  "parseFractionalPart f = Inr v \<longleftrightarrow> all_digits f \<and> length f \<le> 8 \<and> v = frac_value f"
proof -
  have ll: "in_ll (digits_value f)" if "all_digits f" "length f \<le> 8"
  proof -
    have "digits_value f < 10 ^ length f" "0 \<le> digits_value f" using digits_value_bounds [OF that(1)] by auto
    moreover have "(10::int) ^ length f \<le> 10 ^ 8" using that(2) by (intro power_increasing) auto
    ultimately show ?thesis by (simp add: in_ll_def int_limits)
  qed
  show ?thesis
  proof (cases "f = []")
    case True
    then show ?thesis by (auto simp: parseFractionalPart_def frac_value_def)
  next
    case False
    show ?thesis
    proof (cases "length f \<le> 8 \<and> all_digits f")
      case True
      with False ll kPow10_nth [of "length f"] show ?thesis
        by (auto simp: parseFractionalPart_def parse_all_Inr frac_value_def all_digits_def)
    next
      case nope: False
      with False show ?thesis by (auto simp: parseFractionalPart_def all_digits_def)
    qed
  qed
qed

text \<open>The grammar, one equation per shape of the text.\<close>

lemma denotes_integer:
  assumes "CHR ''.'' \<notin> set s"
  shows "denotes s v \<longleftrightarrow> (s \<noteq> [] \<and> all_digits s \<and> v = digits_value s * SCALE) \<or>
      (\<exists>ds. s = CHR ''-'' # ds \<and> ds \<noteq> [] \<and> all_digits ds \<and> v = - (digits_value ds * SCALE))"
    (is "_ \<longleftrightarrow> ?rhs")
proof
  assume "denotes s v"
  then show ?rhs by cases (use assms in auto)
qed (auto intro: denotes.intros)

lemma append_dot_eq:
  "CHR ''.'' \<notin> set ip \<Longrightarrow> CHR ''.'' \<notin> set ds \<Longrightarrow>
     ip @ CHR ''.'' # fp = ds @ CHR ''.'' # fs \<longleftrightarrow> ip = ds \<and> fp = fs"
  by (induction ip arbitrary: ds; case_tac ds) auto

lemma denotes_fraction:
  assumes ip: "CHR ''.'' \<notin> set ip"
  shows "denotes (ip @ CHR ''.'' # fp) v \<longleftrightarrow> all_digits fp \<and> length fp \<le> 8 \<and>
    ((all_digits ip \<and> (ip \<noteq> [] \<or> fp \<noteq> []) \<and> v = digits_value ip * SCALE + frac_value fp) \<or>
     (\<exists>ds. ip = CHR ''-'' # ds \<and> ds \<noteq> [] \<and> all_digits ds \<and>
        v = - (digits_value ds * SCALE + frac_value fp)))"
    (is "_ \<longleftrightarrow> ?rhs")
proof
  assume "denotes (ip @ CHR ''.'' # fp) v"
  then show ?rhs
  proof cases
    case integer
    then show ?thesis using all_digits_notin(1) [of "ip @ CHR ''.'' # fp"] by simp
  next
    case (neg_integer ds)
    then have "CHR ''.'' \<in> set (CHR ''-'' # ds)" by (metis in_set_conv_decomp)
    then show ?thesis using all_digits_notin(1) [of ds] neg_integer(3) by auto
  next
    case (decimal ds fs)
    then show ?thesis using append_dot_eq [OF ip all_digits_notin(1)] by blast
  next
    case (neg_decimal ds fs)
    then have "ip @ CHR ''.'' # fp = (CHR ''-'' # ds) @ CHR ''.'' # fs" "CHR ''.'' \<notin> set (CHR ''-'' # ds)"
      using all_digits_notin(1) [of ds] by auto
    then have "ip = CHR ''-'' # ds" "fp = fs" using append_dot_eq [OF ip] by blast+
    then show ?thesis using neg_decimal by blast
  qed
next
  assume ?rhs
  then show "denotes (ip @ CHR ''.'' # fp) v"
    using denotes.decimal [of ip fp] denotes.neg_decimal [of _ fp] by auto
qed

lemma in_ll_scaled: "in_ll (x * SCALE) \<Longrightarrow> in_ll x"
  by (simp add: in_ll_def int_limits SCALE_def)

lemma parseDecimal_integer:
  assumes "CHR ''.'' \<notin> set s"
  shows "parseDecimal s = Inr v \<longleftrightarrow> denotes s v \<and> in_ll v"
proof -
  have "parseDecimal s = Inr v \<longleftrightarrow>
      (\<exists>x. parse_all (''Failed to parse integer: '' @ s) s = Inr x \<and> v = x * SCALE \<and> in_ll v)"
    using assms by (auto simp: parseDecimal_def safeMultiply_cases)
  also have "\<dots> \<longleftrightarrow> denotes s v \<and> in_ll v"
    unfolding parse_all_Inr denotes_integer [OF assms]
    using in_ll_scaled [of "digits_value s"] in_ll_scaled [of "- digits_value (tl s)"] by auto
  finally show ?thesis .
qed

lemma split_at_dot:
  assumes "CHR ''.'' \<in> set s"
  obtains ip fp where "s = ip @ CHR ''.'' # fp" "CHR ''.'' \<notin> set ip"
  by (meson assms split_list_first)

text \<open>The steps of \<open>parseDecimal\<close> on a text with a dot.\<close>

lemma parseDecimal_dot:
  assumes "CHR ''.'' \<notin> set ip" "s = ip @ CHR ''.'' # fp"
  shows "parseDecimal s = (if ip = [] \<and> fp = [] then Inl (RuntimeError ''Failed to parse decimal: .'')
     else bind_exn (if ip \<noteq> [] then parse_all (''Failed to parse integer part: '' @ s) ip else Inr 0)
       (\<lambda>i. bind_exn (parseFractionalPart fp) (\<lambda>f. bind_exn (safeMultiply i SCALE ''parseDecimal'')
         (\<lambda>x. if ip \<noteq> [] \<and> hd ip = CHR ''-'' then safeSubstract x f ''parseDecimal''
              else safeAdd x f ''parseDecimal''))))"
proof -
  have "takeWhile (\<lambda>c. c \<noteq> CHR ''.'') s = ip"
    using assms by (auto simp: takeWhile_tail)
  moreover have "CHR ''.'' \<in> set s" "s = ''.'' \<longleftrightarrow> ip = [] \<and> fp = []"
    "s \<noteq> [] \<and> hd s = CHR ''-'' \<longleftrightarrow> ip \<noteq> [] \<and> hd ip = CHR ''-''"
    using assms by (cases ip; auto)+
  ultimately show ?thesis using assms(2) unfolding parseDecimal_def Let_def by simp
qed
  
lemma parseDecimal_fraction:
  assumes ip: "CHR ''.'' \<notin> set ip" and s: "s = ip @ CHR ''.'' # fp"
  shows "parseDecimal s = Inr v \<longleftrightarrow> denotes s v \<and> in_ll v"
proof -
  have base: "in_ll (x * SCALE)" "in_ll x"
    if "in_ll (x * SCALE + f) \<and> 0 \<le> x \<or> in_ll (x * SCALE - f) \<and> x \<le> 0" "0 \<le> f" "f < 10 ^ 8" for x f :: int
    using that by (auto simp: in_ll_def int_limits SCALE_def)
  have f: "0 \<le> frac_value fp" "frac_value fp < 10 ^ 8" "in_ll (frac_value fp)" if "all_digits fp" "length fp \<le> 8"
    using frac_value_bounds [OF that] by (auto simp: in_ll_def int_limits)
  consider (none) "ip = []" | (neg) ds where "ip = CHR ''-'' # ds" | (pos) "ip \<noteq> []" "hd ip \<noteq> CHR ''-''"
    by (cases ip) auto
  then show ?thesis
  proof cases
    case none
    show ?thesis unfolding parseDecimal_dot [OF ip s] unfolding s denotes_fraction [OF ip] using f
      by (auto simp: none parseFractionalPart_Inr safeMultiply_cases safeAdd_cases in_ll_def int_limits)
  next
    case neg
    show ?thesis unfolding parseDecimal_dot [OF ip s] unfolding s denotes_fraction [OF ip]
      using f base [of "- digits_value ds" "frac_value fp"] digits_value_bounds [of ds]
      by (auto simp: neg parseFractionalPart_Inr parse_all_Inr safeMultiply_cases safeSubstract_cases)
  next
    case pos
    show ?thesis unfolding parseDecimal_dot [OF ip s] unfolding s denotes_fraction [OF ip]
      using f base [of "digits_value ip" "frac_value fp"] digits_value_bounds [of ip] pos
      by (auto simp: parseFractionalPart_Inr parse_all_Inr safeMultiply_cases safeAdd_cases)
  qed
qed

lemma parseDecimal_denotes: "parseDecimal s = Inr v \<longleftrightarrow> denotes s v \<and> in_ll v"
proof (cases "CHR ''.'' \<in> set s")
  case True
  then show ?thesis using parseDecimal_fraction by (elim split_at_dot) blast
qed (rule parseDecimal_integer)

section \<open>Printing denotes the number\<close>

lemma digit_char: "n < 10 \<Longrightarrow> is_digit (digit_of n) \<and> digit_value (digit_of n) = int n"
proof -
  assume "n < 10"
  then have "n \<in> {0, 1, 2, 3, 4, 5, 6, 7, 8, 9}" by auto
  then show ?thesis by (elim insertE emptyE) (simp_all add: digit_of_def is_digit_def digit_value_def of_char_def)
qed

lemma to_string_digits: "all_digits (to_string n)" "to_string n \<noteq> []" "digits_value (to_string n) = int n"
proof (induction n rule: to_string.induct)
  case (1 n)
  {
    case 1
    then show ?case using \<open>\<not> n < 10 \<Longrightarrow> all_digits (to_string (n div 10))\<close> digit_char [of "n mod 10"] digit_char [of n]
      by (subst to_string.simps) simp
  next
    case 2
    show ?case by (subst to_string.simps) simp
  next
    case 3
    have "int (n div 10) * 10 + int (n mod 10) = int n" by (metis div_mult_mod_eq of_nat_add of_nat_mult of_nat_numeral)
    then show ?case
      using \<open>\<not> n < 10 \<Longrightarrow> digits_value (to_string (n div 10)) = int (n div 10)\<close>
        digit_char [of "n mod 10"] digit_char [of n] digits_value_snoc [of "[]"]
      by (subst to_string.simps) simp
  }
qed

lemma to_string_length: "n < 10 ^ k \<Longrightarrow> 0 < k \<Longrightarrow> length (to_string n) \<le> k"
proof (induction n arbitrary: k rule: to_string.induct)
  case (1 n)
  show ?case
  proof (cases "n < 10")
    case False
    then obtain k' where k: "k = Suc k'" "0 < k'" using 1(2,3) by (cases k; cases "k = 1") auto
    then have "length (to_string (n div 10)) \<le> k'" using 1 False by (auto simp: less_mult_imp_div_less mult.commute)
    then show ?thesis using False k by (subst to_string.simps) simp
  qed (use 1(3) in \<open>subst to_string.simps; simp\<close>)
qed

lemma zeros_value [simp]: "all_digits (replicate k (CHR ''0''))" "digits_value (replicate k (CHR ''0'')) = 0"
  by (induction k) (simp_all add: replicate_append_same [symmetric] del: replicate_Suc add: replicate_Suc [of _ "CHR ''0''"])

lemma pad8_digits:
  assumes "all_digits f" "length f \<le> 8"
  shows "all_digits (pad8 f)" "length (pad8 f) = 8" "digits_value (pad8 f) = digits_value f"
  using assms by (simp_all add: pad8_def digits_value_append)

lemma drop_zeros_value:
  assumes "all_digits f" "length f = 8"
  shows "all_digits (drop_zeros f)" "length (drop_zeros f) \<le> 8" "frac_value (drop_zeros f) = digits_value f"
proof -
  let ?z = "takeWhile (\<lambda>c. c = CHR ''0'') (rev f)"
  have z: "?z = replicate (length ?z) (CHR ''0'')"
    by (rule replicate_eqI) (auto dest: set_takeWhileD)
  have "f = rev (?z @ dropWhile (\<lambda>c. c = CHR ''0'') (rev f))" by simp
  then have f: "f = drop_zeros f @ replicate (length ?z) (CHR ''0'')"
    using z unfolding drop_zeros_def by (metis rev_append rev_replicate)
  then have "all_digits (drop_zeros f)" "length f = length (drop_zeros f) + length ?z"
    "digits_value f = digits_value (drop_zeros f) * 10 ^ length ?z"
    using assms(1) digits_value_append [of "drop_zeros f"] by (metis all_digits_simps(3), metis length_append length_replicate, metis add.right_neutral length_replicate zeros_value(2))
  then show "all_digits (drop_zeros f)" "length (drop_zeros f) \<le> 8" "frac_value (drop_zeros f) = digits_value f"
    using assms(2) by (simp_all add: frac_value_def) (metis add_diff_cancel_left')
qed

lemma formatScaled_denotes: "in_ll x \<Longrightarrow> denotes (formatScaled x) x"
proof -
  assume x: "in_ll x"
  define a where "a = \<bar>x\<bar>"
  have abs: "(if x < 0 then to_u64 (- to_u64 x) else to_u64 x) = a"
    using x by (auto simp: a_def to_u64_def in_ll_def int_limits mod_minus_eq)
  let ?i = "to_string (nat (a div SCALE))" and ?f = "drop_zeros (pad8 (to_string (nat (a mod SCALE))))"
  have i: "all_digits ?i" "?i \<noteq> []" "digits_value ?i = a div SCALE"
    by (simp_all add: to_string_digits SCALE_def pos_imp_zdiv_nonneg_iff a_def)
  have "nat (a mod SCALE) < 10 ^ 8" by (simp add: SCALE_def nat_less_iff)
  then have pad: "all_digits (pad8 (to_string (nat (a mod SCALE))))" "length (pad8 (to_string (nat (a mod SCALE)))) = 8"
    "digits_value (pad8 (to_string (nat (a mod SCALE)))) = a mod SCALE"
    using pad8_digits [OF to_string_digits(1) to_string_length] by (simp_all add: to_string_digits SCALE_def)
  note f = drop_zeros_value [OF pad(1,2), unfolded pad(3)]
  have sum: "a div SCALE * SCALE + a mod SCALE = a" by simp
  show ?thesis
  proof (cases "a mod SCALE = 0")
    case True
    then have run: "formatScaled x = (if x < 0 then ''-'' @ ?i else ?i)" "a div SCALE * SCALE = a"
      unfolding formatScaled_def Let_def abs using sum by simp_all
    show ?thesis
      using denotes.integer [OF i(1,2)] denotes.neg_integer [OF i(1,2)] unfolding run(1) i(3) run(2)
      by (cases "x < 0") (simp_all add: a_def)
  next
    case False
    then have run: "formatScaled x = (if x < 0 then CHR ''-'' # ?i @ CHR ''.'' # ?f else ?i @ CHR ''.'' # ?f)"
      unfolding formatScaled_def Let_def abs by simp
    show ?thesis
      using denotes.decimal [OF i(1) f(1,2) disjI1 [OF i(2)]] denotes.neg_decimal [OF i(1) f(1,2) i(2)]
      unfolding run i(3) f(3) sum by (cases "x < 0") (simp_all add: a_def)
  qed
qed

end
