(* ===== verification/Doubles.thy ===== *)
theory Doubles
  imports Complex_Main Decimal
begin

text \<open>
  The floating-point numbers of the sources: a \<open>double\<close> is the rational number it stands
  for, rounded to 53 binary digits, ties to even (the ranges of the exponent are not
  reached: the values are integers of 64 bits and their quotients by \<open>10^8\<close> and \<open>1000\<close>).
  With the text \<open>printf\<close> prints for one with \<open>%.8f\<close>.
\<close>

section \<open>Rounding\<close>

definition round_even :: "rat \<Rightarrow> int" where
  "round_even x =
     (let f = \<lfloor>x\<rfloor>; d = x - of_int f
      in if d < 1 / 2 then f else if 1 / 2 < d then f + 1 else if even f then f else f + 1)"

definition pow2 :: "int \<Rightarrow> rat" where
  "pow2 e = (if 0 \<le> e then 2 ^ nat e else 1 / 2 ^ nat (- e))"

fun bits :: "nat \<Rightarrow> nat" where
  "bits n = (if n = 0 then 0 else Suc (bits (n div 2)))"

declare bits.simps [simp del]

definition binary_exponent :: "rat \<Rightarrow> int" where
  "binary_exponent x =
     (let (n, d) = quotient_of \<bar>x\<bar>; e = int (bits (nat n)) - int (bits (nat d))
      in if pow2 e \<le> \<bar>x\<bar> then e else e - 1)"

definition to_double :: "rat \<Rightarrow> rat" where
  "to_double x =
     (if x = 0 then 0
      else (let u = pow2 (binary_exponent x - 52) in of_int (round_even (x / u)) * u))"

lemma round_even_near:
  assumes "\<bar>x - of_int n\<bar> < 1 / 2"
  shows "round_even x = n"
proof -
  have near: "x - of_int n < 1 / 2" "- (1 / 2) < x - of_int n"
    using assms unfolding abs_less_iff by linarith+
  then consider "\<lfloor>x\<rfloor> = n" | "\<lfloor>x\<rfloor> = n - 1" by linarith
  then show ?thesis
  proof cases
    case 1
    then show ?thesis using near(1) by (simp add: round_even_def Let_def)
  next
    case 2
    have "1 / 2 < x - of_int (n - 1)" using near(2) by (simp add: of_int_diff)
    then show ?thesis unfolding round_even_def Let_def 2 by simp
  qed
qed

lemma round_even_error: "\<bar>of_int (round_even x) - x\<bar> \<le> 1 / 2"
  using of_int_floor_le [of x] floor_correct [of x] by (simp add: round_even_def Let_def abs_le_iff)

lemma pow2_pos [simp]: "0 < pow2 e"
  by (simp add: pow2_def)

lemma pow2_Suc: "pow2 (e + 1) = 2 * pow2 e"
proof (cases "0 \<le> e")
  case True
  then have "nat (e + 1) = Suc (nat e)" by simp
  then show ?thesis using True by (simp add: pow2_def)
next
  case False
  then have "nat (- e) = Suc (nat (- (e + 1)))" by simp
  then show ?thesis using False by (auto simp: pow2_def)
qed

lemma pow2_add: "pow2 (e + int k) = 2 ^ k * pow2 e"
proof (induction k)
  case (Suc k)
  have "e + int (Suc k) = (e + int k) + 1" by simp
  then show ?case using Suc by (simp only: pow2_Suc power_Suc)
qed simp

lemma pow2_nat: "pow2 (int k) = 2 ^ k"
  using pow2_add [of 0 k] by (simp add: pow2_def)

lemma bits_bounds: "n \<noteq> 0 \<Longrightarrow> 2 ^ (bits n - 1) \<le> n \<and> n < 2 ^ bits n \<and> 0 < bits n"
proof (induction n rule: bits.induct)
  case (1 n)
  then have b: "bits n = Suc (bits (n div 2))" by (subst bits.simps) simp
  show ?case
  proof (cases "n div 2 = 0")
    case True
    moreover have "bits 0 = 0" by (subst bits.simps) simp
    ultimately have "bits n = 1" by (simp add: b)
    moreover have "n = 1" using True 1(2) by linarith
    ultimately show ?thesis by simp
  next
    case False
    with 1 have h: "2 ^ (bits (n div 2) - 1) \<le> n div 2" "n div 2 < 2 ^ bits (n div 2)" "0 < bits (n div 2)" by simp_all
    then obtain k where k: "bits (n div 2) = Suc k" by (cases "bits (n div 2)") auto
    from h have "2 ^ k \<le> n div 2" "n div 2 < 2 * 2 ^ k" by (simp_all add: k)
    then have "2 * 2 ^ k \<le> n" "n < 2 * (2 * 2 ^ k)" by linarith+
    then show ?thesis by (simp add: b k)
  qed
qed

lemma pow2_diff: "pow2 (int a - int b) * 2 ^ b = 2 ^ a"
  using pow2_add [of "int a - int b" b] by (simp add: pow2_nat mult.commute)

lemma binary_exponent_le:
  assumes "x \<noteq> 0"
  shows "pow2 (binary_exponent x) \<le> \<bar>x\<bar>"
proof -
  obtain n d where q: "quotient_of \<bar>x\<bar> = (n, d)" by (cases "quotient_of \<bar>x\<bar>")
  have d: "0 < d" using quotient_of_denom_pos [OF q] .
  have x: "\<bar>x\<bar> = of_int n / of_int d" using quotient_of_div [OF q] .
  then have n: "0 < n" using assms d by (metis of_int_0_less_iff zero_less_abs_iff zero_less_divide_iff less_asym)
  define e where "e = int (bits (nat n)) - int (bits (nat d))"
  have "pow2 (e - 1) \<le> \<bar>x\<bar>"
  proof -
    have N: "2 ^ (bits (nat n) - 1) \<le> nat n" "0 < bits (nat n)" using bits_bounds [of "nat n"] n by auto
    have D: "nat d < 2 ^ bits (nat d)" using bits_bounds [of "nat d"] d by auto
    from N(1) have "int (2 ^ (bits (nat n) - 1)) \<le> n" using n by linarith
    then have "(of_int (int (2 ^ (bits (nat n) - 1))) :: rat) \<le> of_int n" by (simp only: of_int_le_iff)
    then have n2: "(2::rat) ^ (bits (nat n) - 1) \<le> of_int n" by simp
    from D have "d \<le> int (2 ^ bits (nat d))" using d by linarith
    then have "(of_int d :: rat) \<le> of_int (int (2 ^ bits (nat d)))" by (simp only: of_int_le_iff)
    then have d2: "(of_int d :: rat) \<le> 2 ^ bits (nat d)" by simp
    have "e - 1 = int (bits (nat n) - 1) - int (bits (nat d))" using N(2) by (simp add: e_def)
    then have "pow2 (e - 1) * of_int d \<le> 2 ^ (bits (nat n) - 1)"
      using mult_left_mono [OF d2 less_imp_le [OF pow2_pos [of "e - 1"]]] pow2_diff [of "bits (nat n) - 1" "bits (nat d)"]
      by (simp only:)
    also note n2
    finally show ?thesis using d by (simp add: x pos_le_divide_eq)
  qed
  then show ?thesis by (simp add: binary_exponent_def q e_def Let_def)
qed

lemma to_double_error: "\<bar>to_double x - x\<bar> \<le> \<bar>x\<bar> / 2 ^ 53"
proof (cases "x = 0")
  case False
  define u where "u = pow2 (binary_exponent x - 52)"
  have u: "0 < u" by (simp add: u_def)
  have "binary_exponent x = (binary_exponent x - 52) + int 52" by simp
  then have "pow2 (binary_exponent x) = 2 ^ 52 * u" unfolding u_def by (metis pow2_add)
  then have le: "2 ^ 52 * u \<le> \<bar>x\<bar>" using binary_exponent_le [OF False] by simp
  have "\<bar>of_int (round_even (x / u)) * u - x\<bar> = \<bar>of_int (round_even (x / u)) - x / u\<bar> * u"
  proof -
    have "of_int (round_even (x / u)) * u - x = (of_int (round_even (x / u)) - x / u) * u"
      using u by (simp add: left_diff_distrib)
    then show ?thesis using u by (simp add: abs_mult)
  qed
  also have "\<dots> \<le> 1 / 2 * u" using round_even_error u by (intro mult_right_mono) auto
  also have "\<dots> \<le> \<bar>x\<bar> / 2 ^ 53" using le by simp
  finally show ?thesis using False by (simp add: to_double_def u_def Let_def)
qed (simp add: to_double_def)

section \<open>Fixed-point text\<close>

text \<open>\<open>printf("%.8f")\<close>, and the conversion into a buffer of 64 characters.\<close>

definition fixed8 :: "rat \<Rightarrow> string" where
  "fixed8 v =
     (let n = nat (round_even (\<bar>v\<bar> * 100000000))
      in (if v < 0 then ''-'' else []) @ to_string (n div 100000000) @ CHR ''.'' # pad8 (to_string (n mod 100000000)))"

definition doubleToString :: "rat \<Rightarrow> string" where
  "doubleToString v = take 63 (fixed8 v)"

lemma round_even_mono0: "0 \<le> x \<Longrightarrow> 0 \<le> round_even x"
  by (simp add: round_even_def Let_def)

lemma doubleToString_denotes:
  assumes "round_even (\<bar>v\<bar> * 100000000) = n" "n \<le> LLONG_MAX"
  shows "denotes (doubleToString v) (if v < 0 then - n else n)"
proof -
  have n: "0 \<le> n" using round_even_mono0 [of "\<bar>v\<bar> * 100000000"] assms(1) by simp
  let ?i = "to_string (nat n div 100000000)" and ?f = "pad8 (to_string (nat n mod 100000000))"
  have small: "nat n mod 100000000 < 10 ^ 8" by simp
  have f: "all_digits ?f" "length ?f = 8" "digits_value ?f = int (nat n mod 100000000)"
    using pad8_digits [OF to_string_digits(1) to_string_length [OF small]] by (simp_all add: to_string_digits)
  have "n < 10 ^ 19" using assms(2) by (simp add: int_limits)
  then have "nat n < 10 ^ 19" by (simp add: nat_less_iff n)
  then have "nat n div 100000000 < 10 ^ 11" by (simp add: less_mult_imp_div_less)
  then have "length ?i \<le> 11" by (rule to_string_length) simp
  then have "length (fixed8 v) \<le> 63" by (simp add: fixed8_def assms(1) Let_def f(2))
  then have "take 63 (fixed8 v) = fixed8 v" by simp
  then have txtv: "doubleToString v = (if v < 0 then CHR ''-'' # ?i @ CHR ''.'' # ?f else ?i @ CHR ''.'' # ?f)"
    by (simp add: doubleToString_def fixed8_def assms(1) Let_def)
  have "int (nat n div 100000000) * 100000000 + int (nat n mod 100000000) = int (nat n)"
    by (metis div_mult_mod_eq of_nat_add of_nat_mult of_nat_numeral)
  then have sum: "digits_value ?i * SCALE + frac_value ?f = n"
    using n by (simp add: to_string_digits f frac_value_def SCALE_def)
  show ?thesis
    using denotes.decimal [OF to_string_digits(1) f(1) _ disjI1 [OF to_string_digits(2)], of "nat n div 100000000"]
      denotes.neg_decimal [OF to_string_digits(1) f(1) _ to_string_digits(2), of "nat n div 100000000"] f(2)
    unfolding txtv sum by auto
qed

text \<open>The double next to a decimal of eight fractional digits prints as that decimal.\<close>

lemma to_double_sign:
  shows "0 < x \<Longrightarrow> 0 < to_double x" and "x < 0 \<Longrightarrow> to_double x < 0"
proof -
  have e: "to_double x - x \<le> \<bar>x\<bar> / 2 ^ 53" "x - to_double x \<le> \<bar>x\<bar> / 2 ^ 53"
    using to_double_error [of x] by (simp_all only: abs_le_iff) simp
  {
    assume "0 < x"
    then have "\<bar>x\<bar> / 2 ^ 53 < x" by simp
    then show "0 < to_double x" using e(2) by linarith
  next
    assume "x < 0"
    then have "\<bar>x\<bar> / 2 ^ 53 < - x" by simp
    then show "to_double x < 0" using e(1) by linarith
  }
qed

lemma doubleToString_price:
  assumes "\<bar>p\<bar> < 2 ^ 52"
  shows "parseDecimal (doubleToString (to_double (of_int p / 100000000))) = Inr p"
proof -
  let ?x = "of_int p / 100000000 :: rat"
  let ?v = "to_double ?x"
  have p: "\<bar>of_int p :: rat\<bar> < 2 ^ 52" using assms by (metis of_int_abs of_int_less_iff of_int_numeral of_int_power)
  have same: "\<bar>\<bar>?v\<bar> - \<bar>?x\<bar>\<bar> \<le> \<bar>?x\<bar> / 2 ^ 53" using to_double_error [of ?x] abs_triangle_ineq3 [of ?v ?x] by linarith
  have "\<bar>?v\<bar> * 100000000 - of_int \<bar>p\<bar> = (\<bar>?v\<bar> - \<bar>?x\<bar>) * 100000000" by simp
  then have "\<bar>\<bar>?v\<bar> * 100000000 - of_int \<bar>p\<bar>\<bar> = \<bar>\<bar>?v\<bar> - \<bar>?x\<bar>\<bar> * 100000000" by (simp only: abs_mult abs_numeral)
  also have "\<dots> \<le> \<bar>of_int p\<bar> / 2 ^ 53" using same by simp
  also have "\<dots> < 1 / 2" using p by simp
  finally have "round_even (\<bar>?v\<bar> * 100000000) = \<bar>p\<bar>" by (rule round_even_near)
  moreover have "\<bar>p\<bar> \<le> LLONG_MAX" using assms by (simp add: int_limits)
  ultimately have "denotes (doubleToString ?v) (if ?v < 0 then - \<bar>p\<bar> else \<bar>p\<bar>)" by (rule doubleToString_denotes)
  moreover have "(if ?v < 0 then - \<bar>p\<bar> else \<bar>p\<bar>) = p"
  proof (cases p "0::int" rule: linorder_cases)
    case less
    then have "?x < 0" by simp
    then show ?thesis using to_double_sign(2) [of ?x] less by simp
  next
    case equal
    then show ?thesis by simp
  next
    case greater
    then have "0 < ?x" by simp
    then have "\<not> ?v < 0" using to_double_sign(1) [of ?x] by linarith
    then show ?thesis using greater by simp
  qed
  moreover have "in_ll p" using assms by (simp add: in_ll_def int_limits abs_less_iff)
  ultimately show ?thesis by (simp only: parseDecimal_denotes)
qed

section \<open>Scaled integers\<close>

text \<open>\<open>static_cast<double>\<close> of an integer, and a scaled integer divided by \<open>kPriceScale\<close>, which is \<open>10^8\<close>.\<close>

definition int_double :: "int \<Rightarrow> rat" where
  "int_double i = to_double (of_int i)"

definition unscaled :: "int \<Rightarrow> rat" where
  "unscaled i = to_double (int_double i / 100000000)"

lemma unscaled_error: "\<bar>unscaled i - of_int i / 10 ^ 8\<bar> \<le> \<bar>of_int i / 10 ^ 8\<bar> / 2 ^ 51"
proof -
  define a :: rat where "a = of_int i"
  define d where "d = int_double i"
  have 1: "\<bar>d - a\<bar> \<le> \<bar>a\<bar> / 2 ^ 53" using to_double_error [of a] by (simp add: d_def a_def int_double_def)
  have 2: "\<bar>unscaled i - d / 10 ^ 8\<bar> \<le> \<bar>d / 10 ^ 8\<bar> / 2 ^ 53"
    using to_double_error [of "d / 10 ^ 8"] by (simp add: d_def unscaled_def)
  have "\<bar>d\<bar> - \<bar>a\<bar> \<le> \<bar>d - a\<bar>" by (rule abs_triangle_ineq2)
  moreover have "\<bar>a\<bar> / 2 ^ 53 \<le> \<bar>a\<bar>" by simp
  ultimately have "\<bar>d\<bar> \<le> 2 * \<bar>a\<bar>" using 1 by linarith
  then have "\<bar>d / 10 ^ 8\<bar> / 2 ^ 53 \<le> \<bar>a / 10 ^ 8\<bar> / 2 ^ 52" by (simp add: abs_divide)
  moreover have "\<bar>d / 10 ^ 8 - a / 10 ^ 8\<bar> \<le> \<bar>a / 10 ^ 8\<bar> / 2 ^ 53"
    using 1 by (simp add: abs_divide diff_divide_distrib [symmetric])
  moreover have "\<bar>a / 10 ^ 8\<bar> / 2 ^ 52 = 2 * (\<bar>a / 10 ^ 8\<bar> / 2 ^ 53)" "\<bar>a / 10 ^ 8\<bar> / 2 ^ 51 = 4 * (\<bar>a / 10 ^ 8\<bar> / 2 ^ 53)"
    "0 \<le> \<bar>a / 10 ^ 8\<bar> / 2 ^ 53" by simp_all
  ultimately show ?thesis using 2 unfolding a_def [symmetric] by linarith
qed

end
