(* ===== verification/Ofi_Types.thy ===== *)
theory Ofi_Types
  imports Prelude
begin

text \<open>
  \<open>src/ofi_types.hpp\<close>: the kinds of events, the change records the book emits and the
  result of a sequenced update.
\<close>

datatype event_kind =
    Genuine       \<comment> \<open>live stream event from the exchange\<close>
  | Backfill      \<comment> \<open>snapshot replay, buffer drain\<close>
  | Maintenance   \<comment> \<open>secondary entry or eviction of the OFI view\<close>

record level_delta =
  d_price :: int
  d_newQty :: int
  d_deltaQty :: int
  d_isBid :: bool
  d_wasInView :: bool
  d_inOfiView :: bool
  d_kind :: event_kind

record update_result =
  success :: bool
  deltas :: "level_delta list"

text \<open>A price level: price and quantity, both scaled by \<open>10^8\<close>.\<close>

type_synonym level = "int \<times> int"

end
