(* ===== verification/Side_View.thy ===== *)
theory Side_View
  imports Ofi_Types
begin

text \<open>
  The OFI view of one side of the book: the best \<open>ofiDepth\<close> levels, best first
  (\<open>OrderBook::updateOfiView\<close> and \<open>OrderBook::rebuildOfiSide\<close> of
  \<open>src/order_book.cpp\<close>). The bid and the ask branch of the source are the same code up to
  the order (\<open>>\<close> or \<open><\<close>) and the walk over the ladder (\<open>bestHigh\<close> and
  \<open>prevBelow\<close>, or \<open>bestLow\<close> and \<open>nextAbove\<close>), which are parameters here.
  What the view needs of a ladder is the locale \<open>price_side\<close>; its lemmas show that the
  incremental maintenance keeps the view equal to the best levels.
\<close>

section \<open>The operations\<close>

record view_change =
  evictedPrice :: int
  evictedQty :: int
  replacementPrice :: int
  replacementQty :: int

definition no_change :: view_change where
  "no_change = \<lparr>evictedPrice = 0, evictedQty = 0, replacementPrice = 0, replacementQty = 0\<rparr>"

text \<open>
  \<open>std::lower_bound\<close> on the sorted view: the first entry not better than the price.
\<close>

definition lower_bound :: "(int \<Rightarrow> int \<Rightarrow> bool) \<Rightarrow> level list \<Rightarrow> int \<Rightarrow> level list \<times> level list" where
  "lower_bound better view p =
     (takeWhile (\<lambda>l. better (fst l) p) view, dropWhile (\<lambda>l. better (fst l) p) view)"

text \<open>A viewed level is removed: pull in the next one from the ladder.\<close>

definition eraseLevel ::
  "int option \<Rightarrow> (int \<Rightarrow> int option) \<Rightarrow> (int \<Rightarrow> int option) \<Rightarrow> nat \<Rightarrow> bool \<Rightarrow> level list \<Rightarrow>
   (level list \<times> view_change) option" where
  "eraseLevel best walk get ofiDepth wasFull erased = do {
     repPrice \<leftarrow> (if erased \<noteq> [] then walk (fst (last erased)) else best);
     repQty \<leftarrow> (if 0 < repPrice then get repPrice else Some 0);
     let view = (if repPrice \<noteq> 0 then erased @ [(repPrice, repQty)] else erased);
     Some (view, if wasFull \<and> length view = ofiDepth
                 then no_change\<lparr>replacementPrice := fst (last view), replacementQty := snd (last view)\<rparr>
                 else no_change)
   }"

text \<open>A level that is not in the view gets a quantity: insert it if it belongs there.\<close>

definition insertLevel ::
  "(int \<Rightarrow> int \<Rightarrow> bool) \<Rightarrow> nat \<Rightarrow> level list \<Rightarrow> level list \<Rightarrow> level list \<Rightarrow> int \<Rightarrow> int \<Rightarrow>
   level list \<times> view_change" where
  "insertLevel better ofiDepth view front it p newQty =
     (let viewNotFull = length view < ofiDepth;
          beatWorst = (view \<noteq> [] \<and> better p (fst (last view)));
          inserted = front @ (p, newQty) # it
      in if viewNotFull \<or> beatWorst then
           if ofiDepth < length inserted
           then (butlast inserted,
                 no_change\<lparr>evictedPrice := fst (last inserted), evictedQty := snd (last inserted)\<rparr>)
           else (inserted, no_change)
         else (view, no_change))"

definition updateSideView ::
  "(int \<Rightarrow> int \<Rightarrow> bool) \<Rightarrow> int option \<Rightarrow> (int \<Rightarrow> int option) \<Rightarrow> (int \<Rightarrow> int option) \<Rightarrow> nat \<Rightarrow>
   level list \<Rightarrow> int \<Rightarrow> int \<Rightarrow> (level list \<times> view_change) option" where
  "updateSideView better best walk get ofiDepth view p newQty =
     (let (front, it) = lower_bound better view p;
          inView = (it \<noteq> [] \<and> fst (hd it) = p)
      in if inView then
           if newQty = 0
           then eraseLevel best walk get ofiDepth (length view = ofiDepth) (front @ tl it)
           else Some (front @ (p, newQty) # tl it, no_change)
         else if 0 < newQty
         then Some (insertLevel better ofiDepth view front it p newQty)
         else Some (view, no_change))"

text \<open>The loop of \<open>rebuildOfiSide\<close>: \<open>k\<close> entries are still free.\<close>

fun rebuildLoop :: "(int \<Rightarrow> int option) \<Rightarrow> (int \<Rightarrow> int option) \<Rightarrow> nat \<Rightarrow> int \<Rightarrow> level list option" where
  "rebuildLoop walk get 0 p = Some []"
| "rebuildLoop walk get (Suc k) p =
     (if 0 < p then do {
        q \<leftarrow> get p;
        p' \<leftarrow> walk p;
        rest \<leftarrow> rebuildLoop walk get k p';
        Some ((p, q) # rest)
      }
      else Some [])"

definition rebuildSide :: "int option \<Rightarrow> (int \<Rightarrow> int option) \<Rightarrow> (int \<Rightarrow> int option) \<Rightarrow> nat \<Rightarrow> level list option" where
  "rebuildSide best walk get ofiDepth = do { p \<leftarrow> best; rebuildLoop walk get ofiDepth p }"

section \<open>What the view is\<close>

text \<open>
  The best \<open>n\<close> levels of a quantity map, best first: strictly ordered, with the map's
  quantities, and a level of the map that is missing is worse than all of a full view.
\<close>

definition top_view :: "(int \<Rightarrow> int \<Rightarrow> bool) \<Rightarrow> nat \<Rightarrow> (int \<Rightarrow> int) \<Rightarrow> level list \<Rightarrow> bool" where
  "top_view better n m view \<longleftrightarrow>
     sorted_wrt better (map fst view) \<and> length view \<le> n \<and>
     (\<forall>l \<in> set view. snd l = m (fst l) \<and> 0 < snd l) \<and>
     (\<forall>p. 0 < m p \<longrightarrow> p \<notin> fst ` set view \<longrightarrow> length view = n \<and> (\<forall>w \<in> fst ` set view. better w p))"

definition view_sum :: "level list \<Rightarrow> int" where
  "view_sum view = sum_list (map snd view)"

text \<open>
  The effect of one view update on the set of viewed prices, and what is reported: nothing
  beyond the changed price itself, an eviction, or a replacement.
\<close>

definition view_step ::
  "(int \<Rightarrow> int) \<Rightarrow> (int \<Rightarrow> int) \<Rightarrow> int \<Rightarrow> int set \<Rightarrow> int set \<Rightarrow> view_change \<Rightarrow> bool" where
  "view_step m m' p X X' c \<longleftrightarrow>
     (c = no_change \<and> X' - {p} = X - {p}) \<or>
     (\<exists>e. e \<in> X \<and> e \<noteq> p \<and> p \<notin> X \<and> X' = insert p (X - {e}) \<and>
        c = no_change\<lparr>evictedPrice := e, evictedQty := m e\<rparr>) \<or>
     (\<exists>r. r \<notin> X \<and> r \<noteq> p \<and> 0 < m' r \<and> p \<in> X \<and> X' = insert r (X - {p}) \<and>
        c = no_change\<lparr>replacementPrice := r, replacementQty := m' r\<rparr>)"

text \<open>The result of a walk: the best element of a set, 0 if it is empty.\<close>

definition selects :: "(int \<Rightarrow> int \<Rightarrow> bool) \<Rightarrow> int set \<Rightarrow> int \<Rightarrow> bool" where
  "selects better A p \<longleftrightarrow> (A = {} \<and> p = 0) \<or> (p \<in> A \<and> (\<forall>x \<in> A. x = p \<or> better p x))"

lemma top_viewD:
  assumes "top_view better n m view"
  shows "sorted_wrt better (map fst view)" "length view \<le> n"
    "l \<in> set view \<Longrightarrow> snd l = m (fst l)" "l \<in> set view \<Longrightarrow> 0 < snd l"
    "0 < m p \<Longrightarrow> p \<notin> fst ` set view \<Longrightarrow> length view = n"
    "0 < m p \<Longrightarrow> p \<notin> fst ` set view \<Longrightarrow> w \<in> fst ` set view \<Longrightarrow> better w p"
  using assms by (auto simp: top_view_def)

lemma view_sum_simps [simp]:
  "view_sum [] = 0" "view_sum (l # ls) = snd l + view_sum ls" "view_sum (xs @ ys) = view_sum xs + view_sum ys"
  by (simp_all add: view_sum_def)

text \<open>
  The same on the prices alone, without the bound on the length: some best prices, best
  first. A view lists prices with the quantities of the map.
\<close>

definition best_prices :: "(int \<Rightarrow> int \<Rightarrow> bool) \<Rightarrow> (int \<Rightarrow> int) \<Rightarrow> int list \<Rightarrow> bool" where
  "best_prices better m ps \<longleftrightarrow>
     sorted_wrt better ps \<and> (\<forall>p \<in> set ps. 0 < m p) \<and>
     (\<forall>x. 0 < m x \<longrightarrow> x \<notin> set ps \<longrightarrow> (\<forall>w \<in> set ps. better w x))"

definition view_of :: "(int \<Rightarrow> int) \<Rightarrow> int list \<Rightarrow> level list" where
  "view_of m ps = map (\<lambda>p. (p, m p)) ps"

lemma view_of_simps [simp]:
  "view_of m [] = []" "view_of m (p # ps) = (p, m p) # view_of m ps"
  "view_of m (ps @ rs) = view_of m ps @ view_of m rs" "map fst (view_of m ps) = ps"
  "fst ` set (view_of m ps) = set ps" "length (view_of m ps) = length ps" "view_of m ps = [] \<longleftrightarrow> ps = []"
  "ps \<noteq> [] \<Longrightarrow> last (view_of m ps) = (last ps, m (last ps))" "butlast (view_of m ps) = view_of m (butlast ps)"
  by (auto simp: view_of_def o_def last_map map_butlast image_image)

lemma view_of_upd [simp]: "p \<notin> set ps \<Longrightarrow> view_of (m(p := q)) ps = view_of m ps"
  by (auto simp: view_of_def)

lemma view_sum_view_of: "view_sum (view_of m ps) = sum_list (map m ps)"
  by (simp add: view_sum_def view_of_def o_def)

lemma view_of_fst: "(\<And>l. l \<in> set view \<Longrightarrow> snd l = m (fst l)) \<Longrightarrow> view_of m (map fst view) = view"
  by (simp add: view_of_def map_idI prod_eq_iff)

lemma top_view_iff:
  "top_view better n m view \<longleftrightarrow>
     (\<exists>ps. view = view_of m ps \<and> best_prices better m ps \<and> length ps \<le> n \<and>
       (length ps < n \<longrightarrow> (\<forall>p. 0 < m p \<longrightarrow> p \<in> set ps)))"
proof
  assume V: "top_view better n m view"
  have "view = view_of m (map fst view)" using top_viewD(3) [OF V] by (simp add: view_of_fst)
  moreover have "best_prices better m (map fst view)"
    using V unfolding top_view_def best_prices_def by fastforce
  moreover have "length (map fst view) < n \<longrightarrow> (\<forall>p. 0 < m p \<longrightarrow> p \<in> set (map fst view))"
    using V unfolding top_view_def by fastforce
  ultimately show "\<exists>ps. view = view_of m ps \<and> best_prices better m ps \<and> length ps \<le> n \<and>
       (length ps < n \<longrightarrow> (\<forall>p. 0 < m p \<longrightarrow> p \<in> set ps))"
    using top_viewD(2) [OF V] by (intro exI [of _ "map fst view"]) simp
next
  assume "\<exists>ps. view = view_of m ps \<and> best_prices better m ps \<and> length ps \<le> n \<and>
       (length ps < n \<longrightarrow> (\<forall>p. 0 < m p \<longrightarrow> p \<in> set ps))"
  then obtain ps where ps: "view = view_of m ps" "best_prices better m ps" "length ps \<le> n"
    "length ps < n \<longrightarrow> (\<forall>p. 0 < m p \<longrightarrow> p \<in> set ps)" by blast
  have "\<forall>l \<in> set (view_of m ps). snd l = m (fst l) \<and> 0 < snd l"
    using ps(2) by (auto simp: view_of_def best_prices_def)
  moreover have "sorted_wrt better ps" using ps(2) by (simp add: best_prices_def)
  moreover have "length ps = n \<and> (\<forall>w \<in> set ps. better w p)" if "0 < m p" "p \<notin> set ps" for p
    using that ps(2-4) unfolding best_prices_def by (meson le_neq_implies_less)
  ultimately show "top_view better n m view" unfolding top_view_def ps(1) view_of_simps using ps(3) by blast
qed

lemma best_pricesD:
  assumes "best_prices better m ps"
  shows "sorted_wrt better ps" "p \<in> set ps \<Longrightarrow> 0 < m p"
    "0 < m x \<Longrightarrow> x \<notin> set ps \<Longrightarrow> w \<in> set ps \<Longrightarrow> better w x"
  using assms by (auto simp: best_prices_def)

section \<open>Strict orders of prices\<close>

locale price_order =
  fixes better :: "int \<Rightarrow> int \<Rightarrow> bool"
  assumes better_irrefl: "\<not> better p p"
    and better_trans: "better p r \<Longrightarrow> better r s \<Longrightarrow> better p s"
    and better_total: "p \<noteq> r \<Longrightarrow> better p r \<or> better r p"
begin

lemma better_asym: "better p r \<Longrightarrow> \<not> better r p"
  using better_irrefl better_trans by blast

lemma sorted_distinct: "sorted_wrt better xs \<Longrightarrow> distinct xs"
  by (induction xs) (auto simp: better_irrefl)

text \<open>\<open>lower_bound\<close> splits a sorted view at the price.\<close>

lemma split_view:
  assumes sorted: "sorted_wrt better ps"
  obtains front rest where "ps = front @ rest"
    "lower_bound better (view_of m ps) p = (view_of m front, view_of m rest)"
    "\<forall>w \<in> set front. better w p" "rest \<noteq> [] \<and> hd rest = p \<longleftrightarrow> p \<in> set ps"
    "p \<notin> set ps \<longrightarrow> (\<forall>w \<in> set rest. better p w)"
proof
  let ?front = "takeWhile (\<lambda>w. better w p) ps" and ?rest = "dropWhile (\<lambda>w. better w p) ps"
  show ps: "ps = ?front @ ?rest" by simp
  show "lower_bound better (view_of m ps) p = (view_of m ?front, view_of m ?rest)"
    by (simp add: lower_bound_def view_of_def takeWhile_map dropWhile_map o_def)
  show front: "\<forall>w \<in> set ?front. better w p" by (auto dest: set_takeWhileD)
  have hd_rest: "?rest \<noteq> [] \<Longrightarrow> \<not> better (hd ?rest) p" by (rule hd_dropWhile)
  have rest: "sorted_wrt better ?rest" using sorted ps by (metis sorted_wrt_append)
  show "?rest \<noteq> [] \<and> hd ?rest = p \<longleftrightarrow> p \<in> set ps"
  proof
    assume "p \<in> set ps"
    then have "p \<in> set ?rest" using front better_irrefl ps by (metis UnE set_append)
    then show "?rest \<noteq> [] \<and> hd ?rest = p" using rest hd_rest by (cases ?rest) auto
  qed (metis hd_in_set set_dropWhileD)
  have "\<forall>w \<in> set ?rest. better p w" if p: "p \<notin> set ps"
  proof (cases ?rest)
    case (Cons a list)
    then have "better p a" using hd_rest p better_total [of a p] by (metis list.sel(1) list.set_intros(1) list.simps(3) set_dropWhileD)
    then show ?thesis using rest Cons better_trans by auto
  next
    case Nil
    show ?thesis unfolding Nil by simp
  qed
  then show "p \<notin> set ps \<longrightarrow> (\<forall>w \<in> set ?rest. better p w)" by blast
qed

text \<open>Two views of the best levels are equal.\<close>

lemma top_view_subset:
  assumes V: "top_view better n m V" and W: "top_view better n m W"
  shows "fst ` set V \<subseteq> fst ` set W"
proof
  fix p assume p: "p \<in> fst ` set V"
  then have mp: "0 < m p" using top_viewD(3,4) [OF V] by fastforce
  show "p \<in> fst ` set W"
  proof (rule ccontr)
    assume notW: "p \<notin> fst ` set W"
    have "fst ` set W \<subseteq> fst ` set V - {p}"
    proof
      fix w assume w: "w \<in> fst ` set W"
      then have "better w p" "0 < m w"
        using top_viewD(6) [OF W mp notW] top_viewD(3,4) [OF W] by fastforce+
      then show "w \<in> fst ` set V - {p}" using top_viewD(6) [OF V _ _ p] better_asym better_irrefl by blast
    qed
    then have "fst ` set W \<subset> fst ` set V" using p by blast
    then have "card (fst ` set W) < card (fst ` set V)" by (intro psubset_card_mono) auto
    moreover have "card (fst ` set W) = length W" "card (fst ` set V) = length V"
      using sorted_distinct top_viewD(1) [OF V] top_viewD(1) [OF W] distinct_card
      by (metis length_map set_map)+
    ultimately show False using top_viewD(5) [OF W mp notW] top_viewD(2) [OF V] by simp
  qed
qed

lemma sorted_unique:
  "sorted_wrt better xs \<Longrightarrow> sorted_wrt better ys \<Longrightarrow> set xs = set ys \<Longrightarrow> xs = ys"
proof (induction xs arbitrary: ys)
  case (Cons x xs)
  then obtain y ys' where ys: "ys = y # ys'" by (cases ys) auto
  have "x = y"
  proof (rule ccontr)
    assume "x \<noteq> y"
    then have "x \<in> set ys'" "y \<in> set xs" using Cons.prems(3) by (auto simp: ys)
    then show False using Cons.prems(1,2) better_asym by (auto simp: ys)
  qed
  moreover have "x \<notin> set xs" "y \<notin> set ys'" using Cons.prems better_irrefl by (auto simp: ys)
  moreover have "set xs = set ys'" using calculation Cons.prems(3) by (auto simp: ys)
  ultimately show ?case using Cons by (auto simp: ys)
qed simp

lemma top_view_unique:
  assumes V: "top_view better n m V" and W: "top_view better n m W"
  shows "V = W"
proof -
  have "map fst V = map fst W"
    using top_view_subset [OF V W] top_view_subset [OF W V] top_viewD(1) V W
    by (intro sorted_unique) auto
  moreover have "U = map (\<lambda>p. (p, m p)) (map fst U)" if "top_view better n m U" for U
    using top_viewD(3) [OF that] by (simp add: map_idI prod_eq_iff)
  ultimately show ?thesis using V W by metis
qed

text \<open>The changes of a view, one by one, on the prices.\<close>

lemma sorted_last:
  assumes "sorted_wrt better ps" "w \<in> set ps" "w \<noteq> last ps"
  shows "better w (last ps)"
proof -
  have "ps = butlast ps @ [last ps]" using assms(2) by (cases ps rule: rev_cases) auto
  then have "w \<in> set (butlast ps)" "sorted_wrt better (butlast ps @ [last ps])"
    using assms by (metis UnE empty_iff insert_iff list.set set_append, metis)
  then show ?thesis by (simp add: sorted_wrt_append)
qed

lemma prefix_snoc:
  assumes "best_prices better m ps" "r \<noteq> 0"
    and "selects better {x. 0 < m x \<and> (\<forall>w \<in> set ps. better w x)} r"
  shows "best_prices better m (ps @ [r])"
  using assms by (auto simp: best_prices_def selects_def sorted_wrt_append)

lemma prefix_cons:
  assumes "0 < m p" "better p p'" "\<And>x. 0 < m x \<Longrightarrow> better p x \<Longrightarrow> x = p' \<or> better p' x"
    and ps: "best_prices better (\<lambda>x. if x = p' \<or> better p' x then m x else 0) ps"
  shows "best_prices better (\<lambda>x. if x = p \<or> better p x then m x else 0) (p # ps)"
proof -
  have w: "better p w \<and> 0 < m w" if "w \<in> set ps" for w
    using best_pricesD(2) [OF ps that] assms(2) better_trans [of p p' w] by (auto split: if_splits)
  have "better w x" if "0 < m x" "better p x" "x \<notin> set ps" "w \<in> set ps" for w x
    using best_pricesD(3) [OF ps _ that(3,4)] assms(3) [OF that(1,2)] that(1) by simp
  with w best_pricesD(1) [OF ps] assms(1) show ?thesis
    unfolding best_prices_def by (simp add: better_irrefl)
qed

lemma prefix_modify:
  assumes "best_prices better m ps" "p \<in> set ps" "0 < q"
  shows "best_prices better (m(p := q)) ps"
  using assms by (auto simp: best_prices_def)

lemma prefix_erase:
  assumes "best_prices better m (front @ p # rest)"
  shows "best_prices better (m(p := 0)) (front @ rest)"
  using assms sorted_distinct [OF best_pricesD(1) [OF assms]]
  by (auto simp: best_prices_def sorted_wrt_append)

lemma prefix_insert:
  assumes "best_prices better m (front @ rest)" "p \<notin> set (front @ rest)" "0 < q"
    and "\<forall>w \<in> set front. better w p" "\<forall>w \<in> set rest. better p w"
    and "\<And>x. 0 < m x \<Longrightarrow> x \<notin> set (front @ rest) \<Longrightarrow> x \<noteq> p \<Longrightarrow> better p x"
  shows "best_prices better (m(p := q)) (front @ p # rest)"
  using assms by (auto simp: best_prices_def sorted_wrt_append)

lemma prefix_other:
  assumes "best_prices better m ps" "p \<notin> set ps" "0 < q \<Longrightarrow> \<forall>w \<in> set ps. better w p"
  shows "best_prices better (m(p := q)) ps"
  using assms by (auto simp: best_prices_def)

lemma prefix_butlast:
  assumes "best_prices better m (ps @ [r])"
  shows "best_prices better m ps"
  using assms by (auto simp: best_prices_def sorted_wrt_append)

end

section \<open>What the view needs of a ladder\<close>

text \<open>
  The interface: an invariant, the quantity map with positive prices, and walks that
  return the best price and the best price worse than an active one, or 0.
\<close>

locale price_side = price_order better
  for better :: "int \<Rightarrow> int \<Rightarrow> bool" +
  fixes inv :: "'l \<Rightarrow> bool"
    and qty :: "'l \<Rightarrow> int \<Rightarrow> int"
    and best :: "'l \<Rightarrow> int option"
    and walk :: "'l \<Rightarrow> int \<Rightarrow> int option"
    and get :: "'l \<Rightarrow> int \<Rightarrow> int option"
  assumes qty_nonneg: "inv l \<Longrightarrow> 0 \<le> qty l p"
    and active_pos: "inv l \<Longrightarrow> 0 < qty l p \<Longrightarrow> 0 < p"
    and best_law: "inv l \<Longrightarrow> \<exists>p. best l = Some p \<and> selects better {x. 0 < qty l x} p"
    and walk_law: "inv l \<Longrightarrow> 0 < qty l w \<Longrightarrow>
          \<exists>p. walk l w = Some p \<and> selects better {x. 0 < qty l x \<and> better w x} p"
    and get_law: "inv l \<Longrightarrow> 0 < qty l p \<Longrightarrow> get l p = Some (qty l p)"
begin

lemma rebuildLoop_law:
  assumes "inv l"
  shows "p = 0 \<Longrightarrow> rebuildLoop (walk l) (get l) k p = Some []"
    "0 < qty l p \<Longrightarrow> \<exists>ps. rebuildLoop (walk l) (get l) k p = Some (view_of (qty l) ps) \<and> length ps \<le> k \<and>
       best_prices better (\<lambda>x. if x = p \<or> better p x then qty l x else 0) ps \<and>
       (length ps < k \<longrightarrow> (\<forall>x. 0 < qty l x \<and> (x = p \<or> better p x) \<longrightarrow> x \<in> set ps))"
proof (induction k arbitrary: p)
  case (Suc k)
  {
    case 1
    then show ?case by simp
  next
    case 2
    have p: "0 < p" "get l p = Some (qty l p)" by (rule active_pos [OF assms 2], rule get_law [OF assms 2])
    from walk_law [OF assms 2]
    obtain p' where p': "walk l p = Some p'" "selects better {x. 0 < qty l x \<and> better p x} p'"
      by (elim exE conjE) (rule that)
    show ?case
    proof (cases "p' = 0")
      case True
      then have "\<not> (0 < qty l x \<and> better p x)" for x
        using p'(2) active_pos [OF assms] by (auto simp: selects_def)
      with True p p'(1) Suc.IH(1) [of p'] 2 show ?thesis
        by (intro exI [of _ "[p]"]) (auto simp: best_prices_def better_irrefl)
    next
      case False
      then have sel: "0 < qty l p'" "better p p'" "\<And>x. 0 < qty l x \<Longrightarrow> better p x \<Longrightarrow> x = p' \<or> better p' x"
        using p'(2) by (auto simp: selects_def)
      obtain ps where ps: "rebuildLoop (walk l) (get l) k p' = Some (view_of (qty l) ps)" "length ps \<le> k"
        "best_prices better (\<lambda>x. if x = p' \<or> better p' x then qty l x else 0) ps"
        "length ps < k \<longrightarrow> (\<forall>x. 0 < qty l x \<and> (x = p' \<or> better p' x) \<longrightarrow> x \<in> set ps)"
        using Suc.IH(2) [OF sel(1)] by blast
      from prefix_cons [OF 2 sel(2,3) ps(3)]
      have "best_prices better (\<lambda>x. if x = p \<or> better p x then qty l x else 0) (p # ps)" .
      with p p'(1) ps sel(3) show ?thesis by (intro exI [of _ "p # ps"]) auto
    qed
  }
qed (auto simp: best_prices_def)

lemma rebuild_view:
  assumes "inv l"
  shows "\<exists>view. rebuildSide (best l) (walk l) (get l) n = Some view \<and> top_view better n (qty l) view"
proof -
  obtain p where p: "best l = Some p" "selects better {x. 0 < qty l x} p" using best_law [OF assms] by blast
  show ?thesis
  proof (cases "0 < qty l p")
    case True
    then have all: "x = p \<or> better p x" if "0 < qty l x" for x
      using p(2) that by (auto simp: selects_def)
    have eq: "(\<lambda>x. if x = p \<or> better p x then qty l x else 0) = qty l"
      using all qty_nonneg [OF assms] by (intro ext) (auto simp: less_le)
    obtain ps where ps: "rebuildLoop (walk l) (get l) n p = Some (view_of (qty l) ps)" "length ps \<le> n"
      "best_prices better (qty l) ps" "length ps < n \<longrightarrow> (\<forall>x. 0 < qty l x \<longrightarrow> x \<in> set ps)"
      using rebuildLoop_law(2) [OF assms True, of n] all unfolding eq by blast
    then have "top_view better n (qty l) (view_of (qty l) ps)" unfolding top_view_iff by blast
    with ps(1) show ?thesis by (simp add: rebuildSide_def p(1))
  next
    case False
    then have "p = 0" "\<forall>x. \<not> 0 < qty l x" using p(2) by (auto simp: selects_def)
    with rebuildLoop_law(1) [OF assms] p(1) show ?thesis by (auto simp: rebuildSide_def top_view_def)
  qed
qed

text \<open>The best price worse than a whole view, found from its last entry.\<close>

lemma walk_view:
  assumes "inv l" "best_prices better (qty l) es"
  obtains r where "(if es \<noteq> [] then walk l (last es) else best l) = Some r"
    "selects better {x. 0 < qty l x \<and> (\<forall>w \<in> set es. better w x)} r"
proof (cases "es = []")
  case True
  with best_law [OF assms(1)] that show thesis by auto
next
  case False
  note D = best_pricesD [OF assms(2)]
  have "(\<forall>w \<in> set es. better w x) \<longleftrightarrow> better (last es) x" for x
    using False sorted_last [OF D(1)] better_trans last_in_set by metis
  with walk_law [OF assms(1) D(2), of "last es"] False that show thesis by auto
qed

text \<open>Removal of a viewed level, with the replacement from below the view.\<close>

lemma erase_law:
  assumes l: "inv l" and es: "best_prices better (qty l) es" and n: "length es < n"
    and full: "Suc (length es) < n \<longrightarrow> (\<forall>x. 0 < qty l x \<longrightarrow> x \<in> set es)"
  obtains (none) "eraseLevel (best l) (walk l) (get l) n (Suc (length es) = n) (view_of (qty l) es)
        = Some (view_of (qty l) es, no_change)" "\<forall>x. 0 < qty l x \<longrightarrow> x \<in> set es"
  | (next_level) r where "eraseLevel (best l) (walk l) (get l) n (Suc (length es) = n) (view_of (qty l) es)
        = Some (view_of (qty l) (es @ [r]), no_change\<lparr>replacementPrice := r, replacementQty := qty l r\<rparr>)"
      "0 < qty l r" "r \<notin> set es" "Suc (length es) = n" "best_prices better (qty l) (es @ [r])"
proof -
  obtain r where r: "(if es \<noteq> [] then walk l (last es) else best l) = Some r"
    "selects better {x. 0 < qty l x \<and> (\<forall>w \<in> set es. better w x)} r"
    by (rule walk_view [OF l es])
  have run: "(if view_of (qty l) es \<noteq> [] then walk l (fst (last (view_of (qty l) es))) else best l) = Some r"
    using r(1) by (cases "es = []") simp_all
  show thesis
  proof (cases "r = 0")
    case True
    then have "\<forall>x. 0 < qty l x \<longrightarrow> x \<in> set es"
      using r(2) active_pos [OF l] best_pricesD(3) [OF es] by (fastforce simp: selects_def)
    moreover have "eraseLevel (best l) (walk l) (get l) n (Suc (length es) = n) (view_of (qty l) es)
        = Some (view_of (qty l) es, no_change)"
      using n True unfolding eraseLevel_def run by simp
    ultimately show thesis by (rule none [rotated])
  next
    case False
    then have act: "0 < qty l r" "\<forall>w \<in> set es. better w r" using r(2) by (auto simp: selects_def)
    have new: "r \<notin> set es" using act(2) better_irrefl by blast
    then have len: "Suc (length es) = n" using act(1) full n by (metis Suc_lessI)
    have get: "get l r = Some (qty l r)" "0 < r"
      using get_law [OF l act(1)] active_pos [OF l act(1)] .
    have "eraseLevel (best l) (walk l) (get l) n (Suc (length es) = n) (view_of (qty l) es)
        = Some (view_of (qty l) (es @ [r]), no_change\<lparr>replacementPrice := r, replacementQty := qty l r\<rparr>)"
      using get len unfolding eraseLevel_def run by simp
    then show thesis using next_level act(1) new len prefix_snoc [OF es False r(2)] by blast
  qed
qed

text \<open>A level outside the view gets a quantity; it may evict the worst viewed level.\<close>

lemma insert_law:
  assumes ps: "best_prices better m (front @ rest)" and n: "length (front @ rest) \<le> n" "0 < n" "0 < q"
    and full: "length (front @ rest) < n \<longrightarrow> (\<forall>x. 0 < m x \<longrightarrow> x \<in> set (front @ rest))"
    and p: "p \<notin> set (front @ rest)" "\<forall>w \<in> set front. better w p" "\<forall>w \<in> set rest. better p w"
  shows "\<exists>ps' c. insertLevel better n (view_of m (front @ rest)) (view_of m front) (view_of m rest) p q
      = (view_of (m(p := q)) ps', c) \<and> best_prices better (m(p := q)) ps' \<and> length ps' \<le> n \<and>
      (length ps' < n \<longrightarrow> (\<forall>x. 0 < (m(p := q)) x \<longrightarrow> x \<in> set ps')) \<and>
      view_step m (m(p := q)) p (set (front @ rest)) (set ps') c"
proof -
  let ?m = "m(p := q)" and ?ps = "front @ rest" and ?ins = "front @ p # rest"
  define beat where "beat \<longleftrightarrow> ?ps \<noteq> [] \<and> better p (last ?ps)"
  have beat: "view_of m ?ps \<noteq> [] \<and> better p (fst (last (view_of m ?ps))) \<longleftrightarrow> beat"
    using view_of_simps(8) [of ?ps m] by (cases "?ps = []") (simp_all only: view_of_simps(7) beat_def fst_conv simp_thms)
  have ins: "view_of m front @ (p, q) # view_of m rest = view_of ?m ?ins" using p(1) by simp
  note run = insertLevel_def [of better n "view_of m ?ps" "view_of m front" "view_of m rest" p q,
      unfolded Let_def beat ins view_of_simps(6)]
  have best: "best_prices better ?m ?ins" if "length ?ps < n \<or> beat"
  proof (rule prefix_insert [OF ps p(1) n(3) p(2,3)])
    fix x assume x: "0 < m x" "x \<notin> set ?ps"
    then have "beat" using that full by blast
    then have last: "last ?ps \<in> set ?ps" "better p (last ?ps)" using last_in_set by (simp_all only: beat_def) blast
    show "better p x" by (rule better_trans [OF last(2) best_pricesD(3) [OF ps x last(1)]])
  qed
  consider (room) "length ?ps < n" | (evict) "length ?ps = n" "beat" | (out) "length ?ps = n" "\<not> beat"
    using n(1) by linarith
  then show ?thesis
  proof cases
    case room
    then have "insertLevel better n (view_of m ?ps) (view_of m front) (view_of m rest) p q
        = (view_of ?m ?ins, no_change)" unfolding run by simp
    with room best full p(1) show ?thesis
      by (intro exI [of _ ?ins] exI [of _ no_change]) (auto simp: view_step_def)
  next
    case evict
    have "rest \<noteq> []" using evict(2) p(2) better_asym by (metis append_Nil2 beat_def last_in_set)
    then obtain rest' e where rest: "rest = rest' @ [e]" by (metis rev_exhaust)
    have split: "?ins = (front @ p # rest') @ [e]" by (simp add: rest)
    have e: "e \<noteq> p" "e \<notin> set (front @ rest')"
      using p(1) sorted_distinct [OF best_pricesD(1) [OF ps]] by (auto simp: rest)
    let ?c = "no_change\<lparr>evictedPrice := e, evictedQty := m e\<rparr>"
    have "insertLevel better n (view_of m ?ps) (view_of m front) (view_of m rest) p q
        = (view_of ?m (front @ p # rest'), ?c)"
      using evict e(1) unfolding run split view_of_simps(3) [of _ "front @ p # rest'"] by (simp add: rest butlast_append)
    moreover have "best_prices better ?m (front @ p # rest')"
      using best [OF disjI2 [OF evict(2)]] unfolding split by (rule prefix_butlast)
    moreover have "view_step m ?m p (set ?ps) (set (front @ p # rest')) ?c"
      using e p(1) by (auto simp: view_step_def rest)
    moreover have "length (front @ p # rest') = n" using evict(1) by (simp add: rest)
    ultimately show ?thesis by (intro exI [of _ "front @ p # rest'"] exI [of _ ?c]) simp
  next
    case out
    then have "insertLevel better n (view_of m ?ps) (view_of m front) (view_of m rest) p q
        = (view_of ?m ?ps, no_change)" using p(1) unfolding run by simp
    moreover have ne: "?ps \<noteq> []" using out(1) n(2) by auto
    then have "better (last ?ps) p" using out(2) p(1) better_total unfolding beat_def by (metis last_in_set)
    then have "\<forall>w \<in> set ?ps. better w p"
      using sorted_last [OF best_pricesD(1) [OF ps]] better_trans by metis
    then have "best_prices better ?m ?ps" using prefix_other [OF ps p(1)] by blast
    ultimately show ?thesis using out(1)
      by (intro exI [of _ ?ps] exI [of _ no_change]) (auto simp: view_step_def)
  qed
qed

text \<open>
  One change of the map, applied to the view: the view stays that of the best levels, and
  the reported eviction or replacement is the change of the viewed prices.
\<close>

lemma updateSideView_law:
  assumes l: "inv l" and m: "qty l = m(p := q)" and q: "0 \<le> q" and n: "0 < n"
    and V: "top_view better n m V"
  shows "\<exists>V' c. updateSideView better (best l) (walk l) (get l) n V p q = Some (V', c) \<and>
    top_view better n (qty l) V' \<and> view_step m (qty l) p (fst ` set V) (fst ` set V') c"
proof -
  obtain ps where Vps: "V = view_of m ps" and ps: "best_prices better m ps" "length ps \<le> n"
    "length ps < n \<longrightarrow> (\<forall>x. 0 < m x \<longrightarrow> x \<in> set ps)"
    using V unfolding top_view_iff by blast
  obtain front rest where split: "ps = front @ rest"
    "lower_bound better (view_of m ps) p = (view_of m front, view_of m rest)"
    "\<forall>w \<in> set front. better w p" "rest \<noteq> [] \<and> hd rest = p \<longleftrightarrow> p \<in> set ps"
    "p \<notin> set ps \<longrightarrow> (\<forall>w \<in> set rest. better p w)"
    by (rule split_view [OF best_pricesD(1) [OF ps(1)], of m p])
  have inView: "view_of m rest \<noteq> [] \<and> fst (hd (view_of m rest)) = p \<longleftrightarrow> p \<in> set ps"
    unfolding split(4) [symmetric] by (cases rest) simp_all
  note run = updateSideView_def [of better "best l" "walk l" "get l" n V p q,
      unfolded Vps split(2) Let_def prod.case inView]
  have top: "top_view better n (qty l) (view_of (qty l) ps')"
    if "best_prices better (qty l) ps'" "length ps' \<le> n"
      "length ps' < n \<longrightarrow> (\<forall>x. 0 < qty l x \<longrightarrow> x \<in> set ps')" for ps'
    using that unfolding top_view_iff by blast
  have result: ?thesis
    if "updateSideView better (best l) (walk l) (get l) n V p q = Some (view_of (qty l) es, c)"
      "view_step m (qty l) p (set ps) (set es) c" "top_view better n (qty l) (view_of (qty l) es)" for es c
    using that unfolding Vps by (intro exI conjI) (assumption, assumption, simp only: view_of_simps(5))
  consider (modify) "p \<in> set ps" "0 < q" | (erase) "p \<in> set ps" "q = 0"
    | (insert) "p \<notin> set ps" "0 < q" | (absent) "p \<notin> set ps" "q = 0"
    using q by linarith
  then show ?thesis
  proof cases
    case modify
    then obtain rest' where rest: "rest = p # rest'" using split(4) by (cases rest) auto
    have new: "p \<notin> set front" "p \<notin> set rest'"
      using sorted_distinct [OF best_pricesD(1) [OF ps(1)]] by (auto simp: split(1) rest)
    have "updateSideView better (best l) (walk l) (get l) n V p q = Some (view_of (qty l) ps, no_change)"
      using modify new unfolding run Vps by (simp add: m rest split(1))
    moreover have "top_view better n (qty l) (view_of (qty l) ps)"
      using prefix_modify [OF ps(1) modify] ps(2,3) modify(1) by (intro top) (auto simp: m)
    ultimately show ?thesis by (intro result) (auto simp: view_step_def)
  next
    case erase
    then obtain rest' where rest: "rest = p # rest'" using split(4) by (cases rest) auto
    let ?es = "front @ rest'"
    have new: "p \<notin> set ?es"
      using sorted_distinct [OF best_pricesD(1) [OF ps(1)]] by (auto simp: split(1) rest)
    have len: "length ps = Suc (length ?es)" by (simp add: split(1) rest)
    have es: "best_prices better (qty l) ?es"
      using prefix_erase [of m front p rest'] ps(1) by (simp add: split(1) rest m erase(2))
    have go: "updateSideView better (best l) (walk l) (get l) n V p q
        = eraseLevel (best l) (walk l) (get l) n (Suc (length ?es) = n) (view_of (qty l) ?es)"
      using erase new unfolding run Vps by (simp add: m rest len view_of_upd)
    have n': "length ?es < n" "Suc (length ?es) < n \<longrightarrow> (\<forall>x. 0 < qty l x \<longrightarrow> x \<in> set ?es)"
      using ps(2,3) len by (auto simp: m erase(2) split(1) rest)
    show ?thesis
    proof (rule erase_law [OF l es n'])
      assume r: "eraseLevel (best l) (walk l) (get l) n (Suc (length ?es) = n) (view_of (qty l) ?es)
        = Some (view_of (qty l) ?es, no_change)" "\<forall>x. 0 < qty l x \<longrightarrow> x \<in> set ?es"
      have "view_step m (qty l) p (set ps) (set ?es) no_change"
        unfolding view_step_def using new by (auto simp: split(1) rest)
      moreover have "top_view better n (qty l) (view_of (qty l) ?es)"
        by (rule top [OF es]) (use n'(1) r(2) in simp_all)
      ultimately show ?thesis by (rule result [OF trans [OF go r(1)]])
    next
      fix r let ?c = "no_change\<lparr>replacementPrice := r, replacementQty := qty l r\<rparr>"
      assume r: "eraseLevel (best l) (walk l) (get l) n (Suc (length ?es) = n) (view_of (qty l) ?es)
        = Some (view_of (qty l) (?es @ [r]), ?c)" "0 < qty l r" "r \<notin> set ?es"
        "Suc (length ?es) = n" "best_prices better (qty l) (?es @ [r])"
      have "r \<noteq> p" using r(2) by (auto simp: m erase(2))
      then have "view_step m (qty l) p (set ps) (set (?es @ [r])) ?c"
        unfolding view_step_def using new r(2,3) by (auto simp: split(1) rest)
      moreover have "top_view better n (qty l) (view_of (qty l) (?es @ [r]))"
        by (rule top [OF r(5)]) (use r(4) in simp_all)
      ultimately show ?thesis by (rule result [OF trans [OF go r(1)]])
    qed
  next
    case insert
    from insert_law [OF ps(1) [unfolded split(1)] ps(2) [unfolded split(1)] n insert(2) ps(3) [unfolded split(1)]
        insert(1) [unfolded split(1)] split(3) split(5) [THEN mp, OF insert(1)]]
    obtain ps' c where i: "insertLevel better n (view_of m ps) (view_of m front) (view_of m rest) p q
        = (view_of (qty l) ps', c)" "best_prices better (qty l) ps'" "length ps' \<le> n"
      "length ps' < n \<longrightarrow> (\<forall>x. 0 < qty l x \<longrightarrow> x \<in> set ps')"
      "view_step m (qty l) p (set ps) (set ps') c"
      unfolding m split(1) by blast
    have "updateSideView better (best l) (walk l) (get l) n V p q = Some (view_of (qty l) ps', c)"
      using insert i(1) unfolding run Vps by simp
    then show ?thesis by (rule result [OF _ i(5) top [OF i(2-4)]])
  next
    case absent
    have "updateSideView better (best l) (walk l) (get l) n V p q = Some (view_of (qty l) ps, no_change)"
      using absent unfolding run Vps by (simp add: m)
    moreover have "best_prices better (qty l) ps" unfolding m
      using absent(2) by (intro prefix_other [OF ps(1) absent(1)]) simp
    then have "top_view better n (qty l) (view_of (qty l) ps)"
      using ps(2,3) absent(2) by (intro top) (auto simp: m split: if_splits)
    ultimately show ?thesis by (intro result) (auto simp: view_step_def)
  qed
qed

end

end
