(* ===== verification/Price_Ladder.thy ===== *)
theory Price_Ladder
  imports Prelude
begin

text \<open>
  \<open>src/price_ladder.hpp\<close> and \<open>src/price_ladder.cpp\<close>: one side of a book as an array
  of quantities indexed by price tick over a movable window. Every operation of the class
  is here. \<open>None\<close> is a signed overflow, an access outside \<open>qtys\<close> or a failed
  \<open>assert\<close>.
\<close>

section \<open>The class\<close>

record ladder =
  tickSize :: int
  halfRange :: int
  slots :: int                 \<comment> \<open>\<open>size\<close> of the source\<close>
  basePrice :: int
  initialized :: bool
  qtys :: "int list"
  count :: nat
  bestHighIdx :: int
  bestLowIdx :: int

definition kDefaultTick :: int where
  "kDefaultTick = 1000000"

definition kDefaultHalfRange :: int where
  "kDefaultHalfRange = 5000"

definition newLadder :: "int \<Rightarrow> int \<Rightarrow> exn + ladder" where
  "newLadder tickSizeArg halfRangeArg =
     (if tickSizeArg \<le> 0
      then Inl (InvalidArgument ''PriceLadder: tickSizeArg must be positive'')
      else if halfRangeArg < 0 \<or> (INT_MAX - 1) div 2 < halfRangeArg
      then Inl (InvalidArgument ''PriceLadder: halfRangeArg out of range'')
      else Inr \<lparr>tickSize = tickSizeArg, halfRange = halfRangeArg, slots = halfRangeArg * 2 + 1,
                basePrice = 0, initialized = False,
                qtys = replicate (nat (halfRangeArg * 2 + 1)) 0, count = 0,
                bestHighIdx = - 1, bestLowIdx = - 1\<rparr>)"

section \<open>Indices and the window\<close>

definition toIdx :: "ladder \<Rightarrow> int \<Rightarrow> int option" where
  "toIdx L price = do { d \<leftarrow> ll (price - basePrice L); Some (to_int32 (d sdiv tickSize L)) }"

definition toPrice :: "ladder \<Rightarrow> int \<Rightarrow> int option" where
  "toPrice L idx = do { m \<leftarrow> ll (idx * tickSize L); ll (basePrice L + m) }"

definition inRange :: "ladder \<Rightarrow> int \<Rightarrow> bool option" where
  "inRange L price =
     (if \<not> initialized L then Some False
      else do {
        offset \<leftarrow> ll (price - basePrice L);
        Some (if offset < 0 then False else offset sdiv tickSize L < slots L)
      })"

definition windowLow :: "ladder \<Rightarrow> int" where
  "windowLow L = (if initialized L then basePrice L else 0)"

definition windowHigh :: "ladder \<Rightarrow> int option" where
  "windowHigh L =
     (if initialized L then do { m \<leftarrow> ll ((slots L - 1) * tickSize L); ll (basePrice L + m) }
      else Some 0)"

definition centerBase :: "ladder \<Rightarrow> int \<Rightarrow> int option" where
  "centerBase L price = do {
     rounded \<leftarrow> ll ((price sdiv tickSize L) * tickSize L);
     w \<leftarrow> ll (halfRange L * tickSize L);
     ll (rounded - w)
   }"

definition initCenter :: "ladder \<Rightarrow> int \<Rightarrow> ladder option" where
  "initCenter L price = do {
     base \<leftarrow> centerBase L price;
     Some (L\<lparr>basePrice := base, initialized := True\<rparr>)
   }"

section \<open>Scans over the array\<close>

text \<open>
  The loops over \<open>qtys\<close>: downwards from index \<open>n - 1\<close> (\<open>-1\<close> when nothing is found)
  and upwards from \<open>i\<close> (the length when nothing is found), to the first entry that
  satisfies the condition on which the source's loop stops.
\<close>

fun scanDown :: "(int \<Rightarrow> bool) \<Rightarrow> int list \<Rightarrow> nat \<Rightarrow> int" where
  "scanDown P qs 0 = - 1"
| "scanDown P qs (Suc i) = (if P (qs ! i) then int i else scanDown P qs i)"

function scanUp :: "(int \<Rightarrow> bool) \<Rightarrow> int list \<Rightarrow> nat \<Rightarrow> nat" where
  "scanUp P qs i = (if i < length qs \<and> \<not> P (qs ! i) then scanUp P qs (Suc i) else i)"
  by pat_completeness auto
termination
  by (relation "measure (\<lambda>(P, qs, i). length qs - i)") auto

declare scanUp.simps [simp del]

text \<open>The loop of \<open>rebuildBestIndices\<close>: count, highest index, lowest index.\<close>

fun rebuildScan :: "int list \<Rightarrow> int \<Rightarrow> nat \<times> int \<times> int \<Rightarrow> nat \<times> int \<times> int" where
  "rebuildScan [] i (c, hi, lo) = (c, hi, lo)"
| "rebuildScan (q # qs) i (c, hi, lo) =
     (if 0 < q then rebuildScan qs (i + 1) (c + 1, max hi i, if lo < 0 then i else lo)
      else rebuildScan qs (i + 1) (c, hi, lo))"

definition rebuildBestIndices :: "ladder \<Rightarrow> ladder" where
  "rebuildBestIndices L =
     (case rebuildScan (qtys L) 0 (0, - 1, - 1) of
        (c, hi, lo) \<Rightarrow> L\<lparr>count := c, bestHighIdx := hi, bestLowIdx := lo\<rparr>)"

section \<open>Moving the window\<close>

text \<open>\<open>memmove\<close> of the surviving entries and \<open>memset\<close> of the vacated ones.\<close>

definition shiftQtys :: "int list \<Rightarrow> int \<Rightarrow> int \<Rightarrow> int list" where
  "shiftQtys qs sz shiftLL =
     (if 0 < shiftLL \<and> shiftLL < sz
      then drop (nat shiftLL) qs @ replicate (nat shiftLL) 0
      else if shiftLL < 0 \<and> - shiftLL < sz
      then replicate (nat (- shiftLL)) 0 @ take (nat (sz + shiftLL)) qs
      else replicate (nat sz) 0)"

definition recenter :: "ladder \<Rightarrow> int \<Rightarrow> ladder option" where
  "recenter L price = do {
     newBase \<leftarrow> centerBase L price;
     d \<leftarrow> ll (newBase - basePrice L);
     Some (rebuildBestIndices
       (L\<lparr>qtys := shiftQtys (qtys L) (slots L) (d sdiv tickSize L), basePrice := newBase\<rparr>))
   }"

section \<open>Reading and writing levels\<close>

definition storeQty :: "ladder \<Rightarrow> int \<Rightarrow> int \<Rightarrow> ladder option" where
  "storeQty L idx qty = do {
     old \<leftarrow> arr_get (qtys L) idx;
     let qs = (qtys L)[nat idx := qty];
     let c = (if old = 0 \<and> 0 < qty then count L + 1
              else if 0 < old \<and> qty = 0 then size_dec (count L)
              else count L);
     let hi = (if 0 < qty \<and> bestHighIdx L < idx then idx
               else if qty = 0 \<and> idx = bestHighIdx L
               then scanDown (\<lambda>q. q \<noteq> 0) qs (nat (idx + 1))
               else bestHighIdx L);
     let lo = (if 0 < qty \<and> (bestLowIdx L < 0 \<or> idx < bestLowIdx L) then idx
               else if qty = 0 \<and> idx = bestLowIdx L
               then (let i = scanUp (\<lambda>q. q \<noteq> 0) qs (nat (idx + 1))
                     in if slots L \<le> int i then - 1 else int i)
               else bestLowIdx L);
     Some (L\<lparr>qtys := qs, count := c, bestHighIdx := hi, bestLowIdx := lo\<rparr>)
   }"

text \<open>\<open>set\<close>: the level and whether the window was moved.\<close>

definition ladder_set :: "ladder \<Rightarrow> int \<Rightarrow> int \<Rightarrow> (ladder \<times> bool) option" where
  "ladder_set L price qty =
     (if qty < 0 then None      \<comment> \<open>the \<open>assert\<close> on \<open>qty\<close>\<close>
      else do {
        (L1, recentered) \<leftarrow>
          (if \<not> initialized L then do { L' \<leftarrow> initCenter L price; Some (L', False) }
           else do {
             r \<leftarrow> inRange L price;
             if \<not> r then do { L' \<leftarrow> recenter L price; Some (L', True) }
             else Some (L, False)
           });
        idx \<leftarrow> toIdx L1 price;
        L2 \<leftarrow> storeQty L1 idx qty;
        Some (L2, recentered)
      })"

definition ladder_get :: "ladder \<Rightarrow> int \<Rightarrow> int option" where
  "ladder_get L price = do {
     r \<leftarrow> inRange L price;
     if \<not> r then Some 0 else do { idx \<leftarrow> toIdx L price; arr_get (qtys L) idx }
   }"

definition ladder_clear :: "ladder \<Rightarrow> ladder" where
  "ladder_clear L =
     L\<lparr>qtys := (if initialized L then replicate (nat (slots L)) 0 else qtys L),
       count := 0, bestHighIdx := - 1, bestLowIdx := - 1, initialized := False\<rparr>"

definition activeCount :: "ladder \<Rightarrow> nat" where
  "activeCount L = count L"

section \<open>Walking the active levels\<close>

definition bestHigh :: "ladder \<Rightarrow> int option" where
  "bestHigh L = (if bestHighIdx L < 0 then Some 0 else toPrice L (bestHighIdx L))"

definition bestLow :: "ladder \<Rightarrow> int option" where
  "bestLow L = (if bestLowIdx L < 0 then Some 0 else toPrice L (bestLowIdx L))"

definition prevBelow :: "ladder \<Rightarrow> int \<Rightarrow> int option" where
  "prevBelow L below =
     (if \<not> initialized L \<or> bestHighIdx L < 0 then Some 0
      else do {
        offset \<leftarrow> ll (below - basePrice L);
        if offset \<le> 0 then Some 0
        else (let rawIdx = (offset - 1) sdiv tickSize L;
                  startIdx = (if slots L \<le> rawIdx then slots L - 1 else to_int32 rawIdx);
                  i = scanDown (\<lambda>q. 0 < q) (qtys L) (nat (startIdx + 1))
              in if 0 \<le> i then toPrice L i else Some 0)
      })"

definition nextAbove :: "ladder \<Rightarrow> int \<Rightarrow> int option" where
  "nextAbove L abv =
     (if \<not> initialized L \<or> bestLowIdx L < 0 then Some 0
      else do {
        offset \<leftarrow> ll (abv - basePrice L);
        startIdx \<leftarrow> (if offset < 0 then Some (Some 0)
                     else do {
                       rawIdx \<leftarrow> ll (offset sdiv tickSize L + 1);
                       Some (if slots L \<le> rawIdx then None else Some (to_int32 rawIdx))
                     });
        (case startIdx of
           None \<Rightarrow> Some 0
         | Some s \<Rightarrow>
             (let i = scanUp (\<lambda>q. 0 < q) (qtys L) (nat s)
              in if i < length (qtys L) then toPrice L (int i) else Some 0))
      })"

text \<open>\<open>forEach\<close>: the visited levels, in ascending price order.\<close>

fun visit :: "ladder \<Rightarrow> int \<Rightarrow> int list \<Rightarrow> (int \<times> int) list option" where
  "visit L i [] = Some []"
| "visit L i (q # qs) =
     (if 0 < q
      then do { p \<leftarrow> toPrice L i; rest \<leftarrow> visit L (i + 1) qs; Some ((p, q) # rest) }
      else visit L (i + 1) qs)"

definition forEach :: "ladder \<Rightarrow> (int \<times> int) list option" where
  "forEach L = visit L 0 (qtys L)"

end
