(* ===== verification/Ladder_Scan.thy ===== *)
theory Ladder_Scan
  imports Price_Ladder
begin

text \<open>
  The array scans of the price ladder and the fields derived from the array: the loops
  find the extreme active indices, and the incremental maintenance in \<open>set\<close> as well as
  the rebuild loop agree with recomputing the fields from the array.
\<close>

section \<open>The scans\<close>

lemma scanDown_range: "- 1 \<le> scanDown P qs n" "scanDown P qs n < int n"
  by (induction n) auto

lemma scanDown_hit: "0 \<le> scanDown P qs n \<Longrightarrow> P (qs ! nat (scanDown P qs n))"
  by (induction n) (auto split: if_splits)

lemma scanDown_above: "scanDown P qs n < int i \<Longrightarrow> i < n \<Longrightarrow> \<not> P (qs ! i)"
proof (induction n)
  case (Suc n)
  then show ?case by (cases "i = n") (auto split: if_splits)
qed simp

lemma scanDown_none: "scanDown P qs n < 0 \<longleftrightarrow> (\<forall>i < n. \<not> P (qs ! i))"
proof
  assume "scanDown P qs n < 0"
  then show "\<forall>i < n. \<not> P (qs ! i)" using scanDown_above [of P qs n] by (metis less_le_trans of_nat_0_le_iff)
next
  assume "\<forall>i < n. \<not> P (qs ! i)"
  then show "scanDown P qs n < 0"
    using scanDown_hit [of P qs n] scanDown_range [of P qs n]
    by (metis linorder_not_le nat_less_iff)
qed

text \<open>The index found is the only one that qualifies with nothing above it.\<close>

lemma scanDown_unique:
  assumes "i < n" "P (qs ! i)" "\<And>k. i < k \<Longrightarrow> k < n \<Longrightarrow> \<not> P (qs ! k)"
  shows "scanDown P qs n = int i"
  using assms by (induction n) (auto simp: less_Suc_eq)

lemma scanDown_cong:
  "(\<And>i. i < n \<Longrightarrow> P (qs ! i) \<longleftrightarrow> Q (qs' ! i)) \<Longrightarrow> scanDown P qs n = scanDown Q qs' n"
  by (induction n) auto

lemma scanUp_ge: "i \<le> scanUp P qs i"
  by (induction P qs i rule: scanUp.induct) (subst scanUp.simps, auto)

lemma scanUp_hit: "scanUp P qs i < length qs \<Longrightarrow> P (qs ! scanUp P qs i)"
  by (induction P qs i rule: scanUp.induct) (metis scanUp.simps)

lemma scanUp_below: "i \<le> k \<Longrightarrow> k < scanUp P qs i \<Longrightarrow> k < length qs \<Longrightarrow> \<not> P (qs ! k)"
proof (induction P qs i rule: scanUp.induct)
  case (1 P qs i)
  show ?case
  proof (cases "i < length qs \<and> \<not> P (qs ! i)")
    case True
    with 1 show ?thesis
      by (cases "k = i") (auto simp: scanUp.simps [of P qs i])
  next
    case False
    with 1 show ?thesis by (simp add: scanUp.simps [of P qs i])
  qed
qed

lemma scanUp_le: "i \<le> length qs \<Longrightarrow> scanUp P qs i \<le> length qs"
  by (induction P qs i rule: scanUp.induct) (metis Suc_leI le_eq_less_or_eq scanUp.simps)

lemma scanUp_unique:
  assumes "i \<le> k" "k < length qs" "P (qs ! k)" "\<And>j. i \<le> j \<Longrightarrow> j < k \<Longrightarrow> \<not> P (qs ! j)"
  shows "scanUp P qs i = k"
proof -
  have "\<not> scanUp P qs i < k"
    using assms scanUp_ge [of i P qs] scanUp_hit [of P qs i] by (meson less_trans)
  moreover have "\<not> k < scanUp P qs i"
    using assms scanUp_below [of i k P qs] by blast
  ultimately show ?thesis by simp
qed

lemma scanUp_none:
  assumes "i \<le> length qs"
  shows "length qs \<le> scanUp P qs i \<longleftrightarrow> (\<forall>k. i \<le> k \<and> k < length qs \<longrightarrow> \<not> P (qs ! k))"
  using scanUp_below [of i _ P qs] scanUp_hit [of P qs i] scanUp_ge [of i P qs]
  by (meson leI le_less_trans less_le_trans)

lemma scanDown_cut: "m \<le> n \<Longrightarrow> (\<And>k. m \<le> k \<Longrightarrow> k < n \<Longrightarrow> \<not> P (qs ! k)) \<Longrightarrow> scanDown P qs n = scanDown P qs m"
proof (induction n)
  case (Suc n)
  then show ?case by (cases "m = Suc n") (auto simp: le_Suc_eq)
qed simp

lemma scanUp_cut:
  "i \<le> j \<Longrightarrow> j \<le> length qs \<Longrightarrow> (\<And>k. i \<le> k \<Longrightarrow> k < j \<Longrightarrow> \<not> P (qs ! k)) \<Longrightarrow> scanUp P qs i = scanUp P qs j"
proof (induction P qs i rule: scanUp.induct)
  case (1 P qs i)
  show ?case
  proof (cases "i = j")
    case False
    with 1 show ?thesis by (simp add: scanUp.simps [of P qs i])
  qed simp
qed

lemma scanUp_cong:
  assumes "length qs' = length qs" "\<And>k. i \<le> k \<Longrightarrow> k < length qs \<Longrightarrow> P (qs ! k) \<longleftrightarrow> Q (qs' ! k)"
  shows "scanUp P qs i = scanUp Q qs' i"
  using assms
proof (induction P qs i rule: scanUp.induct)
  case (1 P qs i)
  show ?case
  proof (cases "i < length qs")
    case True
    with "1.prems"(2) [of i] have "P (qs ! i) \<longleftrightarrow> Q (qs' ! i)" by simp
    with 1 True show ?thesis by (simp add: scanUp.simps [of P qs i] scanUp.simps [of Q qs' i])
  next
    case False
    with "1.prems"(1) show ?thesis by (simp add: scanUp.simps [of P qs i] scanUp.simps [of Q qs' i])
  qed
qed

section \<open>Recomputing the derived fields\<close>

text \<open>
  The reference for the incrementally maintained fields: the number of active entries and
  the extreme active indices, computed from the array.
\<close>

definition highest :: "int list \<Rightarrow> int" where
  "highest qs = scanDown (\<lambda>q. 0 < q) qs (length qs)"

definition lowest :: "int list \<Rightarrow> int" where
  "lowest qs = (let i = scanUp (\<lambda>q. 0 < q) qs 0 in if i < length qs then int i else - 1)"

definition refresh :: "ladder \<Rightarrow> ladder" where
  "refresh L = L\<lparr>count := length (filter (\<lambda>q. 0 < q) (qtys L)),
                 bestHighIdx := highest (qtys L), bestLowIdx := lowest (qtys L)\<rparr>"

lemma highest_range: "- 1 \<le> highest qs" "highest qs < int (length qs)"
  by (simp_all add: highest_def scanDown_range)

lemma highest_hit: "0 \<le> highest qs \<Longrightarrow> 0 < qs ! nat (highest qs)"
  unfolding highest_def by (rule scanDown_hit)

lemma highest_above: "highest qs < int i \<Longrightarrow> i < length qs \<Longrightarrow> \<not> 0 < qs ! i"
  unfolding highest_def by (rule scanDown_above)

lemma highest_eqI:
  "i < length qs \<Longrightarrow> 0 < qs ! i \<Longrightarrow> (\<And>k. i < k \<Longrightarrow> k < length qs \<Longrightarrow> \<not> 0 < qs ! k) \<Longrightarrow> highest qs = int i"
  unfolding highest_def by (rule scanDown_unique)

lemma highest_none: "highest qs < 0 \<longleftrightarrow> (\<forall>i < length qs. \<not> 0 < qs ! i)"
  by (simp add: highest_def scanDown_none)

lemma lowest_range: "- 1 \<le> lowest qs" "lowest qs < int (length qs)"
  by (simp_all add: lowest_def Let_def)

lemma lowest_hit: "0 \<le> lowest qs \<Longrightarrow> 0 < qs ! nat (lowest qs)"
  using scanUp_hit [of "\<lambda>q. 0 < q" qs 0] by (simp add: lowest_def Let_def split: if_splits)

lemma lowest_none: "lowest qs < 0 \<longleftrightarrow> (\<forall>i < length qs. \<not> 0 < qs ! i)"
  using scanUp_none [of 0 qs "\<lambda>q. 0 < q"] by (auto simp: lowest_def Let_def not_less)

lemma lowest_below: "int i < lowest qs \<Longrightarrow> \<not> 0 < qs ! i"
  using scanUp_below [of 0 i "\<lambda>q. 0 < q" qs] by (auto simp: lowest_def Let_def split: if_splits)

lemma lowest_eqI:
  "i < length qs \<Longrightarrow> 0 < qs ! i \<Longrightarrow> (\<And>k. k < i \<Longrightarrow> \<not> 0 < qs ! k) \<Longrightarrow> lowest qs = int i"
  using scanUp_unique [of 0 i qs "\<lambda>q. 0 < q"] by (simp add: lowest_def)

lemma highest_Cons:
  "highest (q # qs) = (if highest qs < 0 then (if 0 < q then 0 else - 1) else highest qs + 1)"
proof (cases "highest qs < 0")
  case True
  then have none: "\<forall>i < length qs. \<not> 0 < qs ! i" by (simp add: highest_none)
  show ?thesis
  proof (cases "0 < q")
    case True
    then have "highest (q # qs) = int 0"
      using none by (intro highest_eqI) (auto simp: nth_Cons')
    with True \<open>highest qs < 0\<close> show ?thesis by simp
  next
    case False
    then have "highest (q # qs) < 0" using none by (auto simp: highest_none nth_Cons')
    with False highest_range(1) [of "q # qs"] \<open>highest qs < 0\<close> show ?thesis by simp
  qed
next
  case False
  then have "highest (q # qs) = int (Suc (nat (highest qs)))"
    using highest_hit [of qs] highest_range(2) [of qs]
    by (intro highest_eqI) (auto simp: nth_Cons' highest_above)
  with False show ?thesis by simp
qed

lemma lowest_Cons:
  "lowest (q # qs) = (if 0 < q then 0 else if lowest qs < 0 then - 1 else lowest qs + 1)"
proof (cases "0 < q")
  case True
  then have "lowest (q # qs) = int 0" by (intro lowest_eqI) auto
  with True show ?thesis by simp
next
  case q: False
  show ?thesis
  proof (cases "lowest qs < 0")
    case True
    then have "lowest (q # qs) < 0" using q by (auto simp: lowest_none nth_Cons')
    with True q lowest_range(1) [of "q # qs"] show ?thesis by simp
  next
    case False
    then have "lowest (q # qs) = int (Suc (nat (lowest qs)))"
      using q lowest_hit [of qs] lowest_range(2) [of qs] lowest_below [of _ qs]
      by (intro lowest_eqI) (auto simp: nth_Cons' split: if_splits)
    with False q show ?thesis by simp
  qed
qed

text \<open>The rebuild loop computes the reference.\<close>

lemma rebuildScan_gen:
  assumes "0 \<le> i" "hi < i" "lo < i"
  shows "rebuildScan qs i (c, hi, lo) =
    (c + length (filter (\<lambda>q. 0 < q) qs),
     (if highest qs < 0 then hi else i + highest qs),
     (if lo < 0 then (if lowest qs < 0 then lo else i + lowest qs) else lo))"
  using assms
proof (induction qs arbitrary: i c hi lo)
  case Nil
  then show ?case by (simp add: highest_def lowest_def scanUp.simps)
next
  case (Cons q qs)
  then show ?case
    using highest_range(1) [of qs] lowest_range(1) [of qs]
    by (simp add: Cons.IH highest_Cons lowest_Cons)
qed

lemma rebuildBestIndices_refresh: "rebuildBestIndices L = refresh L"
  using highest_range(1) [of "qtys L"] lowest_range(1) [of "qtys L"]
  by (simp add: rebuildBestIndices_def refresh_def rebuildScan_gen)

text \<open>The incremental maintenance of \<open>set\<close> computes the reference too.\<close>

lemma highest_update:
  assumes "i < length qs" "\<forall>q \<in> set qs. 0 \<le> q" "0 \<le> q"
  shows "(if 0 < q \<and> highest qs < int i then int i
          else if q = 0 \<and> int i = highest qs
          then scanDown (\<lambda>q. q \<noteq> 0) (qs[i := q]) (nat (int i + 1))
          else highest qs) = highest (qs[i := q])"
proof -
  let ?qs = "qs[i := q]"
  have nn: "k < length qs \<Longrightarrow> 0 \<le> ?qs ! k" for k
    using assms by (auto simp: nth_list_update)
  consider "0 < q" "highest qs < int i" | "0 < q" "int i \<le> highest qs"
    | "q = 0" "int i = highest qs" | "q = 0" "int i \<noteq> highest qs" using assms(3) by linarith
  then show ?thesis
  proof cases
    case 1
    then have "highest ?qs = int i" using assms(1)
      by (intro highest_eqI) (auto simp: highest_above)
    with 1 show ?thesis by simp
  next
    case 2
    then have "highest ?qs = int (nat (highest qs))"
      using assms(1) highest_hit [of qs] highest_range(2) [of qs]
      by (intro highest_eqI) (auto simp: nth_list_update highest_above)
    with 2 show ?thesis by simp
  next
    case 3
    have above: "\<not> 0 < ?qs ! k" if "i + 1 \<le> k" "k < length ?qs" for k
      using that 3 highest_above [of qs k] by (simp add: nth_list_update)
    have "highest ?qs = scanDown (\<lambda>q. 0 < q) ?qs (i + 1)"
      unfolding highest_def using assms(1) above by (intro scanDown_cut) auto
    also have "\<dots> = scanDown (\<lambda>q. q \<noteq> 0) ?qs (i + 1)"
    proof (rule scanDown_cong)
      fix k assume "k < i + 1"
      with nn [of k] assms(1) show "0 < ?qs ! k \<longleftrightarrow> ?qs ! k \<noteq> 0" by auto
    qed
    finally show ?thesis using 3(1) by (simp add: 3(2) [symmetric] nat_add_distrib)
  next
    case 4
    show ?thesis
    proof (cases "highest qs < 0")
      case True
      then have "highest ?qs < 0" using 4 assms(1) by (auto simp: highest_none nth_list_update)
      with True 4 highest_range(1) [of qs] highest_range(1) [of ?qs] show ?thesis by simp
    next
      case False
      then have "highest ?qs = int (nat (highest qs))"
        using 4 assms(1) highest_hit [of qs] highest_range(2) [of qs]
        by (intro highest_eqI) (auto simp: nth_list_update highest_above)
      with False 4 show ?thesis by simp
    qed
  qed
qed

lemma lowest_update:
  assumes "i < length qs" "\<forall>q \<in> set qs. 0 \<le> q" "0 \<le> q"
  shows "(if 0 < q \<and> (lowest qs < 0 \<or> int i < lowest qs) then int i
          else if q = 0 \<and> int i = lowest qs
          then (let k = scanUp (\<lambda>q. q \<noteq> 0) (qs[i := q]) (nat (int i + 1))
                in if int (length qs) \<le> int k then - 1 else int k)
          else lowest qs) = lowest (qs[i := q])"
proof -
  let ?qs = "qs[i := q]"
  have nn: "k < length qs \<Longrightarrow> 0 \<le> ?qs ! k" for k
    using assms by (auto simp: nth_list_update)
  consider "0 < q" "lowest qs < 0" | "0 < q" "int i < lowest qs" | "0 < q" "0 \<le> lowest qs" "lowest qs \<le> int i"
    | "q = 0" "int i = lowest qs" | "q = 0" "int i \<noteq> lowest qs" using assms(3) by linarith
  then show ?thesis
  proof cases
    case 1
    then have "lowest ?qs = int i" using assms(1)
      by (intro lowest_eqI) (auto simp: lowest_none)
    with 1 show ?thesis by simp
  next
    case 2
    then have "lowest ?qs = int i" using assms(1) lowest_below [of _ qs]
      by (intro lowest_eqI) auto
    with 2 show ?thesis by simp
  next
    case 3
    then have "lowest ?qs = int (nat (lowest qs))"
      using assms(1) lowest_hit [of qs] lowest_range(2) [of qs] lowest_below [of _ qs]
      by (intro lowest_eqI) (auto simp: nth_list_update)
    with 3 show ?thesis by simp
  next
    case 4
    have "scanUp (\<lambda>q. 0 < q) ?qs 0 = scanUp (\<lambda>q. 0 < q) ?qs (i + 1)"
      using 4 assms(1) lowest_below [of _ qs]
      by (intro scanUp_cut) (auto simp: nth_list_update less_Suc_eq)
    also have "\<dots> = scanUp (\<lambda>q. q \<noteq> 0) ?qs (i + 1)"
      using nn by (intro scanUp_cong) (auto simp: order_le_less)
    finally have "lowest ?qs = (let k = scanUp (\<lambda>q. q \<noteq> 0) ?qs (i + 1)
        in if k < length qs then int k else - 1)"
      by (simp add: lowest_def [of ?qs] Let_def)
    then show ?thesis using 4(1) by (simp add: 4(2) [symmetric] nat_add_distrib Let_def not_less)
  next
    case 5
    show ?thesis
    proof (cases "lowest qs < 0")
      case True
      then have "lowest ?qs < 0" using 5 assms(1) by (auto simp: lowest_none nth_list_update)
      with True 5 lowest_range(1) [of qs] lowest_range(1) [of ?qs] show ?thesis by simp
    next
      case False
      then have "lowest ?qs = int (nat (lowest qs))"
        using 5 assms(1) lowest_hit [of qs] lowest_range(2) [of qs] lowest_below [of _ qs]
        by (intro lowest_eqI) (auto simp: nth_list_update)
      with False 5 show ?thesis by simp
    qed
  qed
qed

lemma count_update:
  assumes "i < length qs" "0 \<le> qs ! i" "0 \<le> q"
  shows "(if qs ! i = 0 \<and> 0 < q then length (filter (\<lambda>q. 0 < q) qs) + 1
          else if 0 < qs ! i \<and> q = 0 then size_dec (length (filter (\<lambda>q. 0 < q) qs))
          else length (filter (\<lambda>q. 0 < q) qs)) = length (filter (\<lambda>q. 0 < (q::int)) (qs[i := q]))"
proof -
  have "filter (\<lambda>q. 0 < q) qs =
      filter (\<lambda>q. 0 < q) (take i qs) @ (if 0 < qs ! i then [qs ! i] else []) @ filter (\<lambda>q. 0 < q) (drop (Suc i) qs)"
    using assms(1) by (subst id_take_nth_drop) auto
  then show ?thesis
    using assms by (simp add: upd_conv_take_nth_drop size_dec_def)
qed

end
