(* ===== verification/Ladder_Laws.thy ===== *)
theory Ladder_Laws
  imports Ladder_Scan
begin

text \<open>
  The contract of the price ladder: its invariant, the map from prices to quantities it
  stands for, and for each operation the law by which it acts on that map. All laws
  include that the operation does not fault.
\<close>

section \<open>Invariant\<close>

text \<open>
  The array has \<open>2 * halfRange + 1\<close> non-negative entries, the derived fields are the
  reference values, the base of an initialised window is a tick multiple, and the sizes
  leave room for the arithmetic (with the default parameters the window spans about
  \<open>10^10\<close>). Prices up to \<open>2^60\<close> in magnitude are handled.
\<close>

definition ladder_inv :: "ladder \<Rightarrow> bool" where
  "ladder_inv L \<longleftrightarrow>
     0 < tickSize L \<and> 0 \<le> halfRange L \<and> slots L = halfRange L * 2 + 1 \<and> slots L \<le> INT_MAX \<and>
     slots L * tickSize L \<le> 2 ^ 60 \<and> int (length (qtys L)) = slots L \<and>
     (\<forall>q \<in> set (qtys L). 0 \<le> q \<and> q \<le> LLONG_MAX) \<and> L = refresh L \<and>
     (initialized L \<longrightarrow> tickSize L dvd basePrice L \<and> \<bar>basePrice L\<bar> \<le> 2 ^ 61) \<and>
     (\<not> initialized L \<longrightarrow> (\<forall>q \<in> set (qtys L). q = 0))"

definition price_ok :: "ladder \<Rightarrow> int \<Rightarrow> bool" where
  "price_ok L p \<longleftrightarrow> \<bar>p\<bar> \<le> 2 ^ 60 \<and> (0 \<le> p \<or> 0 < halfRange L)"

text \<open>The window and the slot of a price in it.\<close>

definition in_window :: "ladder \<Rightarrow> int \<Rightarrow> bool" where
  "in_window L p \<longleftrightarrow> initialized L \<and> basePrice L \<le> p \<and> (p - basePrice L) div tickSize L < slots L"

definition slot :: "ladder \<Rightarrow> int \<Rightarrow> nat" where
  "slot L p = nat ((p - basePrice L) div tickSize L)"

definition slot_price :: "ladder \<Rightarrow> nat \<Rightarrow> int" where
  "slot_price L i = basePrice L + int i * tickSize L"

text \<open>The map the ladder stands for: tick multiples to quantities, 0 for no level.\<close>

definition qty_at :: "ladder \<Rightarrow> int \<Rightarrow> int" where
  "qty_at L p = (if in_window L p \<and> tickSize L dvd p then qtys L ! slot L p else 0)"

lemma refresh_simps [simp]:
  "tickSize (refresh L) = tickSize L" "halfRange (refresh L) = halfRange L" "slots (refresh L) = slots L"
  "basePrice (refresh L) = basePrice L" "initialized (refresh L) = initialized L" "qtys (refresh L) = qtys L"
  "count (refresh L) = length (filter (\<lambda>q. 0 < q) (qtys L))"
  "bestHighIdx (refresh L) = highest (qtys L)" "bestLowIdx (refresh L) = lowest (qtys L)"
  by (simp_all add: refresh_def)

lemma refresh_idem [simp]: "refresh (refresh L) = refresh L"
  by (simp add: refresh_def)

lemma eq_refresh_iff:
  "L = refresh L \<longleftrightarrow> count L = length (filter (\<lambda>q. 0 < q) (qtys L)) \<and>
     bestHighIdx L = highest (qtys L) \<and> bestLowIdx L = lowest (qtys L)"
  by (auto simp: refresh_def intro: ladder.equality dest: arg_cong [of L _ count]
      arg_cong [of L _ bestHighIdx] arg_cong [of L _ bestLowIdx])

lemma ladder_inv_derived:
  assumes "ladder_inv L"
  shows "count L = length (filter (\<lambda>q. 0 < q) (qtys L))" "bestHighIdx L = highest (qtys L)"
    "bestLowIdx L = lowest (qtys L)"
  using assms eq_refresh_iff [of L] by (simp_all add: ladder_inv_def)

lemma ladder_inv_basics:
  assumes "ladder_inv L"
  shows "0 < tickSize L" "0 \<le> halfRange L" "slots L = halfRange L * 2 + 1" "slots L \<le> INT_MAX"
    "slots L * tickSize L \<le> 2 ^ 60" "int (length (qtys L)) = slots L" "0 < slots L"
    "q \<in> set (qtys L) \<Longrightarrow> 0 \<le> q" "q \<in> set (qtys L) \<Longrightarrow> q \<le> LLONG_MAX"
  using assms by (auto simp: ladder_inv_def)

lemma ladder_inv_base:
  "ladder_inv L \<Longrightarrow> initialized L \<Longrightarrow> tickSize L dvd basePrice L"
  "ladder_inv L \<Longrightarrow> initialized L \<Longrightarrow> \<bar>basePrice L\<bar> \<le> 2 ^ 61"
  "ladder_inv L \<Longrightarrow> \<not> initialized L \<Longrightarrow> q \<in> set (qtys L) \<Longrightarrow> q = 0"
  by (auto simp: ladder_inv_def)

section \<open>Slots and prices\<close>

lemma slot_window:
  assumes "ladder_inv L" "in_window L p"
  shows "int (slot L p) = (p - basePrice L) div tickSize L" "slot L p < length (qtys L)"
proof -
  from assms show *: "int (slot L p) = (p - basePrice L) div tickSize L"
    by (simp add: in_window_def slot_def ladder_inv_basics pos_imp_zdiv_nonneg_iff)
  from assms have "int (slot L p) < int (length (qtys L))"
    by (simp add: * in_window_def ladder_inv_basics)
  then show "slot L p < length (qtys L)" by simp
qed

lemma slot_price_window:
  assumes "ladder_inv L" "initialized L" "i < length (qtys L)"
  shows "in_window L (slot_price L i)" "slot L (slot_price L i) = i" "tickSize L dvd slot_price L i"
  using assms ladder_inv_basics(1,6) [of L] ladder_inv_base(1) [of L]
  by (simp_all add: in_window_def slot_def slot_price_def)

lemma slot_price_slot:
  assumes "ladder_inv L" "in_window L p" "tickSize L dvd p"
  shows "slot_price L (slot L p) = p"
proof -
  from assms have "tickSize L dvd p - basePrice L"
    by (simp add: in_window_def ladder_inv_base)
  then show ?thesis by (simp add: slot_price_def slot_window [OF assms(1,2)])
qed

lemma slot_price_less [simp]: "0 < tickSize L \<Longrightarrow> slot_price L i < slot_price L j \<longleftrightarrow> i < j"
  by (simp add: slot_price_def)

lemma slot_price_eq [simp]: "0 < tickSize L \<Longrightarrow> slot_price L i = slot_price L j \<longleftrightarrow> i = j"
  by (simp add: slot_price_def)

lemma slot_price_bounds:
  assumes "ladder_inv L" "initialized L" "i < length (qtys L)"
  shows "in_ll (int i * tickSize L)" "in_ll (slot_price L i)"
proof -
  have "int i * tickSize L \<le> slots L * tickSize L"
    using assms ladder_inv_basics(1,6) [of L] by (intro mult_right_mono) auto
  moreover have "0 \<le> int i * tickSize L" using ladder_inv_basics(1) [OF assms(1)] by simp
  ultimately show "in_ll (int i * tickSize L)" "in_ll (slot_price L i)"
    using ladder_inv_basics(5) [OF assms(1)] ladder_inv_base(2) [OF assms(1,2)]
    by (auto simp: in_ll_def int_limits slot_price_def abs_le_iff)
qed

lemma toPrice_law:
  "ladder_inv L \<Longrightarrow> initialized L \<Longrightarrow> i < length (qtys L) \<Longrightarrow> toPrice L (int i) = Some (slot_price L i)"
  using slot_price_bounds [of L i] by (simp add: toPrice_def ll_Some slot_price_def)

lemma offset_in_ll:
  "ladder_inv L \<Longrightarrow> initialized L \<Longrightarrow> \<bar>p\<bar> \<le> 2 ^ 61 \<Longrightarrow> in_ll (p - basePrice L)"
  using ladder_inv_base(2) [of L] by (auto simp: in_ll_def int_limits abs_le_iff)

lemma inRange_law:
  assumes "ladder_inv L" "\<bar>p\<bar> \<le> 2 ^ 60"
  shows "inRange L p = Some (in_window L p)"
proof (cases "initialized L")
  case True
  have "in_ll (p - basePrice L)" using offset_in_ll [of L p] assms True by simp
  with True show ?thesis using ladder_inv_basics(1) [OF assms(1)]
    by (auto simp: inRange_def in_window_def ll_Some sdiv_nonneg)
qed (simp add: inRange_def in_window_def)

lemma toIdx_law:
  assumes "ladder_inv L" "\<bar>p\<bar> \<le> 2 ^ 60" "in_window L p"
  shows "toIdx L p = Some (int (slot L p))"
proof -
  have "in_ll (p - basePrice L)"
    using offset_in_ll [of L p] assms by (simp add: in_window_def)
  moreover have "(p - basePrice L) sdiv tickSize L = int (slot L p)"
    using assms slot_window(1) [OF assms(1,3)]
    by (simp add: sdiv_nonneg ladder_inv_basics in_window_def)
  moreover have "int (slot L p) \<le> INT_MAX"
    using slot_window(2) [OF assms(1,3)] ladder_inv_basics(4,6) [OF assms(1)] by linarith
  ultimately show ?thesis by (simp add: toIdx_def ll_Some to_int32_id)
qed

lemma get_law:
  assumes "ladder_inv L" "\<bar>p\<bar> \<le> 2 ^ 60"
  shows "ladder_get L p = Some (if in_window L p then qtys L ! slot L p else 0)"
  using assms slot_window(2) [of L p]
  by (simp add: ladder_get_def inRange_law toIdx_law arr_get_Some)

lemma get_aligned:
  assumes "ladder_inv L" "\<bar>p\<bar> \<le> 2 ^ 60" "tickSize L dvd p"
  shows "ladder_get L p = Some (qty_at L p)"
  using assms by (simp add: get_law qty_at_def)

section \<open>The represented map\<close>

lemma qty_at_slot_price:
  "ladder_inv L \<Longrightarrow> initialized L \<Longrightarrow> i < length (qtys L) \<Longrightarrow> qty_at L (slot_price L i) = qtys L ! i"
  by (simp add: qty_at_def slot_price_window)

lemma qty_at_nonneg: "ladder_inv L \<Longrightarrow> 0 \<le> qty_at L p"
  using slot_window(2) [of L p] ladder_inv_basics(8) [of L] by (auto simp: qty_at_def)

lemma qty_at_le: "ladder_inv L \<Longrightarrow> qty_at L p \<le> LLONG_MAX"
  using slot_window(2) [of L p] ladder_inv_basics(9) [of L] by (auto simp: qty_at_def int_limits)

lemma qty_at_pos_iff:
  assumes "ladder_inv L"
  shows "0 < qty_at L p \<longleftrightarrow>
    initialized L \<and> (\<exists>i < length (qtys L). p = slot_price L i \<and> 0 < qtys L ! i)"
proof
  assume "0 < qty_at L p"
  then have w: "in_window L p" "tickSize L dvd p" "0 < qtys L ! slot L p"
    by (auto simp: qty_at_def split: if_splits)
  then show "initialized L \<and> (\<exists>i < length (qtys L). p = slot_price L i \<and> 0 < qtys L ! i)"
    using slot_window(2) [OF assms w(1)] slot_price_slot [OF assms w(1,2)]
    by (auto simp: in_window_def)
qed (use assms qty_at_slot_price in auto)

lemma active_initialized:
  "ladder_inv L \<Longrightarrow> i < length (qtys L) \<Longrightarrow> 0 < qtys L ! i \<Longrightarrow> initialized L"
  using ladder_inv_base(3) [of L "qtys L ! i"] by fastforce

lemma activeCount_zero_iff:
  assumes "ladder_inv L"
  shows "activeCount L = 0 \<longleftrightarrow> (\<forall>p. qty_at L p = 0)"
proof -
  have "activeCount L = 0 \<longleftrightarrow> (\<forall>i < length (qtys L). \<not> 0 < qtys L ! i)"
    by (simp add: activeCount_def ladder_inv_derived(1) [OF assms] filter_empty_conv)
      (metis in_set_conv_nth)
  also have "\<dots> \<longleftrightarrow> (\<forall>p. \<not> 0 < qty_at L p)"
    using active_initialized [OF assms] by (auto simp: qty_at_pos_iff [OF assms])
  also have "\<dots> \<longleftrightarrow> (\<forall>p. qty_at L p = 0)"
    using qty_at_nonneg [OF assms] by (metis less_irrefl order_le_less)
  finally show ?thesis .
qed

section \<open>Storing a quantity\<close>

lemma storeQty_refresh:
  assumes "ladder_inv L" "i < length (qtys L)" "0 \<le> q"
  shows "storeQty L (int i) q = Some (refresh (L\<lparr>qtys := (qtys L)[i := q]\<rparr>))"
proof -
  have nn: "\<forall>q \<in> set (qtys L). 0 \<le> q" using ladder_inv_basics(8) [OF assms(1)] by blast
  then have old: "0 \<le> qtys L ! i" using assms(2) by simp
  have get: "arr_get (qtys L) (int i) = Some (qtys L ! i)" using assms(2) by (simp add: arr_get_def)
  show ?thesis
    unfolding storeQty_def
    by (simp only: get Option.bind.bind_lunit Let_def nat_int ladder_inv_derived [OF assms(1)]
        ladder_inv_basics(6) [OF assms(1), symmetric] highest_update [OF assms(2) nn assms(3)]
        lowest_update [OF assms(2) nn assms(3), unfolded Let_def]
        count_update [OF assms(2) old assms(3)] refresh_def) simp
qed

lemma ladder_inv_store:
  assumes "ladder_inv L" "initialized L" "0 \<le> q" "q \<le> LLONG_MAX"
  shows "ladder_inv (refresh (L\<lparr>qtys := (qtys L)[i := q]\<rparr>))"
  using assms set_update_subset_insert [of "qtys L" i q] by (fastforce simp: ladder_inv_def)

section \<open>Moving the window\<close>

text \<open>The tick multiple a price is stored under, and the base of the window centred on it.\<close>

definition tick_floor :: "ladder \<Rightarrow> int \<Rightarrow> int" where
  "tick_floor L p = p - p mod tickSize L"

definition center :: "ladder \<Rightarrow> int \<Rightarrow> int" where
  "center L p = (p sdiv tickSize L) * tickSize L - halfRange L * tickSize L"

lemma tick_floor_aligned [simp]: "tickSize L dvd p \<Longrightarrow> tick_floor L p = p"
  by (simp add: tick_floor_def)

lemma slot_price_floor:
  assumes "ladder_inv L" "in_window L p"
  shows "slot_price L (slot L p) = tick_floor L p"
proof -
  have "(p - basePrice L) mod tickSize L = p mod tickSize L"
    using ladder_inv_base(1) [OF assms(1)] assms(2) by (simp add: in_window_def mod_diff_eq [symmetric])
  then have "(p - basePrice L) div tickSize L * tickSize L = p - basePrice L - p mod tickSize L"
    by (simp add: minus_mod_eq_div_mult [symmetric])
  then show ?thesis by (simp add: slot_price_def slot_window(1) [OF assms] tick_floor_def)
qed

lemma get_floor:
  assumes "ladder_inv L" "\<bar>p\<bar> \<le> 2 ^ 60"
  shows "ladder_get L p = Some (if in_window L p then qty_at L (tick_floor L p) else 0)"
proof (cases "in_window L p")
  case True
  then have "qty_at L (tick_floor L p) = qtys L ! slot L p"
    using qty_at_slot_price [OF assms(1) _ slot_window(2) [OF assms(1)]] slot_price_floor [OF assms(1)]
    by (simp add: in_window_def)
  with True show ?thesis by (simp add: get_law [OF assms])
qed (simp add: get_law [OF assms])

lemma half_bounds:
  assumes "ladder_inv L"
  shows "0 \<le> halfRange L * tickSize L" "halfRange L * tickSize L \<le> 2 ^ 60"
proof -
  show "0 \<le> halfRange L * tickSize L" using ladder_inv_basics(1,2) [OF assms] by simp
  have "halfRange L * tickSize L \<le> slots L * tickSize L"
    using ladder_inv_basics(1,2,3) [OF assms] by (intro mult_right_mono) auto
  then show "halfRange L * tickSize L \<le> 2 ^ 60" using ladder_inv_basics(5) [OF assms] by linarith
qed

lemma center_props:
  assumes "ladder_inv L" "\<bar>p\<bar> \<le> 2 ^ 60"
  shows "centerBase L p = Some (center L p)" "\<bar>center L p\<bar> \<le> 2 ^ 61" "tickSize L dvd center L p"
proof -
  have r: "\<bar>(p sdiv tickSize L) * tickSize L\<bar> \<le> 2 ^ 60"
    using sdiv_mult_le [of "tickSize L" p] ladder_inv_basics(1) [OF assms(1)] assms(2) by linarith
  then show "\<bar>center L p\<bar> \<le> 2 ^ 61"
    using half_bounds [OF assms(1)] unfolding center_def by (simp add: abs_le_iff)
  with r show "centerBase L p = Some (center L p)"
    using half_bounds [OF assms(1)]
    by (auto simp: centerBase_def center_def in_ll_def int_limits abs_le_iff ll_Some)
  show "tickSize L dvd center L p" by (simp add: center_def)
qed

lemma center_window:
  assumes "ladder_inv L" "price_ok L p"
  shows "center L p \<le> p" "(p - center L p) div tickSize L < slots L"
proof -
  let ?t = "tickSize L" and ?r = "p - (p sdiv tickSize L) * tickSize L"
  note basics = ladder_inv_basics [OF assms(1)]
  have close: "\<bar>?r\<bar> < ?t" using sdiv_mult_close [of ?t p] basics(1) by simp
  have eq: "p - center L p = halfRange L * ?t + ?r" by (simp add: center_def)
  have "0 \<le> halfRange L * ?t + ?r"
  proof (cases "0 \<le> p")
    case True
    then show ?thesis using half_bounds(1) [OF assms(1)] sdiv_mult_floor [of ?t p] basics(1) by simp
  next
    case False
    then have "1 * ?t \<le> halfRange L * ?t"
      using assms(2) basics(1) by (intro mult_right_mono) (auto simp: price_ok_def)
    then show ?thesis using close by linarith
  qed
  then show "center L p \<le> p" using eq by linarith
  have "halfRange L * ?t + ?r < slots L * ?t"
    using close half_bounds(1) [OF assms(1)] basics(3) by (simp add: algebra_simps)
  then show "(p - center L p) div ?t < slots L" by (simp only: eq int_div_less_iff [OF basics(1)])
qed

lemma shiftQtys_length:
  "0 < n \<Longrightarrow> int (length qs) = n \<Longrightarrow> int (length (shiftQtys qs n s)) = n"
  by (auto simp: shiftQtys_def)

lemma shiftQtys_nth:
  assumes "int (length qs) = n" "i < length qs" "s \<noteq> 0"
  shows "shiftQtys qs n s ! i = (if 0 \<le> int i + s \<and> int i + s < n then qs ! nat (int i + s) else 0)"
  using assms by (auto simp: shiftQtys_def nth_append intro!: arg_cong [of _ _ "(!) qs"])

lemma shiftQtys_set: "set (shiftQtys qs n s) \<subseteq> insert 0 (set qs)"
  by (auto simp: shiftQtys_def dest: in_set_takeD in_set_dropD)

lemma initCenter_law:
  assumes "ladder_inv L" "\<not> initialized L" "price_ok L p"
  obtains L1 where "initCenter L p = Some L1" "L1 = L\<lparr>basePrice := center L p, initialized := True\<rparr>"
    "ladder_inv L1" "in_window L1 p" "\<And>x. qty_at L1 x = 0"
proof -
  let ?L1 = "L\<lparr>basePrice := center L p, initialized := True\<rparr>"
  have p: "\<bar>p\<bar> \<le> 2 ^ 60" using assms(3) by (simp add: price_ok_def)
  have inv: "ladder_inv ?L1"
    using assms(1) center_props [OF assms(1) p] unfolding ladder_inv_def eq_refresh_iff by auto
  have zero: "qtys L ! i = 0" if "i < length (qtys L)" for i
    using ladder_inv_base(3) [OF assms(1,2)] that by simp
  have "qty_at ?L1 x = 0" for x
    using slot_window(2) [OF inv, of x] zero by (simp add: qty_at_def)
  then show thesis
    using that inv center_window [OF assms(1,3)]
    by (simp add: initCenter_def center_props [OF assms(1) p] in_window_def)
qed

lemma recenter_qty:
  assumes inv: "ladder_inv L" "initialized L" and inv1: "ladder_inv L1" and ne: "nb \<noteq> basePrice L"
    and nb: "tickSize L dvd nb"
    and L1: "L1 = refresh (L\<lparr>qtys := shiftQtys (qtys L) (slots L) ((nb - basePrice L) div tickSize L), basePrice := nb\<rparr>)"
  shows "qty_at L1 x = (if in_window L1 x then qty_at L x else 0)"
proof (cases "in_window L1 x \<and> tickSize L dvd x")
  case True
  let ?t = "tickSize L" and ?b = "basePrice L"
  let ?s = "(nb - ?b) div ?t"
  note basics = ladder_inv_basics [OF inv(1)]
  have b: "?t dvd ?b" using ladder_inv_base(1) inv by blast
  have sw: "int (slot L1 x) = (x - nb) div ?t" "slot L1 x < length (qtys L1)"
    using slot_window [OF inv1, of x] True by (simp_all add: L1)
  have s: "?s \<noteq> 0" using ne nb b by (auto elim!: dvdE)
  have sum: "int (slot L1 x) + ?s = (x - ?b) div ?t"
    using True nb b basics(1) by (auto simp: sw elim!: dvdE simp flip: right_diff_distrib)
  have L1q: "qtys L1 = shiftQtys (qtys L) (slots L) ?s" by (simp add: L1)
  have "int (length (qtys L1)) = int (length (qtys L))"
    using shiftQtys_length [OF basics(7,6)] basics(6) by (simp add: L1)
  with sw(2) have "slot L1 x < length (qtys L)" by simp
  then have "qtys L1 ! slot L1 x =
      (if 0 \<le> (x - ?b) div ?t \<and> (x - ?b) div ?t < slots L then qtys L ! slot L x else 0)"
    using shiftQtys_nth [OF basics(6) _ s, of "slot L1 x"] L1q by (simp add: sum slot_def [of L])
  also have "\<dots> = qty_at L x"
    using True inv(2) basics(1) by (auto simp: qty_at_def in_window_def pos_imp_zdiv_nonneg_iff)
  finally have "qtys L1 ! slot L1 x = qty_at L x" .
  moreover have "tickSize L1 = ?t" by (simp add: L1)
  ultimately show ?thesis using True by (simp add: qty_at_def [of L1])
qed (auto simp: qty_at_def L1)

lemma recenter_law:
  assumes inv: "ladder_inv L" "initialized L" and p: "price_ok L p" "\<not> in_window L p"
  obtains L1 where "recenter L p = Some L1" "ladder_inv L1" "in_window L1 p"
    "basePrice L1 = center L p" "initialized L1" "tickSize L1 = tickSize L" "halfRange L1 = halfRange L"
    "\<And>x. qty_at L1 x = (if in_window L1 x then qty_at L x else 0)"
proof -
  let ?nb = "center L p"
  let ?s = "(?nb - basePrice L) div tickSize L"
  let ?L1 = "refresh (L\<lparr>qtys := shiftQtys (qtys L) (slots L) ?s, basePrice := ?nb\<rparr>)"
  note basics = ladder_inv_basics [OF inv(1)]
  have p60: "\<bar>p\<bar> \<le> 2 ^ 60" using p(1) by (simp add: price_ok_def)
  note cp = center_props [OF inv(1) p60] and cw = center_window [OF inv(1) p(1)]
  have nb: "?nb \<noteq> basePrice L" using cw p(2) inv(2) by (auto simp: in_window_def)
  have inv1: "ladder_inv ?L1"
    using inv cp(2,3) shiftQtys_length [OF basics(7,6)] shiftQtys_set [of "qtys L" "slots L" ?s]
    by (auto simp: ladder_inv_def int_limits)
  have "in_ll (?nb - basePrice L)" using offset_in_ll [OF inv cp(2)] .
  moreover have "tickSize L dvd ?nb - basePrice L" using cp(3) ladder_inv_base(1) [OF inv] by simp
  ultimately have "recenter L p = Some ?L1"
    using basics(1) by (simp add: recenter_def cp(1) ll_Some rebuildBestIndices_refresh sdiv_dvd)
  moreover have "in_window ?L1 p" using cw inv(2) by (simp add: in_window_def)
  ultimately show thesis
    using that inv1 inv(2) recenter_qty [OF inv inv1 nb cp(3) refl] by simp
qed

section \<open>The laws of \<open>set\<close>\<close>

text \<open>Storing into the slot of a price updates the represented map at its tick multiple.\<close>

lemma store_qty:
  assumes "ladder_inv L" "in_window L p" "0 \<le> q" "q \<le> LLONG_MAX"
    and "L' = refresh (L\<lparr>qtys := (qtys L)[slot L p := q]\<rparr>)"
  shows "qty_at L' x = ((qty_at L)(tick_floor L p := q)) x"
proof -
  have eq: "in_window L' y = in_window L y" "slot L' y = slot L y" "tickSize L' = tickSize L"
    "qtys L' = (qtys L)[slot L p := q]" for y
    by (simp_all add: assms(5) in_window_def slot_def)
  have sp: "slot L p < length (qtys L)" using slot_window(2) assms(1,2) .
  have fl: "tick_floor L p = slot_price L (slot L p)" using slot_price_floor assms(1,2) by simp
  have w: "in_window L (tick_floor L p)" "slot L (tick_floor L p) = slot L p" "tickSize L dvd tick_floor L p"
    using slot_price_window [OF assms(1) _ sp] assms(2) by (simp_all add: fl in_window_def)
  show ?thesis
  proof (cases "x = tick_floor L p")
    case True
    then show ?thesis using w sp by (simp add: qty_at_def eq)
  next
    case False
    then have "slot L x \<noteq> slot L p" if "in_window L x" "tickSize L dvd x"
      using slot_price_slot [OF assms(1) that] fl by auto
    with False show ?thesis by (auto simp: qty_at_def eq)
  qed
qed

lemma set_law:
  assumes inv: "ladder_inv L" and p: "price_ok L p" and q: "0 \<le> q" "q \<le> LLONG_MAX"
  obtains L' where "ladder_set L p q = Some (L', initialized L \<and> \<not> in_window L p)"
    "ladder_inv L'" "in_window L' p" "tickSize L' = tickSize L" "halfRange L' = halfRange L"
    "basePrice L' = (if in_window L p then basePrice L else center L p)"
    "\<And>x. qty_at L' x = (if x = tick_floor L p then q else if in_window L' x then qty_at L x else 0)"
proof -
  have p60: "\<bar>p\<bar> \<le> 2 ^ 60" using p by (simp add: price_ok_def)
  obtain L1 where L1: "(if \<not> initialized L then do { L' \<leftarrow> initCenter L p; Some (L', False) }
       else do { r \<leftarrow> inRange L p; if \<not> r then do { L' \<leftarrow> recenter L p; Some (L', True) } else Some (L, False) })
       = Some (L1, initialized L \<and> \<not> in_window L p)"
    and i1: "ladder_inv L1" "in_window L1 p" "tickSize L1 = tickSize L" "halfRange L1 = halfRange L"
    and base: "basePrice L1 = (if in_window L p then basePrice L else center L p)"
    and qty: "\<And>x. qty_at L1 x = (if in_window L1 x then qty_at L x else 0)"
  proof (cases "initialized L")
    case False
    then have none: "qty_at L x = 0" "\<not> in_window L p" for x by (auto simp: qty_at_def in_window_def)
    obtain L1 where "initCenter L p = Some L1" "L1 = L\<lparr>basePrice := center L p, initialized := True\<rparr>"
      "ladder_inv L1" "in_window L1 p" "\<And>x. qty_at L1 x = 0"
      by (rule initCenter_law [OF inv False p]) blast
    with False none show thesis by (intro that [of L1]) simp_all
  next
    case init: True
    show thesis
    proof (cases "in_window L p")
      case True
      with inv init show thesis by (intro that [of L]) (auto simp: inRange_law [OF inv p60] qty_at_def)
    next
      case False
      obtain L1 where "recenter L p = Some L1" "ladder_inv L1" "in_window L1 p"
        "basePrice L1 = center L p" "initialized L1" "tickSize L1 = tickSize L" "halfRange L1 = halfRange L"
        "\<And>x. qty_at L1 x = (if in_window L1 x then qty_at L x else 0)"
        by (rule recenter_law [OF inv init p False]) blast
      with init False show thesis by (intro that [of L1]) (simp_all add: inRange_law [OF inv p60])
    qed
  qed
  let ?L' = "refresh (L1\<lparr>qtys := (qtys L1)[slot L1 p := q]\<rparr>)"
  have init1: "initialized L1" using i1(2) by (simp add: in_window_def)
  have "ladder_set L p q = Some (?L', initialized L \<and> \<not> in_window L p)"
    using q unfolding ladder_set_def L1
    by (simp add: toIdx_law [OF i1(1) p60 i1(2)] storeQty_refresh [OF i1(1) slot_window(2) [OF i1(1,2)] q(1)])
  moreover have "in_window ?L' x = in_window L1 x" for x by (simp add: in_window_def)
  moreover have "tick_floor L1 p = tick_floor L p" by (simp add: tick_floor_def i1)
  ultimately show thesis
    using that [of ?L'] ladder_inv_store [OF i1(1) init1 q] i1 base
    by (simp add: store_qty [OF i1(1,2) q refl] qty)
qed

section \<open>Walking the levels\<close>

text \<open>
  Each walk returns the extreme active price of a range, or the sentinel 0. The results
  are stated through the set of active prices.
\<close>

definition active :: "ladder \<Rightarrow> int set" where
  "active L = {p. 0 < qty_at L p}"

lemma active_slots:
  "ladder_inv L \<Longrightarrow> active L = {slot_price L i | i. i < length (qtys L) \<and> 0 < qtys L ! i}"
  using active_initialized by (fastforce simp: active_def qty_at_pos_iff)

text \<open>The extreme element, with the sentinel 0 for the empty set.\<close>

definition max0 :: "int set \<Rightarrow> int" where
  "max0 A = (if A = {} then 0 else Max A)"

definition min0 :: "int set \<Rightarrow> int" where
  "min0 A = (if A = {} then 0 else Min A)"

lemma max0_empty [simp]: "max0 {} = 0" and min0_empty [simp]: "min0 {} = 0"
  by (simp_all add: max0_def min0_def)

lemma max0_eqI: "finite A \<Longrightarrow> m \<in> A \<Longrightarrow> (\<And>p. p \<in> A \<Longrightarrow> p \<le> m) \<Longrightarrow> max0 A = m"
  by (auto simp: max0_def intro: Max_eqI)

lemma min0_eqI: "finite A \<Longrightarrow> m \<in> A \<Longrightarrow> (\<And>p. p \<in> A \<Longrightarrow> m \<le> p) \<Longrightarrow> min0 A = m"
  by (auto simp: min0_def intro: Min_eqI)

lemma max0_none: "(\<And>p. p \<notin> A) \<Longrightarrow> max0 A = 0" and min0_none: "(\<And>p. p \<notin> A) \<Longrightarrow> min0 A = 0"
  by (auto simp: max0_def min0_def)

lemma finite_active: "ladder_inv L \<Longrightarrow> finite (active L)"
proof -
  assume "ladder_inv L"
  then have "active L \<subseteq> slot_price L ` {..< length (qtys L)}" by (auto simp: active_slots)
  then show ?thesis by (rule finite_subset) simp
qed

lemma active_emptyI:
  "ladder_inv L \<Longrightarrow> (\<And>i. i < length (qtys L) \<Longrightarrow> \<not> 0 < qtys L ! i) \<Longrightarrow> active L = {}"
  by (auto simp: active_slots)

lemma bestHigh_law:
  assumes inv: "ladder_inv L"
  shows "bestHigh L = Some (max0 (active L))"
proof (cases "highest (qtys L) < 0")
  case True
  then have "active L = {}" using inv by (intro active_emptyI) (simp_all add: highest_none)
  with True show ?thesis by (simp add: bestHigh_def ladder_inv_derived [OF inv])
next
  case False
  let ?i = "nat (highest (qtys L))"
  have i: "?i < length (qtys L)" "0 < qtys L ! ?i"
    using False highest_range(2) [of "qtys L"] highest_hit [of "qtys L"] by auto
  have init: "initialized L" using active_initialized [OF inv i] .
  have "slot_price L ?i \<in> active L" using i inv by (auto simp: active_slots)
  moreover have "p \<le> slot_price L ?i" if "p \<in> active L" for p
    using that highest_above [of "qtys L"] ladder_inv_basics(1) [OF inv] False
    by (fastforce simp: active_slots [OF inv] not_less [symmetric])
  ultimately have "max0 (active L) = slot_price L ?i"
    using finite_active [OF inv] by (intro max0_eqI) auto
  with False show ?thesis
    using toPrice_law [OF inv init i(1)] by (simp add: bestHigh_def ladder_inv_derived [OF inv])
qed

lemma bestLow_law:
  assumes inv: "ladder_inv L"
  shows "bestLow L = Some (min0 (active L))"
proof (cases "lowest (qtys L) < 0")
  case True
  then have "active L = {}" using inv by (intro active_emptyI) (simp_all add: lowest_none)
  with True show ?thesis by (simp add: bestLow_def ladder_inv_derived [OF inv])
next
  case False
  let ?i = "nat (lowest (qtys L))"
  have i: "?i < length (qtys L)" "0 < qtys L ! ?i"
    using False lowest_range(2) [of "qtys L"] lowest_hit [of "qtys L"] by auto
  have init: "initialized L" using active_initialized [OF inv i] .
  have "slot_price L ?i \<in> active L" using i inv by (auto simp: active_slots)
  moreover have "slot_price L ?i \<le> p" if "p \<in> active L" for p
    using that lowest_below [of _ "qtys L"] ladder_inv_basics(1) [OF inv] False
    by (fastforce simp: active_slots [OF inv] not_less [symmetric])
  ultimately have "min0 (active L) = slot_price L ?i"
    using finite_active [OF inv] by (intro min0_eqI) auto
  with False show ?thesis
    using toPrice_law [OF inv init i(1)] by (simp add: bestLow_def ladder_inv_derived [OF inv])
qed

text \<open>\<open>prevBelow\<close> and \<open>nextAbove\<close>, for any bound of at most \<open>2^60\<close>.\<close>

lemma slot_price_less_iff:
  assumes "ladder_inv L"
  shows "slot_price L i < x \<longleftrightarrow> int i \<le> (x - basePrice L - 1) div tickSize L"
    "x < slot_price L i \<longleftrightarrow> (x - basePrice L) div tickSize L < int i"
  using ladder_inv_basics(1) [OF assms]
  by (auto simp: slot_price_def int_le_div_iff int_div_less_iff)

lemma scanDown_Max:
  assumes inv: "ladder_inv L" "initialized L" and n: "n \<le> length (qtys L)"
    and lt: "\<And>i. i < length (qtys L) \<Longrightarrow> slot_price L i < x \<longleftrightarrow> i < n"
  shows "(let i = scanDown (\<lambda>q. 0 < q) (qtys L) n in if 0 \<le> i then toPrice L i else Some 0)
    = Some (max0 {p \<in> active L. p < x})"
proof -
  let ?i = "scanDown (\<lambda>q. 0 < q) (qtys L) n" and ?A = "{p \<in> active L. p < x}"
  show ?thesis
  proof (cases "0 \<le> ?i")
    case True
    let ?k = "nat ?i"
    have k: "?k < n" "0 < qtys L ! ?k" "?k < length (qtys L)"
      using True scanDown_range(2) [of "\<lambda>q. 0 < q" "qtys L" n] scanDown_hit [OF True] n by auto
    have "slot_price L ?k \<in> ?A" using k lt inv by (auto simp: active_slots)
    moreover have "p \<le> slot_price L ?k" if "p \<in> ?A" for p
      using that lt scanDown_above [of "\<lambda>q. 0 < q" "qtys L" n] ladder_inv_basics(1) [OF inv(1)] True
      by (fastforce simp: active_slots [OF inv(1)] not_less [symmetric])
    ultimately have "max0 ?A = slot_price L ?k"
      using finite_active [OF inv(1)] by (intro max0_eqI) auto
    with True show ?thesis using toPrice_law [OF inv k(3)] by (simp add: Let_def)
  next
    case False
    then have "max0 ?A = 0"
      using lt by (intro max0_none) (auto simp: active_slots [OF inv(1)] scanDown_none not_le)
    with False show ?thesis by (simp add: Let_def)
  qed
qed

lemma scanUp_Min:
  assumes inv: "ladder_inv L" "initialized L" and n: "n \<le> length (qtys L)"
    and lt: "\<And>i. i < length (qtys L) \<Longrightarrow> x < slot_price L i \<longleftrightarrow> n \<le> i"
  shows "(let i = scanUp (\<lambda>q. 0 < q) (qtys L) n in if i < length (qtys L) then toPrice L (int i) else Some 0)
    = Some (min0 {p \<in> active L. x < p})"
proof -
  let ?i = "scanUp (\<lambda>q. 0 < q) (qtys L) n" and ?A = "{p \<in> active L. x < p}"
  show ?thesis
  proof (cases "?i < length (qtys L)")
    case True
    have k: "n \<le> ?i" "0 < qtys L ! ?i" using scanUp_ge scanUp_hit [OF True] .
    have "slot_price L ?i \<in> ?A" using k True lt inv by (auto simp: active_slots)
    moreover have "slot_price L ?i \<le> p" if "p \<in> ?A" for p
      using that lt scanUp_below [of n _ "\<lambda>q. 0 < q" "qtys L"] ladder_inv_basics(1) [OF inv(1)]
      by (fastforce simp: active_slots [OF inv(1)] not_less [symmetric])
    ultimately have "min0 ?A = slot_price L ?i"
      using finite_active [OF inv(1)] by (intro min0_eqI) auto
    with True show ?thesis using toPrice_law [OF inv True] by (simp add: Let_def)
  next
    case False
    then have "min0 ?A = 0"
      using lt scanUp_none [OF n, of "\<lambda>q. 0 < q"] by (intro min0_none) (auto simp: active_slots [OF inv(1)])
    with False show ?thesis by (simp add: Let_def)
  qed
qed

lemma prevBelow_law:
  assumes inv: "ladder_inv L" and x: "\<bar>x\<bar> \<le> 2 ^ 60"
  shows "prevBelow L x = Some (max0 {p \<in> active L. p < x})"
proof (cases "\<not> initialized L \<or> highest (qtys L) < 0")
  case True
  then have "active L = {}"
    using active_initialized [OF inv] by (intro active_emptyI [OF inv]) (auto simp: highest_none)
  with True show ?thesis by (simp add: prevBelow_def ladder_inv_derived [OF inv] Let_def)
next
  case False
  then have init: "initialized L" by simp
  note basics = ladder_inv_basics [OF inv]
  let ?off = "x - basePrice L"
  have off: "in_ll ?off" using offset_in_ll [OF inv init, of x] x by simp
  show ?thesis
  proof (cases "?off \<le> 0")
    case True
    then have "(?off - 1) div tickSize L < 0" using basics(1) by (simp add: int_div_less_iff)
    then have "max0 {p \<in> active L. p < x} = 0"
      by (intro max0_none) (auto simp: active_slots [OF inv] slot_price_less_iff [OF inv])
    with True False off show ?thesis
      by (simp add: prevBelow_def ladder_inv_derived [OF inv] Let_def ll_Some)
  next
    case pos: False
    define raw where "raw = (?off - 1) div tickSize L"
    define st where "st = (if slots L \<le> raw then slots L - 1 else raw)"
    have raw: "(?off - 1) sdiv tickSize L = raw" "0 \<le> raw"
      using pos basics(1) by (simp_all add: raw_def sdiv_nonneg pos_imp_zdiv_nonneg_iff)
    have st: "(if slots L \<le> raw then slots L - 1 else to_int32 raw) = st" "nat (st + 1) \<le> length (qtys L)"
      using raw(2) basics(4,6,7) by (auto simp: st_def to_int32_id)
    have "slot_price L i < x \<longleftrightarrow> i < nat (st + 1)" if "i < length (qtys L)" for i
      using that raw(2) basics(6,7) by (auto simp: slot_price_less_iff [OF inv] raw_def [symmetric] st_def)
    note Max = scanDown_Max [OF inv init st(2) this]
    have "prevBelow L x = (let i = scanDown (\<lambda>q. 0 < q) (qtys L) (nat (st + 1))
        in if 0 \<le> i then toPrice L i else Some 0)"
      using False pos off by (simp add: prevBelow_def ll_Some ladder_inv_derived [OF inv] raw(1) st(1) Let_def)
    with Max show ?thesis by simp
  qed
qed

lemma nextAbove_law:
  assumes inv: "ladder_inv L" and x: "\<bar>x\<bar> \<le> 2 ^ 60"
  shows "nextAbove L x = Some (min0 {p \<in> active L. x < p})"
proof (cases "\<not> initialized L \<or> lowest (qtys L) < 0")
  case True
  then have "active L = {}"
    using active_initialized [OF inv] by (intro active_emptyI [OF inv]) (auto simp: lowest_none)
  with True show ?thesis by (simp add: nextAbove_def ladder_inv_derived [OF inv] Let_def)
next
  case False
  then have init: "initialized L" by simp
  note basics = ladder_inv_basics [OF inv]
  let ?off = "x - basePrice L"
  define raw where "raw = ?off div tickSize L + 1"
  have off: "in_ll ?off" using offset_in_ll [OF inv init, of x] x by simp
  have lt: "x < slot_price L i \<longleftrightarrow> raw \<le> int i" for i
    by (auto simp: slot_price_less_iff [OF inv] raw_def)
  show ?thesis
  proof (cases "?off < 0")
    case True
    then have "?off div tickSize L < 0" using basics(1) by (simp add: int_div_less_iff)
    then have "raw \<le> 0" by (simp add: raw_def)
    then have below: "x < slot_price L i \<longleftrightarrow> 0 \<le> i" for i using lt [of i] by simp
    have "nextAbove L x = (let i = scanUp (\<lambda>q. 0 < q) (qtys L) 0
        in if i < length (qtys L) then toPrice L (int i) else Some 0)"
      using False True off by (simp add: nextAbove_def ll_Some ladder_inv_derived [OF inv])
    with scanUp_Min [OF inv init _ below] show ?thesis by simp
  next
    case pos: False
    have "raw \<le> ?off + 1" using pos basics(1) zdiv_mono2 [of ?off 1 "tickSize L"] by (simp add: raw_def)
    then have "in_ll raw" "?off sdiv tickSize L + 1 = raw" "0 \<le> raw"
      using pos basics(1) x ladder_inv_base(2) [OF inv init]
      by (auto simp: raw_def in_ll_def int_limits sdiv_nonneg pos_imp_zdiv_nonneg_iff)
    note raw = this
    show ?thesis
    proof (cases "slots L \<le> raw")
      case True
      then have "min0 {p \<in> active L. x < p} = 0"
        using lt basics(6) by (intro min0_none) (auto simp: active_slots [OF inv])
      with False pos off raw True show ?thesis
        by (simp add: nextAbove_def ll_Some ladder_inv_derived [OF inv] Let_def)
    next
      case fits: False
      then have "to_int32 raw = raw" "nat raw \<le> length (qtys L)"
        using raw(3) basics(4,6) by (auto intro: to_int32_id)
      moreover have "x < slot_price L i \<longleftrightarrow> nat raw \<le> i" for i using lt [of i] raw(3) by linarith
      moreover have "nextAbove L x = (let i = scanUp (\<lambda>q. 0 < q) (qtys L) (nat (to_int32 raw))
          in if i < length (qtys L) then toPrice L (int i) else Some 0)"
        using False pos off raw fits by (simp add: nextAbove_def ll_Some ladder_inv_derived [OF inv])
      ultimately show ?thesis using scanUp_Min [OF inv init, of "nat raw" x] by simp
    qed
  qed
qed

section \<open>Enumeration, reset and construction\<close>

text \<open>\<open>forEach\<close> visits exactly the active levels, in strictly ascending price order.\<close>

lemma visit_law:
  assumes "\<And>k. k < length qs \<Longrightarrow> 0 < qs ! k \<Longrightarrow> toPrice L (i + int k) = Some (f k)"
  shows "visit L i qs = Some (map (\<lambda>k. (f k, qs ! k)) (filter (\<lambda>k. 0 < qs ! k) [0..<length qs]))"
  using assms
proof (induction qs arbitrary: i f)
  case (Cons q qs)
  have "toPrice L (i + 1 + int k) = Some (f (Suc k))" if "k < length qs" "0 < qs ! k" for k
    using Cons.prems [of "Suc k"] that by (simp add: algebra_simps)
  from Cons.IH [OF this] Cons.prems [of 0] show ?case
    by (simp add: upt_conv_Cons map_Suc_upt [symmetric] filter_map o_def del: upt_Suc)
qed simp

definition levels :: "ladder \<Rightarrow> (int \<times> int) list" where
  "levels L = map (\<lambda>k. (slot_price L k, qtys L ! k)) (filter (\<lambda>k. 0 < qtys L ! k) [0..<length (qtys L)])"

lemma forEach_law: "ladder_inv L \<Longrightarrow> forEach L = Some (levels L)"
  using toPrice_law [OF _ active_initialized]
  by (auto simp: forEach_def levels_def intro!: visit_law)

lemma levels_set: "ladder_inv L \<Longrightarrow> set (levels L) = {(p, qty_at L p) | p. 0 < qty_at L p}"
  using active_initialized qty_at_slot_price by (fastforce simp: levels_def qty_at_pos_iff)

lemma levels_sorted: "ladder_inv L \<Longrightarrow> sorted_wrt (<) (map fst (levels L))"
  by (auto simp: levels_def sorted_wrt_map ladder_inv_basics intro!: sorted_wrt_filter
      sorted_wrt_mono_rel [OF _ sorted_wrt_upt])

lemma all_zero:
  assumes "\<forall>q \<in> set qs. q = 0"
  shows "highest qs = - 1" "lowest qs = - 1" "filter (\<lambda>q. 0 < q) qs = []"
proof -
  have none: "\<forall>i < length qs. \<not> 0 < qs ! i" using assms by (simp add: all_set_conv_all_nth)
  then show "highest qs = - 1" "lowest qs = - 1"
    using highest_none [of qs] lowest_none [of qs] highest_range(1) [of qs] lowest_range(1) [of qs] by auto
  show "filter (\<lambda>q. 0 < q) qs = []" using assms by (auto simp: filter_empty_conv)
qed

lemma clear_law:
  assumes "ladder_inv L"
  shows "ladder_inv (ladder_clear L)" "qty_at (ladder_clear L) p = 0" "\<not> initialized (ladder_clear L)"
    "tickSize (ladder_clear L) = tickSize L" "halfRange (ladder_clear L) = halfRange L"
proof -
  have zero: "\<forall>q \<in> set (qtys (ladder_clear L)). q = 0"
    using assms ladder_inv_base(3) [OF assms] by (auto simp: ladder_clear_def)
  show "ladder_inv (ladder_clear L)"
    using assms zero all_zero [OF zero]
    by (auto simp: ladder_inv_def eq_refresh_iff ladder_clear_def int_limits split: if_splits)
qed (simp_all add: ladder_clear_def qty_at_def in_window_def)

lemma newLadder_law:
  assumes "newLadder t h = Inr L" "(h * 2 + 1) * t \<le> 2 ^ 60"
  shows "ladder_inv L" "\<And>p. qty_at L p = 0" "\<not> initialized L" "tickSize L = t" "halfRange L = h"
proof -
  have L: "0 < t" "0 \<le> h" "h \<le> 1073741823" "L = \<lparr>tickSize = t, halfRange = h, slots = h * 2 + 1,
      basePrice = 0, initialized = False, qtys = replicate (nat (h * 2 + 1)) 0, count = 0,
      bestHighIdx = - 1, bestLowIdx = - 1\<rparr>"
    using assms(1) by (auto simp: newLadder_def int_limits split: if_splits)
  then have zero: "\<forall>q \<in> set (qtys L). q = 0" by simp
  show "ladder_inv L"
    using assms(2) L(1-3) all_zero [OF zero] unfolding ladder_inv_def eq_refresh_iff
    by (simp add: L(4) int_limits)
qed (use assms(1) in \<open>auto simp: newLadder_def qty_at_def in_window_def split: if_splits\<close>)

end
