(* ===== verification/Order_Book.thy ===== *)
theory Order_Book
  imports Doubles Side_View Ladder_Laws
begin

text \<open>
  \<open>src/order_book.hpp\<close> and \<open>src/order_book.cpp\<close>: both sides of a book, the sequencing of
  updates and the emitted level changes. Every operation that changes the state is here;
  the mutex makes each one atomic. JSON messages are taken decoded: their numbers as \<open>int\<close>
  and their price and quantity texts as strings, which \<open>parseDecimal\<close> reads as in the
  source. \<open>None\<close> is a fault (overflow, bad index, failed assertion), \<open>Inl\<close> an exception.
\<close>

section \<open>The class\<close>

record orderbook =
  lastUpdateId :: int
  snapshotApplied :: bool
  ofiDepth :: nat
  bidLadder :: ladder
  askLadder :: ladder
  ofiBids :: "level list"
  ofiAsks :: "level list"

definition newOrderBook :: "nat \<Rightarrow> int \<Rightarrow> exn + orderbook" where
  "newOrderBook ofiDepthArg tick =
     bind_exn (newLadder tick kDefaultHalfRange) (\<lambda>bl.
     bind_exn (newLadder tick kDefaultHalfRange) (\<lambda>al.
     Inr \<lparr>lastUpdateId = 0, snapshotApplied = False, ofiDepth = ofiDepthArg, bidLadder = bl,
          askLadder = al, ofiBids = [], ofiAsks = []\<rparr>))"

text \<open>Selecting a side by \<open>isBid\<close>.\<close>

definition sideLadder :: "bool \<Rightarrow> orderbook \<Rightarrow> ladder" where
  "sideLadder isBid b = (if isBid then bidLadder b else askLadder b)"

definition ofiSide :: "bool \<Rightarrow> orderbook \<Rightarrow> level list" where
  "ofiSide isBid b = (if isBid then ofiBids b else ofiAsks b)"

definition putLadder :: "bool \<Rightarrow> ladder \<Rightarrow> orderbook \<Rightarrow> orderbook" where
  "putLadder isBid L b = (if isBid then b\<lparr>bidLadder := L\<rparr> else b\<lparr>askLadder := L\<rparr>)"

definition putView :: "bool \<Rightarrow> level list \<Rightarrow> orderbook \<Rightarrow> orderbook" where
  "putView isBid v b = (if isBid then b\<lparr>ofiBids := v\<rparr> else b\<lparr>ofiAsks := v\<rparr>)"

section \<open>The view of a side\<close>

definition rebuildOfiSide :: "bool \<Rightarrow> orderbook \<Rightarrow> orderbook option" where
  "rebuildOfiSide isBid b =
     (if isBid then do {
        v \<leftarrow> rebuildSide (bestHigh (bidLadder b)) (prevBelow (bidLadder b)) (ladder_get (bidLadder b)) (ofiDepth b);
        Some (b\<lparr>ofiBids := v\<rparr>)
      } else do {
        v \<leftarrow> rebuildSide (bestLow (askLadder b)) (nextAbove (askLadder b)) (ladder_get (askLadder b)) (ofiDepth b);
        Some (b\<lparr>ofiAsks := v\<rparr>)
      })"

definition updateOfiView :: "int \<Rightarrow> int \<Rightarrow> bool \<Rightarrow> orderbook \<Rightarrow> (view_change \<times> orderbook) option" where
  "updateOfiView price newQty isBid b =
     (if isBid then do {
        (v, c) \<leftarrow> updateSideView (\<lambda>a p. p < a) (bestHigh (bidLadder b)) (prevBelow (bidLadder b))
                   (ladder_get (bidLadder b)) (ofiDepth b) (ofiBids b) price newQty;
        Some (c, b\<lparr>ofiBids := v\<rparr>)
      } else do {
        (v, c) \<leftarrow> updateSideView (\<lambda>a p. a < p) (bestLow (askLadder b)) (nextAbove (askLadder b))
                   (ladder_get (askLadder b)) (ofiDepth b) (ofiAsks b) price newQty;
        Some (c, b\<lparr>ofiAsks := v\<rparr>)
      })"

section \<open>One level change\<close>

definition isDeep :: "bool \<Rightarrow> ladder \<Rightarrow> int \<Rightarrow> bool option" where
  "isDeep isBid L price =
     (if 0 < activeCount L then do {
        r \<leftarrow> inRange L price;
        if \<not> r then (if isBid then Some (price < windowLow L)
                     else do { h \<leftarrow> windowHigh L; Some (h < price) })
        else Some False
      } else Some False)"

definition secondaryKind :: "event_kind \<Rightarrow> event_kind" where
  "secondaryKind kind = (if kind = Backfill then Backfill else Maintenance)"

text \<open>The deltas after the first: the level that left the view, the level that entered it.\<close>

definition viewDeltas :: "view_change \<Rightarrow> bool \<Rightarrow> event_kind \<Rightarrow> level_delta list option" where
  "viewDeltas c isBid kind = do {
     ev \<leftarrow> (if evictedPrice c \<noteq> 0
             then do { nq \<leftarrow> ll (- evictedQty c);
                       Some [\<lparr>d_price = evictedPrice c, d_newQty = evictedQty c, d_deltaQty = nq,
                              d_isBid = isBid, d_wasInView = True, d_inOfiView = False,
                              d_kind = secondaryKind kind\<rparr>] }
             else Some []);
     Some (ev @ (if replacementPrice c \<noteq> 0
                 then [\<lparr>d_price = replacementPrice c, d_newQty = replacementQty c,
                        d_deltaQty = replacementQty c, d_isBid = isBid, d_wasInView = False,
                        d_inOfiView = True, d_kind = secondaryKind kind\<rparr>]
                 else []))
   }"

definition inView :: "int \<Rightarrow> level list \<Rightarrow> bool" where
  "inView price v = list_ex (\<lambda>l. fst l = price) v"

definition applyLevelChange ::
  "event_kind \<Rightarrow> bool \<Rightarrow> level_delta list \<times> orderbook \<Rightarrow> level \<Rightarrow> (level_delta list \<times> orderbook) option" where
  "applyLevelChange kind isBid = (\<lambda>(out, b) (price, newQty). do {
     prevQty \<leftarrow> ladder_get (sideLadder isBid b) price;
     deep \<leftarrow> isDeep isBid (sideLadder isBid b) price;
     if deep then Some (out, b)
     else do {
       (L, recentered) \<leftarrow> ladder_set (sideLadder isBid b) price newQty;
       let b1 = putLadder isBid L b;
       b2 \<leftarrow> (if recentered then rebuildOfiSide isBid b1 else Some b1);
       delta \<leftarrow> ll (newQty - prevQty);
       if delta = 0 then Some (out, b2)
       else do {
         (c, b3) \<leftarrow> updateOfiView price newQty isBid b2;
         more \<leftarrow> viewDeltas c isBid kind;
         Some (out @ \<lparr>d_price = price, d_newQty = newQty, d_deltaQty = delta, d_isBid = isBid,
                      d_wasInView = inView price (ofiSide isBid b2),
                      d_inOfiView = inView price (ofiSide isBid b3), d_kind = kind\<rparr> # more, b3)
       }
     }
   })"

section \<open>Updates\<close>

definition applyUpdateCore ::
  "orderbook \<Rightarrow> int \<Rightarrow> int \<Rightarrow> level list \<Rightarrow> level list \<Rightarrow> event_kind \<Rightarrow> (update_result \<times> orderbook) option" where
  "applyUpdateCore b firstId lastId asks bids kind =
     (if lastId \<le> lastUpdateId b then Some (\<lparr>success = True, deltas = []\<rparr>, b)
      else do {
        nextId \<leftarrow> ll (lastUpdateId b + 1);
        if nextId < firstId then Some (\<lparr>success = False, deltas = []\<rparr>, b)
        else do {
          (d1, b1) \<leftarrow> foldM (applyLevelChange kind False) ([], b) asks;
          (d2, b2) \<leftarrow> foldM (applyLevelChange kind True) (d1, b1) bids;
          Some (\<lparr>success = True, deltas = d2\<rparr>, b2\<lparr>lastUpdateId := lastId\<rparr>)
        }
      })"

text \<open>The decoded messages: an update (\<open>U\<close>, \<open>u\<close>, \<open>a\<close>, \<open>b\<close>) and a snapshot.\<close>

record update_msg =
  m_U :: int
  m_u :: int
  m_a :: "(string \<times> string) list"
  m_b :: "(string \<times> string) list"

record snapshot_msg =
  s_lastUpdateId :: int
  s_asks :: "(string \<times> string) list"
  s_bids :: "(string \<times> string) list"

definition parseLevel :: "string \<times> string \<Rightarrow> exn + level" where
  "parseLevel = (\<lambda>(ps, qs). bind_exn (parseDecimal ps) (\<lambda>p. bind_exn (parseDecimal qs) (\<lambda>q. Inr (p, q))))"

definition applyUpdate ::
  "orderbook \<Rightarrow> update_msg \<Rightarrow> event_kind \<Rightarrow> (exn + (update_result \<times> orderbook)) option" where
  "applyUpdate b update kind =
     (case bind_exn (map_exn parseLevel (m_a update)) (\<lambda>asks.
           bind_exn (map_exn parseLevel (m_b update)) (\<lambda>bids. Inr (asks, bids))) of
        Inl e \<Rightarrow> Some (Inl e)
      | Inr (asks, bids) \<Rightarrow>
          do { r \<leftarrow> applyUpdateCore b (m_U update) (m_u update) asks bids kind; Some (Inr r) })"

definition applyDelta ::
  "orderbook \<Rightarrow> (string \<times> string) list \<Rightarrow> (string \<times> string) list \<Rightarrow> event_kind \<Rightarrow>
   (exn + (level_delta list \<times> orderbook)) option" where
  "applyDelta b bidsArr asksArr kind =
     (case bind_exn (map_exn parseLevel bidsArr) (\<lambda>bids.
           bind_exn (map_exn parseLevel asksArr) (\<lambda>asks. Inr (bids, asks))) of
        Inl e \<Rightarrow> Some (Inl e)
      | Inr (bids, asks) \<Rightarrow> do {
          s \<leftarrow> foldM (applyLevelChange kind True) ([], b) bids;
          r \<leftarrow> foldM (applyLevelChange kind False) s asks;
          Some (Inr r)
        })"

section \<open>Snapshots\<close>

definition snapshotLevel :: "ladder \<Rightarrow> level \<Rightarrow> ladder option" where
  "snapshotLevel L = (\<lambda>(p, q). do {
     r \<leftarrow> inRange L p;
     if r \<or> activeCount L = 0 then do { (L', _) \<leftarrow> ladder_set L p q; Some L' } else Some L
   })"

definition loadSnapshot :: "orderbook \<Rightarrow> int \<Rightarrow> level list \<Rightarrow> level list \<Rightarrow> orderbook option" where
  "loadSnapshot b newLastUpdateId newAsks newBids = do {
     bl \<leftarrow> foldM snapshotLevel (ladder_clear (bidLadder b)) newBids;
     al \<leftarrow> foldM snapshotLevel (ladder_clear (askLadder b)) newAsks;
     b1 \<leftarrow> rebuildOfiSide True (b\<lparr>lastUpdateId := newLastUpdateId, bidLadder := bl, askLadder := al,
                                  ofiBids := [], ofiAsks := []\<rparr>);
     b2 \<leftarrow> rebuildOfiSide False b1;
     Some (b2\<lparr>snapshotApplied := True\<rparr>)
   }"

definition applySnapshot :: "orderbook \<Rightarrow> snapshot_msg \<Rightarrow> (exn + orderbook) option" where
  "applySnapshot b snapshot =
     (case bind_exn (map_exn parseLevel (s_asks snapshot)) (\<lambda>asks.
           bind_exn (map_exn parseLevel (s_bids snapshot)) (\<lambda>bids.
           Inr (filter (\<lambda>l. 0 < snd l) asks, filter (\<lambda>l. 0 < snd l) bids))) of
        Inl e \<Rightarrow> Some (Inl e)
      | Inr (newAsks, newBids) \<Rightarrow>
          do { r \<leftarrow> loadSnapshot b (s_lastUpdateId snapshot) newAsks newBids; Some (Inr r) })"

definition book_clear :: "orderbook \<Rightarrow> orderbook" where
  "book_clear b = b\<lparr>lastUpdateId := 0, snapshotApplied := False, bidLadder := ladder_clear (bidLadder b),
     askLadder := ladder_clear (askLadder b), ofiBids := [], ofiAsks := []\<rparr>"

section \<open>Reading the book\<close>

definition getLastUpdateId :: "orderbook \<Rightarrow> int" where
  "getLastUpdateId b = lastUpdateId b"

definition isSnapshotApplied :: "orderbook \<Rightarrow> bool" where
  "isSnapshotApplied b = snapshotApplied b"

text \<open>The best prices are doubles: the scaled price, divided by \<open>kPriceScale\<close>.\<close>

record book_stats =
  asksCount :: nat
  bidsCount :: nat
  bestAsk :: rat
  bestBid :: rat

definition getStats :: "orderbook \<Rightarrow> book_stats" where
  "getStats b = \<lparr>asksCount = activeCount (askLadder b), bidsCount = activeCount (bidLadder b),
     bestAsk = (if ofiAsks b \<noteq> [] then unscaled (fst (hd (ofiAsks b))) else 0),
     bestBid = (if ofiBids b \<noteq> [] then unscaled (fst (hd (ofiBids b))) else 0)\<rparr>"

record book_snapshot =
  applied :: bool
  snap_asks :: "level list"
  snap_bids :: "level list"

definition getSnapshot :: "orderbook \<Rightarrow> book_snapshot option" where
  "getSnapshot b =
     (if \<not> snapshotApplied b then Some \<lparr>applied = False, snap_asks = [], snap_bids = []\<rparr>
      else do {
        asks \<leftarrow> forEach (askLadder b);
        bids \<leftarrow> forEach (bidLadder b);
        Some \<lparr>applied = True, snap_asks = asks, snap_bids = rev bids\<rparr>
      })"

end
