(* ===== verification/Book_Side.thy ===== *)
theory Book_Side
  imports Order_Book
begin

text \<open>
  One side of \<open>Order_Book\<close>: the ladder provides what the view maintenance needs
  (\<open>price_side\<close>, interpreted for both orders), and one level change keeps the invariant of
  the book and reports exactly the change of the viewed levels.
\<close>

section \<open>The two sides as one\<close>

definition better :: "bool \<Rightarrow> int \<Rightarrow> int \<Rightarrow> bool" where
  "better isBid = (if isBid then (\<lambda>a p. p < a) else (\<lambda>a p. a < p))"

definition bestOf :: "bool \<Rightarrow> ladder \<Rightarrow> int option" where
  "bestOf isBid L = (if isBid then bestHigh L else bestLow L)"

definition walkOf :: "bool \<Rightarrow> ladder \<Rightarrow> int \<Rightarrow> int option" where
  "walkOf isBid L = (if isBid then prevBelow L else nextAbove L)"

text \<open>A ladder whose levels are at positive prices that leave room for the offsets.\<close>

definition side_inv :: "ladder \<Rightarrow> bool" where
  "side_inv L \<longleftrightarrow> ladder_inv L \<and> (\<forall>p. 0 < qty_at L p \<longrightarrow> 0 < p \<and> p \<le> 2 ^ 60)"

lemma side_invD:
  assumes "side_inv L"
  shows "ladder_inv L" "0 < qty_at L p \<Longrightarrow> 0 < p" "0 < qty_at L p \<Longrightarrow> \<bar>p\<bar> \<le> 2 ^ 60"
  using assms by (auto simp: side_inv_def)

lemma qty_at_dvd: "0 < qty_at L p \<Longrightarrow> tickSize L dvd p"
  by (auto simp: qty_at_def split: if_splits)

lemma selects_max0: "finite A \<Longrightarrow> selects (\<lambda>a p. p < a) A (max0 A)"
  by (auto simp: selects_def max0_def dest: Max_ge)

lemma selects_min0: "finite A \<Longrightarrow> selects (\<lambda>a p. a < p) A (min0 A)"
  by (auto simp: selects_def min0_def dest: Min_le)

interpretation side: price_side "better isBid" side_inv qty_at "bestOf isBid" "walkOf isBid" ladder_get
  for isBid
proof
  fix l and p w :: int assume l: "side_inv l"
  note inv = side_invD(1) [OF l] and fin = finite_active [OF side_invD(1) [OF l]]
  have fin': "finite {x \<in> active l. P x}" for P using fin by simp
  show "\<exists>p. bestOf isBid l = Some p \<and> selects (better isBid) {x. 0 < qty_at l x} p"
    using bestHigh_law [OF inv] bestLow_law [OF inv] selects_max0 [OF fin] selects_min0 [OF fin]
    by (simp add: bestOf_def better_def active_def)
  show "0 \<le> qty_at l p" by (rule qty_at_nonneg [OF inv])
  show "0 < p" if "0 < qty_at l p" by (rule side_invD(2) [OF l that])
  show "ladder_get l p = Some (qty_at l p)" if "0 < qty_at l p"
    by (rule get_aligned [OF inv side_invD(3) [OF l that] qty_at_dvd [OF that]])
  show "\<exists>p. walkOf isBid l w = Some p \<and> selects (better isBid) {x. 0 < qty_at l x \<and> better isBid w x} p"
    if "0 < qty_at l w"
    using prevBelow_law [OF inv side_invD(3) [OF l that]] nextAbove_law [OF inv side_invD(3) [OF l that]]
      selects_max0 [OF fin', of "\<lambda>x. x < w"] selects_min0 [OF fin', of "\<lambda>x. w < x"]
    by (simp add: walkOf_def better_def active_def)
qed (auto simp: better_def)

lemma rebuildOfiSide_side:
  "rebuildOfiSide isBid b = do {
     v \<leftarrow> rebuildSide (bestOf isBid (sideLadder isBid b)) (walkOf isBid (sideLadder isBid b))
           (ladder_get (sideLadder isBid b)) (ofiDepth b);
     Some (putView isBid v b) }"
  by (simp add: rebuildOfiSide_def bestOf_def walkOf_def sideLadder_def putView_def)

lemma updateOfiView_side:
  "updateOfiView price q isBid b = do {
     (v, c) \<leftarrow> updateSideView (better isBid) (bestOf isBid (sideLadder isBid b))
        (walkOf isBid (sideLadder isBid b)) (ladder_get (sideLadder isBid b)) (ofiDepth b) (ofiSide isBid b) price q;
     Some (c, putView isBid v b) }"
  by (simp add: updateOfiView_def better_def bestOf_def walkOf_def sideLadder_def putView_def ofiSide_def)

lemma put_simps [simp]:
  "sideLadder s (putLadder s' L b) = (if s = s' then L else sideLadder s b)"
  "ofiSide s (putLadder s' L b) = ofiSide s b"
  "sideLadder s (putView s' v b) = sideLadder s b"
  "ofiSide s (putView s' v b) = (if s = s' then v else ofiSide s b)"
  "ofiDepth (putLadder s L b) = ofiDepth b" "ofiDepth (putView s v b) = ofiDepth b"
  "lastUpdateId (putLadder s L b) = lastUpdateId b" "lastUpdateId (putView s v b) = lastUpdateId b"
  "snapshotApplied (putLadder s L b) = snapshotApplied b" "snapshotApplied (putView s v b) = snapshotApplied b"
  "putView s v (putView s w b) = putView s v b"
  by (simp_all add: sideLadder_def ofiSide_def putLadder_def putView_def)

section \<open>The invariant of the book\<close>

definition book_inv :: "orderbook \<Rightarrow> bool" where
  "book_inv b \<longleftrightarrow> 0 < ofiDepth b \<and>
     (\<forall>s. side_inv (sideLadder s b) \<and>
          top_view (better s) (ofiDepth b) (qty_at (sideLadder s b)) (ofiSide s b))"

text \<open>A level of the feed that the ladder stores exactly.\<close>

definition level_ok :: "ladder \<Rightarrow> level \<Rightarrow> bool" where
  "level_ok L l \<longleftrightarrow> 0 < fst l \<and> fst l \<le> 2 ^ 60 \<and> tickSize L dvd fst l \<and> 0 \<le> snd l \<and> snd l \<le> LLONG_MAX"

lemma book_invD:
  assumes "book_inv b"
  shows "0 < ofiDepth b" "side_inv (sideLadder s b)" "ladder_inv (sideLadder s b)"
    "top_view (better s) (ofiDepth b) (qty_at (sideLadder s b)) (ofiSide s b)"
  using assms by (auto simp: book_inv_def side_inv_def)

text \<open>What the book drops: a level beyond the far end of a window that holds levels.\<close>

definition deep :: "bool \<Rightarrow> ladder \<Rightarrow> int \<Rightarrow> bool" where
  "deep isBid L p \<longleftrightarrow> activeCount L \<noteq> 0 \<and> \<not> in_window L p \<and>
     (if isBid then p < basePrice L else basePrice L + (slots L - 1) * tickSize L < p)"

lemma isDeep_law:
  assumes inv: "ladder_inv L" and p: "\<bar>p\<bar> \<le> 2 ^ 60"
  shows "isDeep isBid L p = Some (deep isBid L p)"
proof -
  note basics = ladder_inv_basics [OF inv]
  have init: "initialized L" if "0 < activeCount L"
    using that activeCount_zero_iff [OF inv] by (auto simp: qty_at_def in_window_def split: if_splits)
  have high: "windowHigh L = Some (basePrice L + (slots L - 1) * tickSize L)" if i: "initialized L"
  proof -
    have le: "0 \<le> (slots L - 1) * tickSize L" "(slots L - 1) * tickSize L \<le> 2 ^ 60"
      using basics(1,5,7) by (simp, simp add: left_diff_distrib)
    with ladder_inv_base(2) [OF inv i] have "in_ll ((slots L - 1) * tickSize L)"
      "in_ll (basePrice L + (slots L - 1) * tickSize L)" by (auto simp: in_ll_def int_limits)
    then show ?thesis using i by (simp add: windowHigh_def machine)
  qed
  show ?thesis
    using high init by (cases "0 < activeCount L")
      (simp_all add: isDeep_def deep_def inRange_law [OF inv p] windowLow_def)
qed

section \<open>What one level change does\<close>

text \<open>The level maps before and after, with the levels that stay in the window.\<close>

definition side_step :: "ladder \<Rightarrow> level \<Rightarrow> ladder \<Rightarrow> bool" where
  "side_step L l L' \<longleftrightarrow>
     tickSize L' = tickSize L \<and> halfRange L' = halfRange L \<and> initialized L' \<and>
     basePrice L' = (if in_window L (fst l) then basePrice L else center L (fst l)) \<and>
     qty_at L' = (\<lambda>x. if x = fst l then snd l else if in_window L' x then qty_at L x else 0)"

definition moved :: "ladder \<Rightarrow> int \<Rightarrow> bool" where
  "moved L p \<longleftrightarrow> initialized L \<and> \<not> in_window L p"

lemma same_window:
  "basePrice L' = basePrice L \<Longrightarrow> tickSize L' = tickSize L \<Longrightarrow> slots L' = slots L \<Longrightarrow> initialized L' = initialized L \<Longrightarrow>
   in_window L' x = in_window L x"
  by (simp add: in_window_def)

lemma side_set:
  assumes L: "side_inv L" and l: "level_ok L (p, q)"
  obtains L' where "ladder_set L p q = Some (L', moved L p)" "side_inv L'" "side_step L (p, q) L'"
proof -
  have ok: "0 < p" "p \<le> 2 ^ 60" "tickSize L dvd p" "0 \<le> q" "q \<le> LLONG_MAX"
    using l unfolding level_ok_def fst_conv snd_conv by auto
  have "price_ok L p" using ok(1,2) by (simp add: price_ok_def)
  from set_law [OF side_invD(1) [OF L] this ok(4,5)]
  obtain L' where L': "ladder_set L p q = Some (L', initialized L \<and> \<not> in_window L p)"
    "ladder_inv L'" "in_window L' p" "tickSize L' = tickSize L" "halfRange L' = halfRange L"
    "basePrice L' = (if in_window L p then basePrice L else center L p)"
    "\<And>x. qty_at L' x = (if x = tick_floor L p then q else if in_window L' x then qty_at L x else 0)"
    by blast
  have qty: "qty_at L' = (\<lambda>x. if x = p then q else if in_window L' x then qty_at L x else 0)"
    using L'(7) ok(3) by (intro ext) simp
  have pos: "0 < x \<and> x \<le> 2 ^ 60" if "0 < qty_at L' x" for x
  proof (cases "x = p")
    case False
    then have "0 < qty_at L x" using that unfolding qty by (simp only: if_False split: if_splits)
    then show ?thesis using L unfolding side_inv_def by blast
  qed (use ok(1,2) in \<open>simp only: simp_thms\<close>)
  then have inv': "side_inv L'" using L'(2) by (simp only: side_inv_def) blast
  have "initialized L'" using L'(3) by (simp add: in_window_def)
  with L'(4,5,6) qty have "side_step L (p, q) L'" by (simp only: side_step_def fst_conv snd_conv)
  with inv' show thesis by (rule that [OF L'(1) [folded moved_def]])
qed

text \<open>Without a move of the window, the level map changes at the price alone.\<close>

lemma side_step_upd:
  assumes L: "side_inv L" and L': "side_step L l L'" "side_inv L'" and stay: "\<not> moved L (fst l)"
  shows "qty_at L' = (qty_at L)(fst l := snd l)"
proof -
  have "(if in_window L' x then qty_at L x else 0) = qty_at L x" for x
  proof (cases "in_window L (fst l)")
    case True
    have "slots L' = slots L"
      using L'(1) ladder_inv_basics(3) [OF side_invD(1) [OF L]] ladder_inv_basics(3) [OF side_invD(1) [OF L'(2)]]
      by (simp add: side_step_def)
    then have "in_window L' x = in_window L x"
      using True L'(1) by (intro same_window) (simp_all add: side_step_def in_window_def)
    then show ?thesis by (simp add: qty_at_def)
  next
    case False
    then have "\<not> initialized L" using stay by (simp add: moved_def)
    then show ?thesis by (simp add: qty_at_def in_window_def)
  qed
  then show ?thesis using L'(1) by (intro ext) (simp add: side_step_def)
qed

text \<open>
  The emitted changes of one level: the change itself, and an eviction from the view or a
  replacement into it. \<open>X\<close> and \<open>X'\<close> are the viewed prices before and after.
\<close>

definition change_deltas ::
  "event_kind \<Rightarrow> bool \<Rightarrow> (int \<Rightarrow> int) \<Rightarrow> (int \<Rightarrow> int) \<Rightarrow> level \<Rightarrow> int \<Rightarrow> int set \<Rightarrow> int set \<Rightarrow> level_delta list \<Rightarrow> bool"
  where
  "change_deltas kind isBid m m' l prev X X' ds \<longleftrightarrow>
     (\<exists>more. ds = \<lparr>d_price = fst l, d_newQty = snd l, d_deltaQty = snd l - prev, d_isBid = isBid,
                   d_wasInView = fst l \<in> X, d_inOfiView = fst l \<in> X', d_kind = kind\<rparr> # more \<and>
       ((more = [] \<and> X' - {fst l} = X - {fst l}) \<or>
        (\<exists>e. e \<in> X \<and> e \<noteq> fst l \<and> fst l \<notin> X \<and> X' = insert (fst l) (X - {e}) \<and>
           more = [\<lparr>d_price = e, d_newQty = m e, d_deltaQty = - m e, d_isBid = isBid,
                    d_wasInView = True, d_inOfiView = False, d_kind = secondaryKind kind\<rparr>]) \<or>
        (\<exists>r. r \<notin> X \<and> r \<noteq> fst l \<and> fst l \<in> X \<and> X' = insert r (X - {fst l}) \<and>
           more = [\<lparr>d_price = r, d_newQty = m' r, d_deltaQty = m' r, d_isBid = isBid,
                    d_wasInView = False, d_inOfiView = True, d_kind = secondaryKind kind\<rparr>])))"

lemma viewDeltas_law:
  assumes "view_step m m' p X X' c" and "\<And>x. x \<in> X \<Longrightarrow> x \<noteq> 0 \<and> 0 \<le> m x \<and> m x \<le> LLONG_MAX" and "m' 0 = 0"
  shows "\<exists>more. viewDeltas c isBid kind = Some more \<and>
    ((more = [] \<and> X' - {p} = X - {p}) \<or>
     (\<exists>e. e \<in> X \<and> e \<noteq> p \<and> p \<notin> X \<and> X' = insert p (X - {e}) \<and>
        more = [\<lparr>d_price = e, d_newQty = m e, d_deltaQty = - m e, d_isBid = isBid,
                 d_wasInView = True, d_inOfiView = False, d_kind = secondaryKind kind\<rparr>]) \<or>
     (\<exists>r. r \<notin> X \<and> r \<noteq> p \<and> p \<in> X \<and> X' = insert r (X - {p}) \<and>
        more = [\<lparr>d_price = r, d_newQty = m' r, d_deltaQty = m' r, d_isBid = isBid,
                 d_wasInView = False, d_inOfiView = True, d_kind = secondaryKind kind\<rparr>]))"
proof -
  have ll: "in_ll (- m x)" if "x \<in> X" for x
    using assms(2) [OF that] by (intro in_llI) (auto simp: int_limits)
  from assms(1) show ?thesis unfolding view_step_def
  proof (elim disjE exE conjE)
    assume "c = no_change" "X' - {p} = X - {p}"
    then show ?thesis by (simp add: viewDeltas_def no_change_def)
  next
    fix e assume "e \<in> X" "e \<noteq> p" "p \<notin> X" "X' = insert p (X - {e})"
      "c = no_change\<lparr>evictedPrice := e, evictedQty := m e\<rparr>"
    then show ?thesis using assms(2) [of e] ll [of e]
      by (simp add: viewDeltas_def no_change_def ll_Some)
  next
    fix r assume "r \<notin> X" "r \<noteq> p" "0 < m' r" "p \<in> X" "X' = insert r (X - {p})"
      "c = no_change\<lparr>replacementPrice := r, replacementQty := m' r\<rparr>"
    moreover from this have "r \<noteq> 0" using assms(3) by auto
    ultimately show ?thesis by (simp add: viewDeltas_def no_change_def)
  qed
qed

section \<open>One level change keeps the book\<close>

text \<open>
  A dropped level changes nothing. Otherwise the side takes the level, its view is again
  that of the best levels, the other side is untouched and the deltas are those of the
  change; when the window moves, they are relative to the rebuilt view.
\<close>

definition level_change ::
  "event_kind \<Rightarrow> bool \<Rightarrow> orderbook \<Rightarrow> level \<Rightarrow> level_delta list \<Rightarrow> orderbook \<Rightarrow> bool" where
  "level_change kind isBid b l ds b' \<longleftrightarrow>
     (let L = sideLadder isBid b; L' = sideLadder isBid b';
          m = qty_at L; m' = qty_at L'; prev = qty_at L (fst l);
          X = fst ` set (ofiSide isBid b); X' = fst ` set (ofiSide isBid b')
      in if deep isBid L (fst l) then ds = [] \<and> b' = b
         else side_step L l L' \<and> b' = putView isBid (ofiSide isBid b') (putLadder isBid L' b) \<and>
           (if snd l = prev then ds = []
            else if moved L (fst l) then change_deltas kind isBid m' m' l prev X' X' ds
            else change_deltas kind isBid m m' l prev X X' ds))"

lemma view_prices:
  assumes "side_inv L" "top_view bt n (qty_at L) V" "x \<in> fst ` set V"
  shows "0 < qty_at L x" "x \<noteq> 0 \<and> 0 \<le> qty_at L x \<and> qty_at L x \<le> LLONG_MAX"
proof -
  show pos: "0 < qty_at L x" using top_viewD(3,4) [OF assms(2)] assms(3) by fastforce
  show "x \<noteq> 0 \<and> 0 \<le> qty_at L x \<and> qty_at L x \<le> LLONG_MAX"
    using side_invD(2) [OF assms(1) pos] qty_at_le [OF side_invD(1) [OF assms(1)], of x] pos by auto
qed

lemma no_qty_at_0: "side_inv L \<Longrightarrow> qty_at L 0 = 0"
  using side_invD(1,2) [of L] qty_at_nonneg [of L 0] by force

lemma put_self [simp]: "putLadder s (sideLadder s b) b = b" "putView s (ofiSide s b) b = b"
  by (simp_all add: putLadder_def sideLadder_def putView_def ofiSide_def)

lemma book_inv_put:
  assumes "book_inv b" "side_inv L" "top_view (better s) (ofiDepth b) (qty_at L) V"
  shows "book_inv (putView s V (putLadder s L b))"
  using assms by (auto simp: book_inv_def)

text \<open>The view after the ladder was written: maintained, or rebuilt and then maintained.\<close>

lemma view_after_set:
  assumes b: "book_inv b" and l: "level_ok (sideLadder s b) (p, q)"
    and L': "side_inv L'" "side_step (sideLadder s b) (p, q) L'"
    and b2: "b2 = (if moved (sideLadder s b) p then putView s V0 (putLadder s L' b) else putLadder s L' b)"
    and V0: "top_view (better s) (ofiDepth b) (qty_at L') V0"
  obtains V c where "updateOfiView p q s b2 = Some (c, putView s V b2)"
    "top_view (better s) (ofiDepth b) (qty_at L') V"
    "moved (sideLadder s b) p \<Longrightarrow> V = V0 \<and> view_step (qty_at L') (qty_at L') p (fst ` set V0) (fst ` set V0) c"
    "\<not> moved (sideLadder s b) p \<Longrightarrow>
       view_step (qty_at (sideLadder s b)) (qty_at L') p (fst ` set (ofiSide s b)) (fst ` set V) c"
proof (cases "moved (sideLadder s b) p")
  case True
  have m: "qty_at L' = (qty_at L')(p := q)" using L'(2) by (auto simp: side_step_def)
  have q: "0 \<le> q" using l by (simp add: level_ok_def)
  obtain V c where V: "updateSideView (better s) (bestOf s L') (walkOf s L') (ladder_get L') (ofiDepth b) V0 p q = Some (V, c)"
    "top_view (better s) (ofiDepth b) (qty_at L') V" "view_step (qty_at L') (qty_at L') p (fst ` set V0) (fst ` set V) c"
    using side.updateSideView_law [OF L'(1) m q book_invD(1) [OF b] V0] by blast
  have "V = V0" by (rule side.top_view_unique [OF V(2) V0])
  with V True show thesis by (intro that [of c V]) (simp_all add: b2 updateOfiView_side)
next
  case False
  have m: "qty_at L' = (qty_at (sideLadder s b))(p := q)"
    using side_step_upd [OF book_invD(2) [OF b] L'(2,1)] False by simp
  have q: "0 \<le> q" using l by (simp add: level_ok_def)
  obtain V c where V: "updateSideView (better s) (bestOf s L') (walkOf s L') (ladder_get L') (ofiDepth b) (ofiSide s b) p q = Some (V, c)"
    "top_view (better s) (ofiDepth b) (qty_at L') V"
    "view_step (qty_at (sideLadder s b)) (qty_at L') p (fst ` set (ofiSide s b)) (fst ` set V) c"
    using side.updateSideView_law [OF L'(1) m q book_invD(1,4) [OF b]] by blast
  with False show thesis by (intro that [of c V]) (simp_all add: b2 updateOfiView_side)
qed

lemma applyLevelChange_law:
  assumes b: "book_inv b" and l: "level_ok (sideLadder s b) l"
  obtains ds b' where "applyLevelChange kind s (out, b) l = Some (out @ ds, b')" "book_inv b'"
    "level_change kind s b l ds b'"
proof -
  obtain p q where l_eq: "l = (p, q)" by (cases l)
  let ?L = "sideLadder s b" and ?V = "ofiSide s b"
  note L = book_invD(2) [OF b, of s] and linv = book_invD(3) [OF b, of s]
  have p: "\<bar>p\<bar> \<le> 2 ^ 60" "tickSize ?L dvd p" and q: "0 \<le> q" "q \<le> LLONG_MAX"
    using l unfolding l_eq level_ok_def fst_conv snd_conv by auto
  note start = applyLevelChange_def [of kind s, THEN fun_cong, of "(out, b)", THEN fun_cong, of "(p, q)",
      unfolded prod.case get_aligned [OF linv p] isDeep_law [OF linv p(1)] Option.bind_lunit]
  show thesis
  proof (cases "deep s ?L p")
    case True
    then have "applyLevelChange kind s (out, b) l = Some (out @ [], b)" unfolding l_eq start by simp
    then show thesis by (rule that [OF _ b]) (simp add: level_change_def l_eq True)
  next
    case notDeep: False
    obtain L' where L': "ladder_set ?L p q = Some (L', moved ?L p)" "side_inv L'" "side_step ?L (p, q) L'"
      by (rule side_set [OF L l [unfolded l_eq]])
    obtain V0 where V0: "rebuildSide (bestOf s L') (walkOf s L') (ladder_get L') (ofiDepth b) = Some V0"
      "top_view (better s) (ofiDepth b) (qty_at L') V0"
      using side.rebuild_view [OF L'(2)] by blast
    define b2 where "b2 = (if moved ?L p then putView s V0 (putLadder s L' b) else putLadder s L' b)"
    have b2: "(if moved ?L p then rebuildOfiSide s (putLadder s L' b) else Some (putLadder s L' b)) = Some b2"
      by (simp add: b2_def rebuildOfiSide_side V0(1))
    have delta: "ll (q - qty_at ?L p) = Some (q - qty_at ?L p)"
      using q qty_at_nonneg [OF linv, of p] qty_at_le [OF linv, of p] by (intro ll_Some in_llI) (auto simp: int_limits)
    have run: "applyLevelChange kind s (out, b) l =
      (if q - qty_at ?L p = 0 then Some (out, b2) else do {
         (c, b3) \<leftarrow> updateOfiView p q s b2;
         more \<leftarrow> viewDeltas c s kind;
         Some (out @ \<lparr>d_price = p, d_newQty = q, d_deltaQty = q - qty_at ?L p, d_isBid = s,
                      d_wasInView = inView p (ofiSide s b2), d_inOfiView = inView p (ofiSide s b3),
                      d_kind = kind\<rparr> # more, b3) })"
      unfolding l_eq start L'(1) using notDeep by (simp add: Let_def b2 delta)
    have inView: "inView p v = (p \<in> fst ` set v)" for v by (auto simp: inView_def list_ex_iff)
    show thesis
    proof (cases "q = qty_at ?L p")
      case True
      let ?V' = "if moved ?L p then V0 else ?V"
      have "\<not> moved ?L p \<Longrightarrow> qty_at L' = qty_at ?L"
        using side_step_upd [OF L L'(3,2)] True by (simp only: fst_conv snd_conv) (simp add: fun_upd_triv)
      then have V': "top_view (better s) (ofiDepth b) (qty_at L') ?V'" using V0(2) book_invD(4) [OF b] by auto
      have "b2 = putView s ?V' (putLadder s L' b)" using put_self(2) [of s "putLadder s L' b"] by (simp add: b2_def)
      then show thesis using book_inv_put [OF b L'(2) V'] run True notDeep L'(3)
        by (intro that [of "[]" b2]) (simp_all add: level_change_def l_eq)
    next
      case changed: False
      from view_after_set [OF b l [unfolded l_eq] L'(2,3) b2_def V0(2)]
      obtain V c where V: "updateOfiView p q s b2 = Some (c, putView s V b2)"
        "top_view (better s) (ofiDepth b) (qty_at L') V"
        "moved ?L p \<Longrightarrow> V = V0 \<and> view_step (qty_at L') (qty_at L') p (fst ` set V0) (fst ` set V0) c"
        "\<not> moved ?L p \<Longrightarrow> view_step (qty_at ?L) (qty_at L') p (fst ` set ?V) (fst ` set V) c"
        by blast
      let ?b3 = "putView s V (putLadder s L' b)"
      have b3: "putView s V b2 = ?b3" by (simp add: b2_def)
      define m where "m = (if moved ?L p then qty_at L' else qty_at ?L)"
      define X where "X = fst ` set (if moved ?L p then V0 else ?V)"
      have X: "fst ` set (ofiSide s b2) = X" by (simp add: b2_def X_def)
      have step: "view_step m (qty_at L') p X (fst ` set V) c" using V(3,4) by (simp add: m_def X_def)
      have "x \<noteq> 0 \<and> 0 \<le> m x \<and> m x \<le> LLONG_MAX" if "x \<in> X" for x
        using that view_prices(2) [OF L book_invD(4) [OF b]] view_prices(2) [OF L'(2) V0(2)]
        unfolding m_def X_def by (cases "moved ?L p") simp_all
      from viewDeltas_law [OF step this no_qty_at_0 [OF L'(2)], of s kind]
      obtain more where more: "viewDeltas c s kind = Some more" and
        cd: "change_deltas kind s m (qty_at L') l (qty_at ?L p) X (fst ` set V)
          (\<lparr>d_price = p, d_newQty = q, d_deltaQty = q - qty_at ?L p, d_isBid = s,
            d_wasInView = p \<in> X, d_inOfiView = p \<in> fst ` set V, d_kind = kind\<rparr> # more)"
        unfolding change_deltas_def l_eq fst_conv snd_conv by blast
      show thesis
      proof (rule that)
        show "applyLevelChange kind s (out, b) l = Some (out @
          \<lparr>d_price = p, d_newQty = q, d_deltaQty = q - qty_at ?L p, d_isBid = s,
            d_wasInView = p \<in> X, d_inOfiView = p \<in> fst ` set V, d_kind = kind\<rparr> # more, ?b3)"
          unfolding run V(1) b3 using changed more by (simp add: inView X)
        show "book_inv ?b3" by (rule book_inv_put [OF b L'(2) V(2)])
        show "level_change kind s b l (\<lparr>d_price = p, d_newQty = q, d_deltaQty = q - qty_at ?L p, d_isBid = s,
            d_wasInView = p \<in> X, d_inOfiView = p \<in> fst ` set V, d_kind = kind\<rparr> # more) ?b3"
          using cd notDeep L'(3) changed V(3) unfolding level_change_def Let_def l_eq fst_conv snd_conv
          by (cases "moved ?L p") (simp_all add: m_def X_def)
      qed
    qed
  qed
qed

end
