(* ===== verification/Book_Laws.thy ===== *)
theory Book_Laws
  imports Book_Side
begin

text \<open>
  Sequences of level changes. \<open>level_run\<close> is the relation of the loops of
  \<open>applyUpdateCore\<close> and \<open>applyDelta\<close>: every change is a \<open>level_change\<close>. From it follow, by
  rule induction, what a batch leaves untouched, what it does to the map and the window of its
  side (\<open>w_level\<close>), and, while it moves no window of a side that holds levels, that the deltas
  account for the change of the viewed volume and that a replay of them gives the new levels.
\<close>

section \<open>Runs of level changes\<close>

inductive level_run ::
  "event_kind \<Rightarrow> bool \<Rightarrow> orderbook \<Rightarrow> level list \<Rightarrow> level_delta list \<Rightarrow> orderbook \<Rightarrow> bool" for kind s where
  no_change: "level_run kind s b [] [] b"
| change: "book_inv b \<Longrightarrow> level_ok (sideLadder s b) l \<Longrightarrow> level_change kind s b l ds b' \<Longrightarrow> book_inv b' \<Longrightarrow>
    level_run kind s b' ls ds' b'' \<Longrightarrow> level_run kind s b (l # ls) (ds @ ds') b''"

inductive_cases level_runE: "level_run kind s b (l # ls) ds b'"
inductive_simps level_run_Nil [simp]: "level_run kind s b [] ds b'"

text \<open>The book apart from one side, and the grid of that side.\<close>

definition same_but :: "bool \<Rightarrow> orderbook \<Rightarrow> orderbook \<Rightarrow> bool" where
  "same_but s b b' \<longleftrightarrow> sideLadder (\<not> s) b' = sideLadder (\<not> s) b \<and> ofiSide (\<not> s) b' = ofiSide (\<not> s) b \<and>
     ofiDepth b' = ofiDepth b \<and> lastUpdateId b' = lastUpdateId b \<and> snapshotApplied b' = snapshotApplied b \<and>
     tickSize (sideLadder s b') = tickSize (sideLadder s b) \<and>
     halfRange (sideLadder s b') = halfRange (sideLadder s b)"

lemma same_but_refl [simp]: "same_but s b b"
  by (simp add: same_but_def)

lemma same_but_trans [trans]: "same_but s b b' \<Longrightarrow> same_but s b' b'' \<Longrightarrow> same_but s b b''"
  by (simp add: same_but_def)

lemma level_change_same: "level_change kind s b l ds b' \<Longrightarrow> same_but s b b'"
proof -
  assume c: "level_change kind s b l ds b'"
  show ?thesis
  proof (cases "deep s (sideLadder s b) (fst l)")
    case False
    then have b': "b' = putView s (ofiSide s b') (putLadder s (sideLadder s b') b)"
      and L: "side_step (sideLadder s b) l (sideLadder s b')"
      using c by (simp_all add: level_change_def Let_def)
    have "sideLadder (\<not> s) b' = sideLadder (\<not> s) b" "ofiSide (\<not> s) b' = ofiSide (\<not> s) b"
      "ofiDepth b' = ofiDepth b" "lastUpdateId b' = lastUpdateId b" "snapshotApplied b' = snapshotApplied b"
      by (subst b'; simp)+
    with L show ?thesis by (simp add: same_but_def side_step_def)
  qed (use c in \<open>simp add: level_change_def\<close>)
qed

lemma level_run_same: "level_run kind s b ls ds b' \<Longrightarrow> same_but s b b'"
  by (induction rule: level_run.induct) (auto intro: same_but_trans level_change_same)

lemma level_ok_tick: "tickSize L' = tickSize L \<Longrightarrow> level_ok L' l \<longleftrightarrow> level_ok L l"
  by (simp add: level_ok_def)

text \<open>The loop never faults on levels that the ladder stores, and it is such a run.\<close>

lemma run_exists:
  assumes "book_inv b" "\<forall>l \<in> set ls. level_ok (sideLadder s b) l"
  obtains ds b' where "foldM (applyLevelChange kind s) (out, b) ls = Some (out @ ds, b')"
    "level_run kind s b ls ds b'" "book_inv b'"
proof -
  have "\<exists>ds b'. foldM (applyLevelChange kind s) (out, b) ls = Some (out @ ds, b') \<and>
     level_run kind s b ls ds b' \<and> book_inv b'"
    using assms
  proof (induction ls arbitrary: out b)
    case Nil
    then show ?case by simp
  next
    case (Cons l ls)
    then have ok: "level_ok (sideLadder s b) l" by simp
    obtain ds b1 where 1: "applyLevelChange kind s (out, b) l = Some (out @ ds, b1)" "book_inv b1"
      "level_change kind s b l ds b1"
      by (rule applyLevelChange_law [OF Cons.prems(1) ok])
    have "tickSize (sideLadder s b1) = tickSize (sideLadder s b)"
      using level_change_same [OF 1(3)] by (simp add: same_but_def)
    from level_ok_tick [OF this]
    have "\<forall>l \<in> set ls. level_ok (sideLadder s b1) l" using Cons.prems(2) by simp
    from Cons.IH [OF 1(2) this, of "out @ ds"]
    obtain ds' b' where 2: "foldM (applyLevelChange kind s) (out @ ds, b1) ls = Some ((out @ ds) @ ds', b')"
      "level_run kind s b1 ls ds' b'" "book_inv b'" by blast
    have "level_run kind s b (l # ls) (ds @ ds') b'"
      by (rule level_run.change [OF Cons.prems(1) ok 1(3,2) 2(2)])
    moreover have "foldM (applyLevelChange kind s) (out, b) (l # ls) = Some (out @ ds @ ds', b')"
      by (simp only: foldM.simps 1(1) 2(1) Option.bind_lunit append_assoc)
    ultimately show ?case using 2(3) by blast
  qed
  with that show thesis by blast
qed

section \<open>The deltas account for the viewed volume\<close>

text \<open>The order-flow contribution of a delta: its quantity change if the level is or was viewed.\<close>

definition flagged :: "level_delta \<Rightarrow> bool" where
  "flagged d \<longleftrightarrow> d_wasInView d \<or> d_inOfiView d"

definition view_delta :: "level_delta list \<Rightarrow> int" where
  "view_delta ds = sum_list (map d_deltaQty (filter flagged ds))"

lemma view_delta_simps [simp]:
  "view_delta [] = 0" "view_delta (ds @ ds') = view_delta ds + view_delta ds'"
  "view_delta (d # ds) = (if flagged d then d_deltaQty d else 0) + view_delta ds"
  by (simp_all add: view_delta_def)

lemma view_sum_set:
  assumes "top_view (better s) n m V"
  shows "view_sum V = sum m (fst ` set V)"
proof -
  have "distinct (map fst V)" by (rule side.sorted_distinct [OF top_viewD(1) [OF assms]])
  moreover have "map snd V = map m (map fst V)" using top_viewD(3) [OF assms] by simp
  ultimately show ?thesis unfolding view_sum_def by (simp add: sum_list_distinct_conv_sum_set del: map_map)
qed

text \<open>A viewed level only leaves the view without a report when it is removed.\<close>

lemma stays_viewed:
  assumes V: "top_view (better s) n m V" and V': "top_view (better s) n m' V'"
    and same: "\<And>x. x \<noteq> p \<Longrightarrow> m' x = m x" and p: "p \<in> fst ` set V" "0 < m' p"
  shows "p \<in> fst ` set V'"
proof (rule ccontr)
  assume out: "p \<notin> fst ` set V'"
  have "fst ` set V' \<subseteq> fst ` set V - {p}"
  proof
    fix x assume x: "x \<in> fst ` set V'"
    have px: "better s x p" by (rule top_viewD(6) [OF V' p(2) out x])
    have "0 < m' x" using top_viewD(3,4) [OF V'] x by fastforce
    then have "0 < m x" using same x out by metis
    then have "x \<in> fst ` set V" using top_viewD(6) [OF V _ _ p(1)] side.better_asym [OF px] by blast
    then show "x \<in> fst ` set V - {p}" using x out by blast
  qed
  then have "fst ` set V' \<subset> fst ` set V" using p(1) by blast
  then have "card (fst ` set V') < card (fst ` set V)" by (intro psubset_card_mono) auto
  moreover have "card (fst ` set W) = length W" if "top_view (better s) n k W" for W k
    using side.sorted_distinct [OF top_viewD(1) [OF that]] by (metis distinct_card length_map set_map)
  ultimately show False using top_viewD(5) [OF V' p(2) out] top_viewD(2) [OF V] V V' by simp
qed

lemma change_deltas_sum:
  assumes c: "change_deltas kind s m m' (p, q) (m p) X X' ds" and m': "m' = m(p := q)"
    and fin: "finite X" "finite X'"
    and leave: "p \<in> X \<Longrightarrow> p \<notin> X' \<Longrightarrow> q = 0" and enter: "p \<notin> X \<Longrightarrow> p \<in> X' \<Longrightarrow> m p = 0"
  shows "view_delta ds = sum m' X' - sum m X"
proof -
  have X: "sum m X = sum m (X - {p}) + (if p \<in> X then m p else 0)" using fin(1) by (simp add: sum.remove)
  have X': "sum m' X' = sum m (X' - {p}) + (if p \<in> X' then q else 0)"
  proof -
    have "sum m' (X' - {p}) = sum m (X' - {p})" by (rule sum.cong) (auto simp: m')
    moreover have "sum m' X' = sum m' (X' - {p}) + (if p \<in> X' then m' p else 0)"
      using fin(2) by (simp add: sum.remove)
    ultimately show ?thesis by (simp add: m')
  qed
  from c show ?thesis unfolding change_deltas_def fst_conv snd_conv
  proof (elim exE conjE disjE)
    fix more assume "more = []" "X' - {p} = X - {p}"
      "ds = \<lparr>d_price = p, d_newQty = q, d_deltaQty = q - m p, d_isBid = s, d_wasInView = p \<in> X,
             d_inOfiView = p \<in> X', d_kind = kind\<rparr> # more"
    then show ?thesis using leave enter X X' by (auto simp: flagged_def)
  next
    fix more e assume e: "e \<in> X" "e \<noteq> p" "p \<notin> X" "X' = insert p (X - {e})"
      "ds = \<lparr>d_price = p, d_newQty = q, d_deltaQty = q - m p, d_isBid = s, d_wasInView = p \<in> X,
             d_inOfiView = p \<in> X', d_kind = kind\<rparr> # more"
      "more = [\<lparr>d_price = e, d_newQty = m e, d_deltaQty = - m e, d_isBid = s,
                 d_wasInView = True, d_inOfiView = False, d_kind = secondaryKind kind\<rparr>]"
    then have "X' - {p} = X - {e}" "sum m (X - {e}) = sum m X - m e" "m p = 0" "X - {p} = X"
      using fin(1) enter by (auto simp: sum_diff1)
    with e show ?thesis using X' by (simp add: flagged_def)
  next
    fix more r assume r: "r \<notin> X" "r \<noteq> p" "p \<in> X" "X' = insert r (X - {p})"
      "ds = \<lparr>d_price = p, d_newQty = q, d_deltaQty = q - m p, d_isBid = s, d_wasInView = p \<in> X,
             d_inOfiView = p \<in> X', d_kind = kind\<rparr> # more"
      "more = [\<lparr>d_price = r, d_newQty = m' r, d_deltaQty = m' r, d_isBid = s,
                 d_wasInView = False, d_inOfiView = True, d_kind = secondaryKind kind\<rparr>]"
    then have "X' - {p} = insert r (X - {p})" "q = 0" "m' r = m r" "sum m (insert r (X - {p})) = m r + sum m (X - {p})"
      using fin(1) leave by (auto simp: m')
    with r show ?thesis using X X' by (simp add: flagged_def)
  qed
qed

text \<open>One change that does not move the window, and one that does.\<close>

lemma level_change_view_delta:
  assumes b: "book_inv b" "book_inv b'" and c: "level_change kind s b l ds b'"
    and stay: "\<not> moved (sideLadder s b) (fst l)"
  shows "view_delta ds = view_sum (ofiSide s b') - view_sum (ofiSide s b)"
proof (cases "deep s (sideLadder s b) (fst l) \<or> snd l = qty_at (sideLadder s b) (fst l)")
  case False
  let ?m = "qty_at (sideLadder s b)" and ?m' = "qty_at (sideLadder s b')"
  have step: "side_step (sideLadder s b) l (sideLadder s b')"
    and cd: "change_deltas kind s ?m ?m' (fst l, snd l) (?m (fst l)) (fst ` set (ofiSide s b)) (fst ` set (ofiSide s b')) ds"
    using c False stay by (simp_all add: level_change_def Let_def)
  have m': "?m' = ?m(fst l := snd l)" by (rule side_step_upd [OF book_invD(2) [OF b(1)] step book_invD(2) [OF b(2)] stay])
  have V: "top_view (better s) (ofiDepth b) ?m (ofiSide s b)" "top_view (better s) (ofiDepth b) ?m' (ofiSide s b')"
    using book_invD(4) [OF b(1)] book_invD(4) [OF b(2), of s] level_change_same [OF c] by (simp_all add: same_but_def)
  have nonneg: "0 \<le> ?m x" "0 \<le> ?m' x" for x
    using qty_at_nonneg [OF book_invD(3) [OF b(1)]] qty_at_nonneg [OF book_invD(3) [OF b(2)]] by auto
  have "view_delta ds = sum ?m' (fst ` set (ofiSide s b')) - sum ?m (fst ` set (ofiSide s b))"
  proof (rule change_deltas_sum [OF cd m'])
    show "snd l = 0" if "fst l \<in> fst ` set (ofiSide s b)" "fst l \<notin> fst ` set (ofiSide s b')"
    proof (rule ccontr)
      assume "snd l \<noteq> 0"
      then have "0 < ?m' (fst l)" using nonneg(2) [of "fst l"] by (simp add: m')
      then show False using stays_viewed [OF V _ that(1)] that(2) by (simp add: m')
    qed
    show "?m (fst l) = 0" if "fst l \<notin> fst ` set (ofiSide s b)" "fst l \<in> fst ` set (ofiSide s b')"
    proof (rule ccontr)
      assume "?m (fst l) \<noteq> 0"
      then have "0 < ?m (fst l)" using nonneg(1) [of "fst l"] by simp
      then show False using stays_viewed [OF V(2,1) _ that(2)] that(1) by (simp add: m')
    qed
  qed simp_all
  then show ?thesis using view_sum_set [OF V(1)] view_sum_set [OF V(2)] by simp
next
  case True
  show ?thesis
  proof (cases "deep s (sideLadder s b) (fst l)")
    case notDeep: False
    then have q: "snd l = qty_at (sideLadder s b) (fst l)" using True by blast
    have step: "side_step (sideLadder s b) l (sideLadder s b')" and ds: "ds = []"
      using c q notDeep by (simp_all add: level_change_def Let_def)
    have m': "qty_at (sideLadder s b') = qty_at (sideLadder s b)"
      using side_step_upd [OF book_invD(2) [OF b(1)] step book_invD(2) [OF b(2)] stay] q by (simp add: fun_upd_triv)
    have "ofiSide s b' = ofiSide s b"
    proof (rule side.top_view_unique)
      show "top_view (better s) (ofiDepth b) (qty_at (sideLadder s b)) (ofiSide s b)" by (rule book_invD(4) [OF b(1)])
      show "top_view (better s) (ofiDepth b) (qty_at (sideLadder s b)) (ofiSide s b')"
        using book_invD(4) [OF b(2), of s] level_change_same [OF c] by (simp add: same_but_def m')
    qed
    then show ?thesis by (simp add: ds)
  qed (use c in \<open>simp add: level_change_def\<close>)
qed

section \<open>The map of a side and its window\<close>

text \<open>
  What a side stands for: the quantities by price and the window they lie in. \<open>w_level\<close> is the
  rule by which a level of a message changes it: a level beyond the far end of a window that
  holds levels is dropped; a level in the window is overwritten; any other level moves the
  window, which is centred on its price and keeps the levels it then contains.
\<close>

record window_map =
  w_tick :: int
  w_half :: int
  w_init :: bool
  w_base :: int
  w_qty :: "int \<Rightarrow> int"

definition window_of :: "ladder \<Rightarrow> window_map" where
  "window_of L = \<lparr>w_tick = tickSize L, w_half = halfRange L, w_init = initialized L, w_base = basePrice L, w_qty = qty_at L\<rparr>"

definition w_in :: "window_map \<Rightarrow> int \<Rightarrow> bool" where
  "w_in W p \<longleftrightarrow> w_init W \<and> w_base W \<le> p \<and> (p - w_base W) div w_tick W \<le> 2 * w_half W"

definition w_holds :: "window_map \<Rightarrow> bool" where
  "w_holds W \<longleftrightarrow> (\<exists>p. 0 < w_qty W p)"

definition w_deep :: "bool \<Rightarrow> window_map \<Rightarrow> int \<Rightarrow> bool" where
  "w_deep isBid W p \<longleftrightarrow> w_holds W \<and> \<not> w_in W p \<and>
     (if isBid then p < w_base W else w_base W + 2 * w_half W * w_tick W < p)"

definition w_centred :: "int \<Rightarrow> window_map \<Rightarrow> window_map" where
  "w_centred p W = (if w_in W p then W
     else W\<lparr>w_init := True, w_base := (p sdiv w_tick W) * w_tick W - w_half W * w_tick W\<rparr>)"

definition w_level :: "bool \<Rightarrow> window_map \<Rightarrow> level \<Rightarrow> window_map" where
  "w_level isBid W l =
     (if w_deep isBid W (fst l) then W
      else let W' = w_centred (fst l) W
           in W'\<lparr>w_qty := \<lambda>x. if x = fst l then snd l else if w_in W' x then w_qty W x else 0\<rparr>)"

text \<open>
  The levels of a message, in their order, that never move the window of a side holding
  levels: each lies in the window, or is dropped, or is the first of an empty side.
\<close>

definition w_moves :: "bool \<Rightarrow> window_map \<Rightarrow> int \<Rightarrow> bool" where
  "w_moves isBid W p \<longleftrightarrow> w_holds W \<and> \<not> w_in W p \<and> \<not> w_deep isBid W p"

fun window_kept :: "bool \<Rightarrow> window_map \<Rightarrow> level list \<Rightarrow> bool" where
  "window_kept isBid W [] \<longleftrightarrow> True"
| "window_kept isBid W (l # ls) \<longleftrightarrow> \<not> w_moves isBid W (fst l) \<and> window_kept isBid (w_level isBid W l) ls"

lemma window_of_simps:
  assumes "ladder_inv L"
  shows "w_in (window_of L) p = in_window L p" "w_holds (window_of L) \<longleftrightarrow> activeCount L \<noteq> 0"
    "w_deep s (window_of L) p = deep s L p"
proof -
  have s: "slots L = 2 * halfRange L + 1" using ladder_inv_basics(3) [OF assms] by simp
  show "w_in (window_of L) p = in_window L p" by (auto simp: w_in_def window_of_def in_window_def s)
  moreover show "w_holds (window_of L) \<longleftrightarrow> activeCount L \<noteq> 0"
    using activeCount_zero_iff [OF assms] qty_at_nonneg [OF assms]
    by (auto simp: w_holds_def window_of_def less_le)
  ultimately show "w_deep s (window_of L) p = deep s L p"
    by (simp add: w_deep_def deep_def) (simp add: window_of_def s)
qed

lemma w_centred_step:
  assumes "side_inv L" "side_inv L'" "side_step L l L'"
  shows "w_in (w_centred (fst l) (window_of L)) x = in_window L' x"
    "window_of L' = (w_centred (fst l) (window_of L))\<lparr>w_qty := qty_at L'\<rparr>"
proof -
  note i = side_invD(1) [OF assms(1)] side_invD(1) [OF assms(2)]
  have st: "tickSize L' = tickSize L" "halfRange L' = halfRange L" "initialized L'"
    "basePrice L' = (if in_window L (fst l) then basePrice L else center L (fst l))"
    using assms(3) by (simp_all add: side_step_def)
  have init: "in_window L (fst l) \<Longrightarrow> initialized L" by (simp add: in_window_def)
  show eq: "window_of L' = (w_centred (fst l) (window_of L))\<lparr>w_qty := qty_at L'\<rparr>"
    using st init by (simp add: w_centred_def window_of_simps(1) [OF i(1)]) (auto simp: window_of_def center_def)
  have "w_in (window_of L') x = w_in (w_centred (fst l) (window_of L)) x" unfolding eq by (simp add: w_in_def)
  then show "w_in (w_centred (fst l) (window_of L)) x = in_window L' x" by (simp add: window_of_simps(1) [OF i(2)])
qed

text \<open>Every change of a level follows the rule.\<close>

lemma level_change_refines:
  assumes b: "book_inv b" "book_inv b'" and c: "level_change kind s b l ds b'"
  shows "window_of (sideLadder s b') = w_level s (window_of (sideLadder s b)) l"
proof (cases "deep s (sideLadder s b) (fst l)")
  case True
  then have "b' = b" using c by (simp add: level_change_def)
  then show ?thesis using True by (simp add: w_level_def window_of_simps(3) [OF book_invD(3) [OF b(1)]])
next
  case False
  then have step: "side_step (sideLadder s b) l (sideLadder s b')" using c by (simp add: level_change_def Let_def)
  note w = w_centred_step [OF book_invD(2) [OF b(1)] book_invD(2) [OF b(2)] step]
  have "qty_at (sideLadder s b') = (\<lambda>x. if x = fst l then snd l
      else if w_in (w_centred (fst l) (window_of (sideLadder s b))) x then w_qty (window_of (sideLadder s b)) x else 0)"
    using step by (simp only: w(1) side_step_def) (simp add: window_of_def cong: if_cong)
  with False show ?thesis
    by (simp only: w(2) w_level_def window_of_simps(3) [OF book_invD(3) [OF b(1)]] Let_def if_False)
qed

lemma level_run_refines:
  "level_run kind s b ls ds b' \<Longrightarrow> window_of (sideLadder s b') = foldl (w_level s) (window_of (sideLadder s b)) ls"
  by (induction rule: level_run.induct) (simp_all add: level_change_refines)

text \<open>
  A level of the window of a side, or any level of an empty side, changes the map at its
  price alone, and the deltas account for the change of the viewed volume.
\<close>

definition upd_level :: "(int \<Rightarrow> int) \<Rightarrow> level \<Rightarrow> int \<Rightarrow> int" where
  "upd_level m l = m(fst l := snd l)"

lemma kept_level:
  assumes b: "book_inv b" "book_inv b'" and c: "level_change kind s b l ds b'"
    and k: "\<not> w_moves s (window_of (sideLadder s b)) (fst l)" and d: "\<not> deep s (sideLadder s b) (fst l)"
  shows "qty_at (sideLadder s b') = upd_level (qty_at (sideLadder s b)) l"
    "moved (sideLadder s b) (fst l) \<Longrightarrow> qty_at (sideLadder s b) x = 0"
proof -
  let ?L = "sideLadder s b"
  note i = book_invD(3) [OF b(1), of s]
  have step: "side_step ?L l (sideLadder s b')" using c d by (simp add: level_change_def Let_def)
  show z: "qty_at ?L x = 0" if "moved ?L (fst l)" for x
    using that k d activeCount_zero_iff [OF i] by (simp add: w_moves_def window_of_simps [OF i] moved_def)
  show "qty_at (sideLadder s b') = upd_level (qty_at ?L) l"
  proof (cases "moved ?L (fst l)")
    case True
    then show ?thesis using step z by (simp add: side_step_def upd_level_def fun_eq_iff)
  next
    case False
    from side_step_upd [OF book_invD(2) [OF b(1)] step book_invD(2) [OF b(2)] this] show ?thesis by (simp add: upd_level_def)
  qed
qed

lemma sole_level_view:
  assumes "top_view bt n m V" "0 < n" "\<And>x. x \<noteq> p \<Longrightarrow> m x = 0" "0 < m p"
  shows "fst ` set V = {p}"
proof -
  have in_p: "x = p" if "x \<in> fst ` set V" for x using top_viewD(3,4) [OF assms(1)] that assms(3) by force
  moreover have "p \<in> fst ` set V"
  proof (rule ccontr)
    assume out: "p \<notin> fst ` set V"
    then have "V = []" using in_p by (cases V) auto
    then show False using top_viewD(5) [OF assms(1,4) out] assms(2) by simp
  qed
  ultimately show ?thesis by blast
qed

lemma first_level_deltas:
  assumes b: "book_inv b" "book_inv b'" and c: "level_change kind s b l ds b'"
    and d: "\<not> deep s (sideLadder s b) (fst l)" and m: "moved (sideLadder s b) (fst l)" and new: "snd l \<noteq> qty_at (sideLadder s b) (fst l)"
    and z: "\<And>x. qty_at (sideLadder s b) x = 0" and m': "qty_at (sideLadder s b') = upd_level (qty_at (sideLadder s b)) l"
  shows "ofiSide s b = [] \<and> fst ` set (ofiSide s b') = {fst l} \<and> 
    ds = [\<lparr>d_price = fst l, d_newQty = snd l, d_deltaQty = snd l, d_isBid = s, d_wasInView = True, d_inOfiView = True, d_kind = kind\<rparr>]"
proof -
  have V: "top_view (better s) (ofiDepth b) (qty_at (sideLadder s b)) (ofiSide s b)" by (rule book_invD(4) [OF b(1)])
  have V': "top_view (better s) (ofiDepth b) (qty_at (sideLadder s b')) (ofiSide s b')"
    using book_invD(4) [OF b(2), of s] level_change_same [OF c] by (simp add: same_but_def)
  have "0 < snd l" using new z [of "fst l"] qty_at_nonneg [OF book_invD(3) [OF b(2)], of s "fst l"] by (simp add: m' upd_level_def)
  then have X': "fst ` set (ofiSide s b') = {fst l}"
    using sole_level_view [OF V' book_invD(1) [OF b(1)], of "fst l"] z by (simp add: m' upd_level_def)
  have "change_deltas kind s (qty_at (sideLadder s b')) (qty_at (sideLadder s b')) l 0 {fst l} {fst l} ds"
    using c d m new z X' by (simp add: level_change_def Let_def)
  moreover have "ofiSide s b = []" using top_viewD(3,4) [OF V] z by (cases "ofiSide s b") auto
  ultimately show ?thesis using X' by (auto simp: change_deltas_def)
qed

lemma kept_level_view_delta:
  assumes b: "book_inv b" "book_inv b'" and c: "level_change kind s b l ds b'"
    and k: "\<not> w_moves s (window_of (sideLadder s b)) (fst l)"
  shows "view_delta ds = view_sum (ofiSide s b') - view_sum (ofiSide s b)"
proof (cases "moved (sideLadder s b) (fst l) \<and> \<not> deep s (sideLadder s b) (fst l)")
  case False
  then show ?thesis using c level_change_view_delta [OF b c] by (cases "deep s (sideLadder s b) (fst l)") (simp_all add: level_change_def)
next
  case True
  note q = kept_level [OF b c k conjunct2 [OF True]]
  have V': "top_view (better s) (ofiDepth b) (qty_at (sideLadder s b')) (ofiSide s b')"
    using book_invD(4) [OF b(2), of s] level_change_same [OF c] by (simp add: same_but_def)
  have sums: "view_sum (ofiSide s b) = 0" "view_sum (ofiSide s b') = sum (qty_at (sideLadder s b')) (fst ` set (ofiSide s b'))"
    using view_sum_set [OF book_invD(4) [OF b(1), of s]] view_sum_set [OF V'] q(2) True by simp_all
  show ?thesis
  proof (cases "snd l = qty_at (sideLadder s b) (fst l)")
    case same: True
    then have "ds = []" using c True by (simp add: level_change_def Let_def)
    moreover have "qty_at (sideLadder s b') x = 0" for x using q True same by (simp add: upd_level_def)
    ultimately show ?thesis using sums by simp
  next
    case new: False
    from first_level_deltas [OF b c conjunct2 [OF True] conjunct1 [OF True] new _ q(1)] q(2) True
    show ?thesis using sums q(1) by (simp add: flagged_def upd_level_def)
  qed
qed

lemma level_run_view_delta:
  "level_run kind s b ls ds b' \<Longrightarrow> window_kept s (window_of (sideLadder s b)) ls \<Longrightarrow>
     view_delta ds = view_sum (ofiSide s b') - view_sum (ofiSide s b)"
proof (induction rule: level_run.induct)
  case (change b l ds b' ls ds' b'')
  then show ?case using kept_level_view_delta [OF change(1,4,3)] level_change_refines [OF change(1,4,3)] by simp
qed simp

text \<open>Levels that all lie in the window are the common case.\<close>

definition windowed :: "bool \<Rightarrow> orderbook \<Rightarrow> level list \<Rightarrow> bool" where
  "windowed s b ls \<longleftrightarrow> (\<forall>l \<in> set ls. in_window (sideLadder s b) (fst l))"

lemma w_level_in: "w_in W (fst l) \<Longrightarrow> w_in (w_level s W l) x = w_in W x"
  by (simp add: w_level_def w_deep_def w_centred_def w_in_def Let_def)

lemma window_kept_in: "\<forall>l \<in> set ls. w_in W (fst l) \<Longrightarrow> window_kept s W ls"
  by (induction ls arbitrary: W) (simp_all add: w_moves_def w_level_in)

lemma windowed_kept: "book_inv b \<Longrightarrow> windowed s b ls \<Longrightarrow> window_kept s (window_of (sideLadder s b)) ls"
  by (rule window_kept_in) (simp add: windowed_def window_of_simps(1) [OF book_invD(3)])

lemma foldl_w_level_in: "\<forall>l \<in> set ls. w_in W (fst l) \<Longrightarrow> \<forall>x. \<not> w_in W x \<longrightarrow> w_qty W x = 0 \<Longrightarrow>
  foldl (w_level s) W ls = W\<lparr>w_qty := foldl upd_level (w_qty W) ls\<rparr>"
proof (induction ls arbitrary: W)
  case (Cons l ls)
  have "(\<lambda>x. if x = fst l then snd l else if w_in W x then w_qty W x else 0) = upd_level (w_qty W) l"
    using Cons.prems(2) by (auto simp: upd_level_def)
  then have 1: "w_level s W l = W\<lparr>w_qty := upd_level (w_qty W) l\<rparr>"
    using Cons.prems(1) by (simp add: w_level_def w_deep_def w_centred_def)
  have in1: "w_in (w_level s W l) x = w_in W x" for x using Cons.prems(1) by (simp add: w_level_in)
  have "\<forall>x. \<not> w_in (w_level s W l) x \<longrightarrow> w_qty (w_level s W l) x = 0"
    using Cons.prems by (auto simp: in1) (simp add: 1 upd_level_def, metis)
  from Cons.IH [OF _ this] Cons.prems(1) show ?case by (simp add: in1) (simp add: 1)
qed simp

section \<open>Replaying the deltas\<close>

text \<open>
  A consumer that overwrites its level with every delta it is sent; \<open>keep\<close> says which it is
  sent, at least those of the kind of the batch.
\<close>

definition replay :: "(int \<Rightarrow> int) \<Rightarrow> level_delta list \<Rightarrow> int \<Rightarrow> int" where
  "replay m ds = foldl (\<lambda>m d. m(d_price d := d_newQty d)) m ds"

lemma replay_append [simp]: "replay m (ds @ ds') = replay (replay m ds) ds'"
  by (simp add: replay_def)

lemma level_change_replay:
  assumes b: "book_inv b" "book_inv b'" and c: "level_change kind s b l ds b'"
    and k: "\<not> w_moves s (window_of (sideLadder s b)) (fst l)" and keep: "\<And>d. d_kind d = kind \<Longrightarrow> keep d"
  shows "replay (qty_at (sideLadder s b)) (filter keep ds) = qty_at (sideLadder s b')"
proof (cases "deep s (sideLadder s b) (fst l)")
  case True
  then show ?thesis using c by (simp add: level_change_def replay_def)
next
  case d: False
  note q = kept_level [OF b c k d]
  show ?thesis
  proof (cases "snd l = qty_at (sideLadder s b) (fst l)")
    case True
    then have "ds = []" using c d by (simp add: level_change_def Let_def)
    then show ?thesis using True q(1) by (simp add: replay_def upd_level_def fun_upd_triv)
  next
    case new: False
    show ?thesis
    proof (cases "moved (sideLadder s b) (fst l)")
      case True
      from first_level_deltas [OF b c d True new q(2) [OF True] q(1)] show ?thesis
        using q(1) by (simp add: replay_def keep upd_level_def)
    next
      case False
      then have "change_deltas kind s (qty_at (sideLadder s b)) (qty_at (sideLadder s b')) l
          (qty_at (sideLadder s b) (fst l)) (fst ` set (ofiSide s b)) (fst ` set (ofiSide s b')) ds"
        using c d new by (simp add: level_change_def Let_def)
      then show ?thesis unfolding change_deltas_def
        by (elim exE conjE disjE) (auto simp: replay_def keep q(1) upd_level_def fun_eq_iff)
    qed
  qed
qed

lemma level_run_replay:
  "level_run kind s b ls ds b' \<Longrightarrow> window_kept s (window_of (sideLadder s b)) ls \<Longrightarrow> (\<And>d. d_kind d = kind \<Longrightarrow> keep d) \<Longrightarrow>
     replay (qty_at (sideLadder s b)) (filter keep ds) = qty_at (sideLadder s b')"
proof (induction rule: level_run.induct)
  case (change b l ds b' ls ds' b'')
  have "window_kept s (window_of (sideLadder s b')) ls" using change(7) level_change_refines [OF change(1,4,3)] by simp
  with change(6,7,8) level_change_replay [OF change(1,4,3) _ change(8)] show ?case by simp
qed (simp add: replay_def)

lemma level_run_side: "level_run kind s b ls ds b' \<Longrightarrow> d \<in> set ds \<Longrightarrow> d_isBid d = s \<and> d_kind d \<in> {kind, secondaryKind kind}"
proof (induction rule: level_run.induct)
  case (change b l ds b' ls ds' b'')
  have "d_isBid d = s \<and> d_kind d \<in> {kind, secondaryKind kind}" if "d \<in> set ds"
    using that change(3) unfolding level_change_def change_deltas_def Let_def by (auto split: if_splits)
  with change(6,7) show ?case by auto
qed simp

end
