(* ===== verification/Book_Updates.thy ===== *)
theory Book_Updates
  imports Book_Laws
begin

text \<open>
  The operations on whole messages: sequenced updates, unsequenced deltas, snapshots, and
  the reads of the book. The properties of \<open>OrderBook\<close> on levels that the ladder stores
  exactly.
\<close>

section \<open>The initial book\<close>

lemma empty_view: "(\<And>p. m p = 0) \<Longrightarrow> top_view bt n m []"
  by (simp add: top_view_def)

lemma sideLadder_simps [simp]: "sideLadder True b = bidLadder b" "sideLadder False b = askLadder b"
  "ofiSide True b = ofiBids b" "ofiSide False b = ofiAsks b"
  by (simp_all add: sideLadder_def ofiSide_def)

lemma newLadder_total:
  "newLadder t h = Inr L \<longleftrightarrow> 0 < t \<and> 0 \<le> h \<and> h \<le> (INT_MAX - 1) div 2 \<and>
     L = \<lparr>tickSize = t, halfRange = h, slots = h * 2 + 1, basePrice = 0, initialized = False,
          qtys = replicate (nat (h * 2 + 1)) 0, count = 0, bestHighIdx = - 1, bestLowIdx = - 1\<rparr>"
  by (auto simp: newLadder_def)

lemma newOrderBook_inv:
  assumes "newOrderBook n t = Inr b" "0 < n" "10001 * t \<le> 2 ^ 60"
  shows "book_inv b" "lastUpdateId b = 0" "\<not> snapshotApplied b" "tickSize (sideLadder s b) = t"
    "qty_at (sideLadder s b) p = 0"
proof -
  from assms(1) obtain bl al where b: "newLadder t kDefaultHalfRange = Inr bl" "newLadder t kDefaultHalfRange = Inr al"
    "b = \<lparr>lastUpdateId = 0, snapshotApplied = False, ofiDepth = n, bidLadder = bl, askLadder = al, ofiBids = [], ofiAsks = []\<rparr>"
    by (auto simp: newOrderBook_def)
  have t: "(kDefaultHalfRange * 2 + 1) * t \<le> 2 ^ 60" using assms(3) by (simp add: kDefaultHalfRange_def)
  note l = newLadder_law [OF b(1) t] newLadder_law [OF b(2) t]
  have inv: "side_inv (sideLadder s b)" "qty_at (sideLadder s b) p = 0" for s p
    using l by (auto simp: b(3) sideLadder_def side_inv_def)
  have "ofiSide s b = []" for s by (simp add: b(3) ofiSide_def)
  with inv show "book_inv b" using assms(2) by (simp add: book_inv_def empty_view b(3))
  show "lastUpdateId b = 0" "\<not> snapshotApplied b" by (simp_all add: b(3))
  show "tickSize (sideLadder s b) = t" using l by (auto simp: b(3) sideLadder_def)
  show "qty_at (sideLadder s b) p = 0" by (rule inv(2))
qed

section \<open>Sequenced updates\<close>

definition levels_ok :: "orderbook \<Rightarrow> level list \<Rightarrow> level list \<Rightarrow> bool" where
  "levels_ok b asks bids \<longleftrightarrow>
     (\<forall>l \<in> set asks. level_ok (askLadder b) l) \<and> (\<forall>l \<in> set bids. level_ok (bidLadder b) l)"

text \<open>The message never moves the window of a side that holds levels.\<close>

definition windows_kept :: "orderbook \<Rightarrow> level list \<Rightarrow> level list \<Rightarrow> bool" where
  "windows_kept b asks bids \<longleftrightarrow>
     window_kept False (window_of (askLadder b)) asks \<and> window_kept True (window_of (bidLadder b)) bids"

lemma windowed_windows_kept: "book_inv b \<Longrightarrow> windowed False b asks \<Longrightarrow> windowed True b bids \<Longrightarrow> windows_kept b asks bids"
  using windowed_kept [of b False asks] windowed_kept [of b True bids] by (simp add: windows_kept_def)

lemma book_inv_id: "book_inv (b\<lparr>lastUpdateId := i\<rparr>) = book_inv b"
  by (simp add: book_inv_def sideLadder_def ofiSide_def)

definition stale :: "orderbook \<Rightarrow> int \<Rightarrow> bool" where
  "stale b lastId \<longleftrightarrow> lastId \<le> lastUpdateId b"

definition gap :: "orderbook \<Rightarrow> int \<Rightarrow> bool" where
  "gap b firstId \<longleftrightarrow> lastUpdateId b + 1 < firstId"

lemma applyUpdateCore_skip:
  assumes "in_ll (lastUpdateId b)" "in_ll lastId"
  shows "stale b lastId \<Longrightarrow> applyUpdateCore b firstId lastId asks bids kind = Some (\<lparr>success = True, deltas = []\<rparr>, b)"
    "\<not> stale b lastId \<Longrightarrow> gap b firstId \<Longrightarrow>
       applyUpdateCore b firstId lastId asks bids kind = Some (\<lparr>success = False, deltas = []\<rparr>, b)"
proof -
  show "stale b lastId \<Longrightarrow> applyUpdateCore b firstId lastId asks bids kind = Some (\<lparr>success = True, deltas = []\<rparr>, b)"
    by (simp add: applyUpdateCore_def stale_def)
  assume "\<not> stale b lastId" "gap b firstId"
  moreover from this have "in_ll (lastUpdateId b + 1)" using assms by (simp add: in_ll_def stale_def)
  ultimately show "applyUpdateCore b firstId lastId asks bids kind = Some (\<lparr>success = False, deltas = []\<rparr>, b)"
    by (simp add: applyUpdateCore_def stale_def gap_def ll_Some)
qed

lemma applyUpdateCore_run:
  assumes b: "book_inv b" and id: "in_ll (lastUpdateId b)" "in_ll lastId" and ok: "levels_ok b asks bids"
    and go: "\<not> stale b lastId" "\<not> gap b firstId"
  obtains da db b1 b2 where
    "applyUpdateCore b firstId lastId asks bids kind
       = Some (\<lparr>success = True, deltas = da @ db\<rparr>, b2\<lparr>lastUpdateId := lastId\<rparr>)"
    "level_run kind False b asks da b1" "level_run kind True b1 bids db b2" "book_inv b1" "book_inv b2"
proof -
  have "\<forall>l \<in> set asks. level_ok (sideLadder False b) l" using ok by (simp add: levels_ok_def)
  then obtain da b1 where 1: "foldM (applyLevelChange kind False) ([], b) asks = Some ([] @ da, b1)"
    "level_run kind False b asks da b1" "book_inv b1"
    by (rule run_exists [OF b])
  have "sideLadder True b1 = sideLadder True b" using level_run_same [OF 1(2)] by (simp add: same_but_def)
  then have "\<forall>l \<in> set bids. level_ok (sideLadder True b1) l" using ok by (simp add: levels_ok_def)
  then obtain db b2 where 2: "foldM (applyLevelChange kind True) (da, b1) bids = Some (da @ db, b2)"
    "level_run kind True b1 bids db b2" "book_inv b2"
    by (rule run_exists [OF 1(3)])
  have "in_ll (lastUpdateId b + 1)" using id go by (simp add: in_ll_def stale_def)
  then have "applyUpdateCore b firstId lastId asks bids kind
       = Some (\<lparr>success = True, deltas = da @ db\<rparr>, b2\<lparr>lastUpdateId := lastId\<rparr>)"
    using 1(1) 2(1) go by (simp add: applyUpdateCore_def stale_def gap_def ll_Some)
  then show thesis using 1 2 that by blast
qed

section \<open>Snapshots\<close>

text \<open>The window that the first level of a side establishes, and the levels in it.\<close>

definition first_window :: "ladder \<Rightarrow> int \<Rightarrow> int \<Rightarrow> bool" where
  "first_window L p0 x \<longleftrightarrow> center L p0 \<le> x \<and> (x - center L p0) div tickSize L < slots L"

definition loaded :: "ladder \<Rightarrow> level list \<Rightarrow> int \<Rightarrow> int" where
  "loaded L ls = (case ls of [] \<Rightarrow> (\<lambda>_. 0)
     | l # _ \<Rightarrow> foldl upd_level (\<lambda>_. 0) (filter (\<lambda>x. first_window L (fst l) (fst x)) ls))"

definition load_ok :: "ladder \<Rightarrow> level \<Rightarrow> bool" where
  "load_ok L l \<longleftrightarrow> level_ok L l \<and> 0 < snd l"

lemma snapshotLevel_law:
  assumes L: "side_inv L" and l: "load_ok L l"
  obtains L' where "snapshotLevel L l = Some L'" "side_inv L'"
    "L' = L \<and> activeCount L \<noteq> 0 \<and> \<not> in_window L (fst l) \<or>
     side_step L l L' \<and> activeCount L' \<noteq> 0 \<and> (in_window L (fst l) \<or> activeCount L = 0)"
proof -
  obtain p q where pq: "l = (p, q)" by (cases l)
  have ok: "level_ok L (p, q)" "0 < q" "\<bar>p\<bar> \<le> 2 ^ 60"
    using l unfolding load_ok_def level_ok_def pq fst_conv snd_conv by auto
  note start = snapshotLevel_def [of L, THEN fun_cong, of "(p, q)",
      unfolded prod.case inRange_law [OF side_invD(1) [OF L] ok(3)] Option.bind_lunit]
  show thesis
  proof (cases "in_window L p \<or> activeCount L = 0")
    case True
    obtain L' where L': "ladder_set L p q = Some (L', moved L p)" "side_inv L'" "side_step L (p, q) L'"
      by (rule side_set [OF L ok(1)])
    have "qty_at L' p \<noteq> 0" using L'(3) ok(2) by (simp add: side_step_def)
    then have "activeCount L' \<noteq> 0" using activeCount_zero_iff [OF side_invD(1) [OF L'(2)]] by blast
    with True L' start show thesis by (intro that [of L']) (simp_all add: pq)
  next
    case False
    with L start show thesis by (intro that [of L]) (simp_all add: pq)
  qed
qed

lemma load_rest:
  assumes "side_inv L" "activeCount L \<noteq> 0" "\<forall>l \<in> set ls. load_ok L l"
  shows "\<exists>L'. foldM snapshotLevel L ls = Some L' \<and> side_inv L' \<and> tickSize L' = tickSize L \<and>
     halfRange L' = halfRange L \<and>
     qty_at L' = foldl upd_level (qty_at L) (filter (\<lambda>l. in_window L (fst l)) ls)"
  using assms
proof (induction ls arbitrary: L)
  case (Cons l ls)
  then have l: "load_ok L l" by simp
  obtain L1 where L1: "snapshotLevel L l = Some L1" "side_inv L1"
    "L1 = L \<and> activeCount L \<noteq> 0 \<and> \<not> in_window L (fst l) \<or>
     side_step L l L1 \<and> activeCount L1 \<noteq> 0 \<and> (in_window L (fst l) \<or> activeCount L = 0)"
    by (rule snapshotLevel_law [OF Cons.prems(1) l])
  show ?case
  proof (cases "in_window L (fst l)")
    case True
    then have step: "side_step L l L1" "activeCount L1 \<noteq> 0" using L1(3) Cons.prems(2) by blast+
    have tick: "tickSize L1 = tickSize L" "halfRange L1 = halfRange L" using step by (simp_all add: side_step_def)
    have win: "in_window L1 x = in_window L x" for x
      using step(1) True ladder_inv_basics(3) [OF side_invD(1) [OF Cons.prems(1)]] ladder_inv_basics(3) [OF side_invD(1) [OF L1(2)]]
      by (intro same_window) (simp_all add: side_step_def in_window_def)
    have qty: "qty_at L1 = upd_level (qty_at L) l" unfolding upd_level_def
      using side_step_upd [OF Cons.prems(1) step(1) L1(2)] True by (simp add: moved_def)
    have "\<forall>l \<in> set ls. load_ok L1 l"
      using Cons.prems(3) level_ok_tick [OF tick(1)] by (simp add: load_ok_def)
    from Cons.IH [OF L1(2) step(2) this] show ?thesis using L1(1) True tick qty by (simp add: win)
  next
    case False
    then have "L1 = L" using L1(3) Cons.prems(2) by blast
    with Cons.IH [OF Cons.prems(1,2)] Cons.prems(3) L1(1) False show ?thesis by simp
  qed
qed simp

lemma load_side:
  assumes L: "side_inv L" "\<not> initialized L" "\<And>p. qty_at L p = 0" and ls: "\<forall>l \<in> set ls. load_ok L l"
  shows "\<exists>L'. foldM snapshotLevel L ls = Some L' \<and> side_inv L' \<and> tickSize L' = tickSize L \<and>
     halfRange L' = halfRange L \<and> qty_at L' = loaded L ls"
proof (cases ls)
  case Nil
  then show ?thesis using L by (simp add: loaded_def fun_eq_iff)
next
  case (Cons l ls')
  then have l: "load_ok L l" using ls by simp
  have none: "activeCount L = 0" using L(3) activeCount_zero_iff [OF side_invD(1) [OF L(1)]] by blast
  obtain L1 where L1: "snapshotLevel L l = Some L1" "side_inv L1" "side_step L l L1" "activeCount L1 \<noteq> 0"
    using snapshotLevel_law [OF L(1) l] none by metis
  have tick: "tickSize L1 = tickSize L" "halfRange L1 = halfRange L" "initialized L1" "basePrice L1 = center L (fst l)"
    using L1(3) L(2) by (simp_all add: side_step_def in_window_def)
  have "slots L1 = slots L"
    using tick(2) ladder_inv_basics(3) [OF side_invD(1) [OF L(1)]] ladder_inv_basics(3) [OF side_invD(1) [OF L1(2)]] by simp
  then have win: "in_window L1 x = first_window L (fst l) x" for x
    using tick by (simp add: in_window_def first_window_def)
  have "price_ok L (fst l)" using l by (simp add: load_ok_def level_ok_def price_ok_def)
  then have first: "first_window L (fst l) (fst l)"
    using center_window [OF side_invD(1) [OF L(1)]] by (simp add: first_window_def)
  have qty: "qty_at L1 = upd_level (\<lambda>_. 0) l"
    using side_step_upd [OF L(1) L1(3,2)] L(2,3) by (simp add: moved_def upd_level_def fun_eq_iff)
  have "\<forall>l \<in> set ls'. load_ok L1 l"
    using ls level_ok_tick [OF tick(1)] by (simp add: load_ok_def Cons)
  from load_rest [OF L1(2,4) this] show ?thesis
    using L1(1) tick(1,2) by (simp add: Cons loaded_def first qty win)
qed

lemma clear_side:
  assumes "side_inv L"
  shows "side_inv (ladder_clear L)" "\<not> initialized (ladder_clear L)" "qty_at (ladder_clear L) p = 0"
    "tickSize (ladder_clear L) = tickSize L" "halfRange (ladder_clear L) = halfRange L"
  using clear_law [OF side_invD(1) [OF assms]] by (simp_all add: side_inv_def)

lemma loaded_clear:
  assumes "side_inv L"
  shows "loaded (ladder_clear L) ls = loaded L ls" "load_ok (ladder_clear L) l = load_ok L l"
proof -
  note c = clear_side [OF assms]
  have "slots (ladder_clear L) = slots L"
    using ladder_inv_basics(3) [OF side_invD(1) [OF assms]] ladder_inv_basics(3) [OF side_invD(1) [OF c(1)]] c(5) by simp
  then show "loaded (ladder_clear L) ls = loaded L ls"
    using c(4,5) by (simp add: loaded_def first_window_def center_def split: list.split)
  show "load_ok (ladder_clear L) l = load_ok L l" by (simp add: load_ok_def level_ok_tick [OF c(4)])
qed

lemma rebuild_side_law:
  assumes "side_inv (sideLadder s b)"
  obtains V where "rebuildOfiSide s b = Some (putView s V b)"
    "top_view (better s) (ofiDepth b) (qty_at (sideLadder s b)) V"
  using side.rebuild_view [OF assms, of s "ofiDepth b"] that by (auto simp: rebuildOfiSide_side)

lemma loadSnapshot_law:
  assumes b: "book_inv b" and asks: "\<forall>l \<in> set asks. load_ok (askLadder b) l"
    and bids: "\<forall>l \<in> set bids. load_ok (bidLadder b) l"
  obtains b' where "loadSnapshot b i asks bids = Some b'" "book_inv b'" "lastUpdateId b' = i"
    "snapshotApplied b'" "ofiDepth b' = ofiDepth b"
    "qty_at (bidLadder b') = loaded (bidLadder b) bids" "qty_at (askLadder b') = loaded (askLadder b) asks"
    "\<And>s. tickSize (sideLadder s b') = tickSize (sideLadder s b)"
proof -
  have side: "\<exists>L'. foldM snapshotLevel (ladder_clear (sideLadder s b)) ls = Some L' \<and> side_inv L' \<and>
      tickSize L' = tickSize (sideLadder s b) \<and> qty_at L' = loaded (sideLadder s b) ls"
    if "\<forall>l \<in> set ls. load_ok (sideLadder s b) l" for s ls
    using load_side [OF clear_side(1-3) [OF book_invD(2) [OF b]], of ls s] that
      loaded_clear [OF book_invD(2) [OF b]] clear_side(4) [OF book_invD(2) [OF b]] by fastforce
  from side [of bids True] bids
  obtain bl where bl: "foldM snapshotLevel (ladder_clear (bidLadder b)) bids = Some bl" "side_inv bl"
    "tickSize bl = tickSize (bidLadder b)" "qty_at bl = loaded (bidLadder b) bids" by auto
  from side [of asks False] asks
  obtain al where al: "foldM snapshotLevel (ladder_clear (askLadder b)) asks = Some al" "side_inv al"
    "tickSize al = tickSize (askLadder b)" "qty_at al = loaded (askLadder b) asks" by auto
  define b1 where "b1 = b\<lparr>lastUpdateId := i, bidLadder := bl, askLadder := al, ofiBids := [], ofiAsks := []\<rparr>"
  obtain V where V: "rebuildOfiSide True b1 = Some (putView True V b1)" "top_view (better True) (ofiDepth b) (qty_at bl) V"
    using rebuild_side_law [of True b1] bl(2) by (auto simp: b1_def)
  obtain W where W: "rebuildOfiSide False (putView True V b1) = Some (putView False W (putView True V b1))"
    "top_view (better False) (ofiDepth b) (qty_at al) W"
    using rebuild_side_law [of False "putView True V b1"] al(2) by (auto simp: b1_def putView_def)
  let ?b' = "(putView False W (putView True V b1))\<lparr>snapshotApplied := True\<rparr>"
  have run: "loadSnapshot b i asks bids = Some ?b'"
    by (simp add: loadSnapshot_def bl(1) al(1) b1_def [symmetric] V(1) W(1))
  have "side_inv (sideLadder s ?b') \<and> top_view (better s) (ofiDepth b) (qty_at (sideLadder s ?b')) (ofiSide s ?b')" for s
    using bl(2) al(2) V(2) W(2) by (cases s) (simp_all add: b1_def putView_def)
  then have "book_inv ?b'" using book_invD(1) [OF b] by (simp add: book_inv_def b1_def putView_def)
  moreover have "tickSize (sideLadder s ?b') = tickSize (sideLadder s b)" for s
    using bl(3) al(3) by (cases s) (simp_all add: b1_def putView_def)
  ultimately show thesis by (intro that [OF run]) (simp_all add: bl al b1_def putView_def)
qed

section \<open>Reading the book\<close>

lemma book_clear_inv:
  assumes "book_inv b"
  shows "book_inv (book_clear b)" "qty_at (sideLadder s (book_clear b)) p = 0"
proof -
  have "side_inv (sideLadder s (book_clear b)) \<and> qty_at (sideLadder s (book_clear b)) p = 0 \<and> ofiSide s (book_clear b) = []" for s p
    using clear_side(1,3) [OF book_invD(2) [OF assms], of s]
    by (cases s) (simp_all add: book_clear_def)
  then show "book_inv (book_clear b)" "qty_at (sideLadder s (book_clear b)) p = 0"
    using book_invD(1) [OF assms] by (simp_all add: book_inv_def empty_view book_clear_def)
qed

lemma getSnapshot_law:
  assumes "book_inv b" "snapshotApplied b"
  shows "getSnapshot b = Some \<lparr>applied = True, snap_asks = levels (askLadder b), snap_bids = rev (levels (bidLadder b))\<rparr>"
  using assms forEach_law [OF book_invD(3) [OF assms(1), of True]] forEach_law [OF book_invD(3) [OF assms(1), of False]]
  by (simp add: getSnapshot_def)

text \<open>The head of a view is the best level of the side.\<close>

lemma view_head:
  assumes "top_view (better s) n m V" "0 < n"
  shows "V = [] \<longleftrightarrow> (\<forall>p. m p \<le> 0)" "V \<noteq> [] \<Longrightarrow> 0 < m (fst (hd V))"
    "V \<noteq> [] \<Longrightarrow> 0 < m p \<Longrightarrow> p \<noteq> fst (hd V) \<Longrightarrow> better s (fst (hd V)) p"
proof -
  show "V = [] \<longleftrightarrow> (\<forall>p. m p \<le> 0)"
  proof
    assume "V = []"
    with top_viewD(5) [OF assms(1)] assms(2) show "\<forall>p. m p \<le> 0" by (fastforce simp: not_less [symmetric])
  next
    assume "\<forall>p. m p \<le> 0"
    with top_viewD(3,4) [OF assms(1)] show "V = []" by (metis last_in_set linorder_not_le)
  qed
  assume V: "V \<noteq> []"
  then have hd: "hd V \<in> set V" by simp
  show "0 < m (fst (hd V))" using top_viewD(3,4) [OF assms(1) hd] by simp
  show "better s (fst (hd V)) p" if "0 < m p" "p \<noteq> fst (hd V)"
  proof (cases "p \<in> fst ` set V")
    case True
    then show ?thesis using top_viewD(1) [OF assms(1)] that(2) V by (cases V) auto
  next
    case False
    show ?thesis by (rule top_viewD(6) [OF assms(1) that(1) False]) (use hd in blast)
  qed
qed

end
