(* ===== verification/Metrics.thy ===== *)
theory Metrics
  imports Prelude
begin

text \<open>
  \<open>src/metrics.hpp\<close>: the counters of one symbol and the processing-time histogram.
  \<open>fetch_add\<close> on an atomic \<open>long long\<close> wraps modulo \<open>2^64\<close>.
\<close>

record metrics =
  msgCount :: int
  lastEventLagMs :: int
  lastUpdateTimeMs :: int
  ofiAccumulator :: int
  liveReady :: bool
  processingBuckets :: "int list"
  processingUsSum :: int

definition newMetrics :: metrics where
  "newMetrics = \<lparr>msgCount = 0, lastEventLagMs = 0, lastUpdateTimeMs = 0, ofiAccumulator = 0,
     liveReady = False, processingBuckets = replicate 11 0, processingUsSum = 0\<rparr>"

definition kBucketBounds :: "int list" where
  "kBucketBounds = [1, 5, 10, 25, 50, 100, 250, 500, 1000, 5000]"

definition fetch_add :: "int \<Rightarrow> int \<Rightarrow> int" where
  "fetch_add x d = (x + d + 9223372036854775808) mod 18446744073709551616 - 9223372036854775808"

text \<open>The loop over \<open>i < 10\<close>, and the \<open>+Inf\<close> bucket.\<close>

fun bumpBuckets :: "int \<Rightarrow> nat list \<Rightarrow> int list \<Rightarrow> int list" where
  "bumpBuckets us [] bs = bs"
| "bumpBuckets us (i # is) bs =
     bumpBuckets us is (if us \<le> kBucketBounds ! i then bs[i := fetch_add (bs ! i) 1] else bs)"

definition recordProcessingUs :: "metrics \<Rightarrow> int \<Rightarrow> metrics" where
  "recordProcessingUs m us =
     (let bs = bumpBuckets us [0..<10] (processingBuckets m)
      in m\<lparr>processingUsSum := fetch_add (processingUsSum m) us,
           processingBuckets := bs[10 := fetch_add (bs ! 10) 1]\<rparr>)"

lemma fetch_add_exact: "in_ll (x + d) \<Longrightarrow> fetch_add x d = x + d"
  by (simp add: fetch_add_def in_ll_def int_limits)

lemma bumpBuckets_nth:
  assumes "distinct is" "\<forall>i \<in> set is. i < length bs" "i < length bs"
  shows "length (bumpBuckets us is bs) = length bs"
    "bumpBuckets us is bs ! i =
       (if i \<in> set is \<and> us \<le> kBucketBounds ! i then fetch_add (bs ! i) 1 else bs ! i)"
  using assms by (induction "is" arbitrary: bs) (auto simp: nth_list_update)

text \<open>The upper bound of a bucket; the last one has none.\<close>

definition in_bucket :: "nat \<Rightarrow> int \<Rightarrow> bool" where
  "in_bucket i us \<longleftrightarrow> i = 10 \<or> us \<le> kBucketBounds ! i"

lemma recordProcessingUs_bucket:
  assumes "length (processingBuckets m) = 11" "i < 11"
  shows "length (processingBuckets (recordProcessingUs m us)) = 11"
    "processingBuckets (recordProcessingUs m us) ! i =
       (if in_bucket i us then fetch_add (processingBuckets m ! i) 1 else processingBuckets m ! i)"
proof -
  let ?bs = "processingBuckets m" and ?is = "[0..<10]"
  have idx: "distinct ?is" "\<forall>i \<in> set ?is. i < length ?bs" using assms(1) by auto
  have i: "i < length ?bs" "10 < length ?bs" using assms by auto
  have set: "set ?is = {0..<10}" by (rule set_upt)
  note b = bumpBuckets_nth [OF idx i(1), of us] bumpBuckets_nth(2) [OF idx i(2), of us]
  have buckets: "processingBuckets (recordProcessingUs m us) =
      (bumpBuckets us ?is ?bs)[10 := fetch_add (bumpBuckets us ?is ?bs ! 10) 1]"
    by (simp add: recordProcessingUs_def Let_def)
  show "length (processingBuckets (recordProcessingUs m us)) = 11"
    unfolding buckets length_list_update b(1) by (rule assms(1))
  show "processingBuckets (recordProcessingUs m us) ! i =
       (if in_bucket i us then fetch_add (?bs ! i) 1 else ?bs ! i)"
    unfolding buckets using assms(2) b(2,3) i b(1)
    by (cases "i = 10") (auto simp: set in_bucket_def simp del: upt_rec_numeral)
qed

text \<open>The counts after any number of observations.\<close>

lemma buckets_count:
  assumes "length (processingBuckets m) = 11" "i < 11"
    and "0 \<le> processingBuckets m ! i" "processingBuckets m ! i + int (length obs) \<le> LLONG_MAX"
  shows "length (processingBuckets (foldl recordProcessingUs m obs)) = 11 \<and>
    processingBuckets (foldl recordProcessingUs m obs) ! i
      = processingBuckets m ! i + int (length (filter (in_bucket i) obs))"
  using assms
proof (induction obs arbitrary: m)
  case (Cons us obs)
  note r = recordProcessingUs_bucket [OF Cons.prems(1,2), of us]
  have "in_ll (processingBuckets m ! i + 1)" using Cons.prems(3,4) by (simp add: in_ll_def int_limits)
  then have b: "processingBuckets (recordProcessingUs m us) ! i
      = processingBuckets m ! i + (if in_bucket i us then 1 else 0)"
    by (simp add: r(2) fetch_add_exact)
  with Cons.IH [OF r(1) Cons.prems(2)] Cons.prems(3,4) show ?case by simp
qed simp

end
