(* ===== verification/Ofi_Callback.thy ===== *)
theory Ofi_Callback
  imports Book_Updates Metrics
begin

text \<open>
  The update callback that \<open>src/main.cpp\<close> installs: the order-flow imbalance of a batch of
  deltas, in saturating arithmetic, and the accumulator it is added to. The exact value it
  approximates is the change of the viewed bid volume minus that of the viewed ask volume.
\<close>

definition ofiStep :: "int \<times> bool \<Rightarrow> level_delta \<Rightarrow> int \<times> bool" where
  "ofiStep = (\<lambda>(ofi, hasOfiDelta) d.
     if d_kind d \<noteq> Backfill \<and> (d_wasInView d \<or> d_inOfiView d)
     then (if d_isBid d then checkedAdd ofi (d_deltaQty d) else checkedSubtract ofi (d_deltaQty d), True)
     else (ofi, hasOfiDelta))"

definition batchOfi :: "level_delta list \<Rightarrow> int \<times> bool" where
  "batchOfi ds = foldl ofiStep (0, False) ds"

text \<open>
  The metrics of the symbol after the callback; a symbol without metrics is skipped. The
  compare-exchange loop makes the addition atomic.
\<close>

definition accumulateOfi :: "(string \<rightharpoonup> metrics) \<Rightarrow> string \<Rightarrow> level_delta list \<Rightarrow> (string \<rightharpoonup> metrics)" where
  "accumulateOfi metricsMap symbol ds =
     (let (ofi, hasOfiDelta) = batchOfi ds
      in if hasOfiDelta then
           (case metricsMap symbol of
              None \<Rightarrow> metricsMap
            | Some m \<Rightarrow> metricsMap(symbol \<mapsto> m\<lparr>ofiAccumulator := checkedAdd (ofiAccumulator m) ofi\<rparr>))
         else metricsMap)"

text \<open>The exact sum over the counted deltas.\<close>

definition counted :: "level_delta \<Rightarrow> bool" where
  "counted d \<longleftrightarrow> d_kind d \<noteq> Backfill \<and> flagged d"

definition ofi_weight :: "level_delta \<Rightarrow> int" where
  "ofi_weight d = (if d_isBid d then d_deltaQty d else - d_deltaQty d)"

definition exact_ofi :: "level_delta list \<Rightarrow> int" where
  "exact_ofi ds = sum_list (map ofi_weight (filter counted ds))"

text \<open>The traffic of a batch: what bounds every partial sum.\<close>

definition traffic :: "level_delta list \<Rightarrow> int" where
  "traffic ds = sum_list (map (\<lambda>d. \<bar>d_deltaQty d\<bar>) (filter counted ds))"

lemma exact_ofi_simps [simp]:
  "exact_ofi [] = 0" "exact_ofi (ds @ ds') = exact_ofi ds + exact_ofi ds'"
  "exact_ofi (d # ds) = (if counted d then ofi_weight d else 0) + exact_ofi ds"
  by (simp_all add: exact_ofi_def)

lemma traffic_simps [simp]:
  "traffic [] = 0" "traffic (d # ds) = (if counted d then \<bar>d_deltaQty d\<bar> else 0) + traffic ds"
  by (simp_all add: traffic_def)

lemma traffic_nonneg: "0 \<le> traffic ds"
  by (induction ds) auto

lemma ofiStep_exact:
  assumes "\<bar>ofi\<bar> + \<bar>d_deltaQty d\<bar> \<le> LLONG_MAX"
  shows "ofiStep (ofi, has) d = (ofi + (if counted d then ofi_weight d else 0), has \<or> counted d)"
  using assms
  by (auto simp: ofiStep_def counted_def flagged_def ofi_weight_def checkedAdd_def checkedSubtract_def int_limits)

lemma batchOfi_from:
  "\<bar>ofi\<bar> + traffic ds \<le> LLONG_MAX \<Longrightarrow>
     foldl ofiStep (ofi, has) ds = (ofi + exact_ofi ds, has \<or> (\<exists>d \<in> set ds. counted d))"
proof (induction ds arbitrary: ofi has)
  case (Cons d ds)
  show ?case
  proof (cases "counted d")
    case True
    have le: "\<bar>ofi\<bar> + \<bar>d_deltaQty d\<bar> \<le> LLONG_MAX" using Cons.prems traffic_nonneg [of ds] True by simp
    have "\<bar>ofi + ofi_weight d\<bar> + traffic ds \<le> LLONG_MAX"
      using Cons.prems True abs_triangle_ineq [of ofi "ofi_weight d"] by (simp add: ofi_weight_def split: if_splits)
    from Cons.IH [OF this] show ?thesis using ofiStep_exact [OF le] True by simp
  next
    case False
    then have "ofiStep (ofi, has) d = (ofi, has)" by (auto simp: ofiStep_def counted_def flagged_def)
    with Cons.IH [of ofi has] Cons.prems False show ?thesis by simp
  qed
qed simp

lemma batchOfi_exact: "traffic ds \<le> LLONG_MAX \<Longrightarrow> batchOfi ds = (exact_ofi ds, \<exists>d \<in> set ds. counted d)"
  using batchOfi_from [of 0 ds False] by (simp add: batchOfi_def)

text \<open>On one side, the exact sum is the signed change of the viewed volume.\<close>

lemma exact_ofi_side:
  assumes "\<And>d. d \<in> set ds \<Longrightarrow> d_isBid d = s \<and> d_kind d \<noteq> Backfill"
  shows "exact_ofi ds = (if s then view_delta ds else - view_delta ds)"
  using assms by (induction ds) (auto simp: counted_def ofi_weight_def)

lemma run_ofi:
  assumes "level_run kind s b ls ds b'" "window_kept s (window_of (sideLadder s b)) ls" "kind \<noteq> Backfill"
  shows "exact_ofi ds = (if s then 1 else - 1) * (view_sum (ofiSide s b') - view_sum (ofiSide s b))"
proof -
  have "d_isBid d = s \<and> d_kind d \<noteq> Backfill" if "d \<in> set ds" for d
    using level_run_side [OF assms(1) that] assms(3) by (auto simp: secondaryKind_def)
  from exact_ofi_side [OF this] level_run_view_delta [OF assms(1,2)] show ?thesis by simp
qed

end
