(* ===== verification/Book_Safety.thy ===== *)
theory Book_Safety
  imports Book_Updates
begin

text \<open>
  No fault on any feed of non-negative prices and quantities: prices need not be multiples
  of the tick, so views and ladders may disagree, but no operation overflows, indexes out
  of the array or fails its assertion.
\<close>

section \<open>Bounded prices and quantities\<close>

definition small :: "int \<Rightarrow> bool" where
  "small p \<longleftrightarrow> \<bar>p\<bar> \<le> 2 ^ 60"

definition amount :: "int \<Rightarrow> bool" where
  "amount q \<longleftrightarrow> 0 \<le> q \<and> q \<le> LLONG_MAX"

definition view_small :: "level list \<Rightarrow> bool" where
  "view_small V \<longleftrightarrow> (\<forall>l \<in> set V. small (fst l) \<and> amount (snd l))"

definition ladder_small :: "ladder \<Rightarrow> bool" where
  "ladder_small L \<longleftrightarrow> ladder_inv L \<and> (\<forall>p. 0 < qty_at L p \<longrightarrow> small p)"

definition book_small :: "orderbook \<Rightarrow> bool" where
  "book_small b \<longleftrightarrow> (\<forall>s. ladder_small (sideLadder s b) \<and> view_small (ofiSide s b))"

text \<open>A level of any feed: prices and quantities that are not negative.\<close>

definition feed_ok :: "level \<Rightarrow> bool" where
  "feed_ok l \<longleftrightarrow> 0 \<le> fst l \<and> fst l \<le> 2 ^ 60 \<and> amount (snd l)"

lemma small_0 [simp]: "small 0"
  by (simp add: small_def)

lemma ladder_smallD: "ladder_small L \<Longrightarrow> ladder_inv L" "ladder_small L \<Longrightarrow> 0 < qty_at L p \<Longrightarrow> small p"
  by (simp_all add: ladder_small_def)

lemma small_extreme:
  assumes "finite A" "\<And>x. x \<in> A \<Longrightarrow> small x"
  shows "small (max0 A)" "small (min0 A)"
  using assms Max_in [of A] Min_in [of A] by (auto simp: max0_def min0_def)

lemma walks_small:
  assumes L: "ladder_small L"
  shows "\<exists>p. bestOf s L = Some p \<and> small p"
    "small w \<Longrightarrow> \<exists>p. walkOf s L w = Some p \<and> small p"
    "small w \<Longrightarrow> \<exists>q. ladder_get L w = Some q \<and> amount q"
proof -
  note inv = ladder_smallD(1) [OF L]
  have fin: "finite {x \<in> active L. P x}" for P using finite_active [OF inv] by simp
  have act: "small x" if "x \<in> {x \<in> active L. P x}" for x P
    using that ladder_smallD(2) [OF L] by (simp add: active_def)
  show "\<exists>p. bestOf s L = Some p \<and> small p"
    using bestHigh_law [OF inv] bestLow_law [OF inv] small_extreme [OF fin act, of "\<lambda>_. True"]
    by (simp add: bestOf_def)
  assume w: "small w"
  note w' = w [unfolded small_def]
  show "\<exists>p. walkOf s L w = Some p \<and> small p"
    using prevBelow_law [OF inv w'] nextAbove_law [OF inv w'] small_extreme(1) [OF fin act, of "\<lambda>x. x < w"]
      small_extreme(2) [OF fin act, of "\<lambda>x. w < x"] by (simp add: walkOf_def)
  show "\<exists>q. ladder_get L w = Some q \<and> amount q"
    using get_floor [OF inv w'] qty_at_nonneg [OF inv] qty_at_le [OF inv] by (simp add: amount_def int_limits)
qed

section \<open>The view operations on bounded data\<close>

lemma rebuild_total:
  assumes walk: "\<And>w. small w \<Longrightarrow> \<exists>p. walk w = Some p \<and> small p"
    and get: "\<And>w. small w \<Longrightarrow> \<exists>q. get w = Some q \<and> amount q"
  shows "small p \<Longrightarrow> \<exists>V. rebuildLoop walk get k p = Some V \<and> view_small V"
proof (induction k arbitrary: p)
  case (Suc k)
  obtain q p' where "get p = Some q" "amount q" "walk p = Some p'" "small p'"
    using walk [OF Suc.prems] get [OF Suc.prems] by blast
  moreover from Suc.IH [OF this(4)]
  obtain V where "rebuildLoop walk get k p' = Some V" "view_small V" by blast
  ultimately show ?case using Suc.prems by (simp add: view_small_def)
qed (simp add: view_small_def)

definition change_small :: "view_change \<Rightarrow> bool" where
  "change_small c \<longleftrightarrow> amount (evictedQty c)"

lemma updateSideView_total:
  assumes best: "\<exists>p. best = Some p \<and> small p"
    and walk: "\<And>w. small w \<Longrightarrow> \<exists>p. walk w = Some p \<and> small p"
    and get: "\<And>w. small w \<Longrightarrow> \<exists>q. get w = Some q \<and> amount q"
    and V: "view_small V" and p: "small p" and q: "amount q"
  shows "\<exists>V' c. updateSideView bt best walk get n V p q = Some (V', c) \<and> view_small V' \<and> change_small c"
proof -
  let ?front = "takeWhile (\<lambda>l. bt (fst l) p) V" and ?it = "dropWhile (\<lambda>l. bt (fst l) p) V"
  have "set ?front \<subseteq> set V" "set ?it \<subseteq> set V" by (auto dest: set_takeWhileD set_dropWhileD)
  moreover have "set (tl ?it) \<subseteq> set ?it" using set_drop_subset [of 1 ?it] by (simp only: drop_Suc One_nat_def drop_0)
  ultimately have parts: "view_small ?front" "view_small ?it" "view_small (tl ?it)"
    using V unfolding view_small_def by blast+
  have no: "change_small no_change" by (simp add: change_small_def no_change_def amount_def int_limits)
  have erase: "\<exists>V' c. eraseLevel best walk get n full es = Some (V', c) \<and> view_small V' \<and> change_small c"
    if es: "view_small es" for es full
  proof -
    have "es \<noteq> [] \<Longrightarrow> small (fst (last es))" using es by (simp add: view_small_def)
    then obtain r where r: "(if es \<noteq> [] then walk (fst (last es)) else best) = Some r" "small r"
      using best walk by (cases "es = []") auto
    obtain x where x: "(if 0 < r then get r else Some 0) = Some x" "amount x"
      using get [OF r(2)] by (cases "0 < r") (auto simp: amount_def int_limits)
    show ?thesis unfolding eraseLevel_def r(1) Option.bind_lunit x(1) Let_def
      using es r(2) x(2) no by (auto simp: view_small_def change_small_def no_change_def)
  qed
  have ins: "view_small (fst (insertLevel bt n V ?front ?it p q)) \<and> change_small (snd (insertLevel bt n V ?front ?it p q))"
  proof -
    have i: "view_small (?front @ (p, q) # ?it)" using parts(1,2) p q unfolding view_small_def set_append set_simps ball_Un ball_simps(7) by simp
    then have "view_small (butlast (?front @ (p, q) # ?it))" "amount (snd (last (?front @ (p, q) # ?it)))"
      unfolding view_small_def by (blast dest: in_set_butlastD) (use i in \<open>metis last_in_set append_is_Nil_conv list.distinct(1) view_small_def\<close>)
    with i V no show ?thesis by (simp add: insertLevel_def Let_def change_small_def no_change_def)
  qed
  have fa: "view_small (?front @ tl ?it)" "view_small (?front @ (p, q) # tl ?it)"
    using parts p q by (auto simp: view_small_def)
  show ?thesis unfolding updateSideView_def lower_bound_def Let_def prod.case
    using erase [OF fa(1)] ins fa(2) V no by (simp add: prod_eq_iff)
qed

lemma viewDeltas_total: "change_small c \<Longrightarrow> \<exists>ds. viewDeltas c isBid kind = Some ds"
proof -
  assume "change_small c"
  then have "in_ll (- evictedQty c)" by (simp add: change_small_def amount_def in_ll_def int_limits)
  then show ?thesis by (simp add: viewDeltas_def ll_Some)
qed

section \<open>One level change on bounded data\<close>

lemma book_small_put:
  "book_small b \<Longrightarrow> ladder_small L \<Longrightarrow> book_small (putLadder s L b)"
  "book_small b \<Longrightarrow> view_small V \<Longrightarrow> book_small (putView s V b)"
  by (auto simp: book_small_def)

lemma ladder_set_small:
  assumes L: "ladder_small L" and l: "feed_ok (p, q)"
  obtains L' r where "ladder_set L p q = Some (L', r)" "ladder_small L'"
proof -
  have l': "price_ok L p" "0 \<le> q" "q \<le> LLONG_MAX" "\<bar>p\<bar> \<le> 2 ^ 60"
    using l by (simp_all add: feed_ok_def amount_def price_ok_def)
  from set_law [OF ladder_smallD(1) [OF L] l'(1,2,3)]
  obtain L' where L': "ladder_set L p q = Some (L', initialized L \<and> \<not> in_window L p)" "ladder_inv L'"
    "\<And>x. qty_at L' x = (if x = tick_floor L p then q else if in_window L' x then qty_at L x else 0)"
    by blast
  have "small (tick_floor L p)"
  proof -
    have t: "0 < tickSize L" by (rule ladder_inv_basics(1) [OF ladder_smallD(1) [OF L]])
    have "0 \<le> p" "p \<le> 2 ^ 60" using l by (simp_all add: feed_ok_def)
    moreover have "0 \<le> p mod tickSize L" "p mod tickSize L \<le> p" using t calculation(1) by (simp_all add: zmod_le_nonneg_dividend)
    ultimately show ?thesis by (simp add: small_def tick_floor_def)
  qed
  then have "small x" if "0 < qty_at L' x" for x
    using that ladder_smallD(2) [OF L] unfolding L'(3) by (auto split: if_splits)
  then have "ladder_small L'" using L'(2) by (simp add: ladder_small_def)
  with L'(1) show thesis by (rule that)
qed

lemma applyLevelChange_total:
  assumes b: "book_small b" and l: "feed_ok l"
  shows "\<exists>out' b'. applyLevelChange kind s (out, b) l = Some (out', b') \<and> book_small b'"
proof -
  obtain p q where pq: "l = (p, q)" by (cases l)
  have L: "ladder_small (sideLadder s b)" and V: "view_small (ofiSide s b)" using b by (simp_all add: book_small_def)
  have p: "small p" "\<bar>p\<bar> \<le> 2 ^ 60" and q: "amount q"
    using l by (simp_all add: pq feed_ok_def small_def)
  obtain prev where prev: "ladder_get (sideLadder s b) p = Some prev" "amount prev"
    using walks_small(3) [OF L p(1)] by blast
  have delta: "in_ll (q - prev)" using q prev(2) by (simp add: amount_def in_ll_def int_limits)
  obtain L' r where L': "ladder_set (sideLadder s b) p q = Some (L', r)" "ladder_small L'"
    by (rule ladder_set_small [OF L l [unfolded pq]])
  let ?b1 = "putLadder s L' b"
  have b1: "book_small ?b1" by (rule book_small_put(1) [OF b L'(2)])
  have "\<exists>b2. (if r then rebuildOfiSide s ?b1 else Some ?b1) = Some b2 \<and> book_small b2 \<and> sideLadder s b2 = L'"
  proof (cases r)
    case True
    obtain x where x: "bestOf s L' = Some x" "small x" using walks_small(1) [OF L'(2)] by blast
    obtain V' where "rebuildLoop (walkOf s L') (ladder_get L') (ofiDepth b) x = Some V'" "view_small V'"
      using rebuild_total [of "walkOf s L'" "ladder_get L'", OF walks_small(2,3) [OF L'(2)] x(2)] by blast
    then show ?thesis using True x book_small_put(2) [OF b1]
      by (intro exI [of _ "putView s V' ?b1"]) (simp add: rebuildOfiSide_side rebuildSide_def)
  next
    case False
    then show ?thesis using b1 by simp
  qed
  then obtain b2 where b2: "(if r then rebuildOfiSide s ?b1 else Some ?b1) = Some b2" "book_small b2"
    "sideLadder s b2 = L'" by blast
  have V2: "view_small (ofiSide s b2)" using b2(2) by (simp add: book_small_def)
  obtain V' c where u: "updateSideView (better s) (bestOf s L') (walkOf s L') (ladder_get L') (ofiDepth b2) (ofiSide s b2) p q
      = Some (V', c)" "view_small V'" "change_small c"
    using updateSideView_total [of "bestOf s L'" "walkOf s L'" "ladder_get L'", OF walks_small [OF L'(2)] V2 p(1) q]
    by blast
  obtain more where more: "viewDeltas c s kind = Some more" using viewDeltas_total [OF u(3)] by blast
  have b3: "book_small (putView s V' b2)" by (rule book_small_put(2) [OF b2(2) u(2)])
  have up: "updateOfiView p q s b2 = Some (c, putView s V' b2)" by (simp add: updateOfiView_side b2(3) u(1))
  show ?thesis
    unfolding pq applyLevelChange_def prod.case prev(1) isDeep_law [OF ladder_smallD(1) [OF L] p(2)]
      Option.bind_lunit L'(1) Let_def b2(1) ll_Some [OF delta] up more
    using b b2(2) b3 by simp
qed

lemma run_total:
  assumes "book_small b" "\<forall>l \<in> set ls. feed_ok l"
  shows "\<exists>out' b'. foldM (applyLevelChange kind s) (out, b) ls = Some (out', b') \<and> book_small b'"
  using foldM_inv [of "\<lambda>x. book_small (snd x)" "(out, b)" ls "applyLevelChange kind s"]
    applyLevelChange_total assms by fastforce

section \<open>Updates and snapshots on bounded data\<close>

lemma book_small_id: "book_small (b\<lparr>lastUpdateId := i\<rparr>) = book_small b"
  by (simp add: book_small_def sideLadder_def ofiSide_def)

lemma applyLevelChange_frame:
  assumes "applyLevelChange kind s (out, b) l = Some (out', b')"
  shows "snapshotApplied b' = snapshotApplied b \<and> lastUpdateId b' = lastUpdateId b \<and> ofiDepth b' = ofiDepth b"
proof -
  have put: "snapshotApplied (putLadder s L x) = snapshotApplied x \<and> lastUpdateId (putLadder s L x) = lastUpdateId x \<and>
      ofiDepth (putLadder s L x) = ofiDepth x" for L x
    by (simp add: putLadder_def)
  have view: "snapshotApplied (putView s V x) = snapshotApplied x \<and> lastUpdateId (putView s V x) = lastUpdateId x \<and>
      ofiDepth (putView s V x) = ofiDepth x" for V x
    by (simp add: putView_def)
  have rebuild: "snapshotApplied y = snapshotApplied x \<and> lastUpdateId y = lastUpdateId x \<and> ofiDepth y = ofiDepth x"
    if "rebuildOfiSide s x = Some y" for x y
    using that view by (auto simp: rebuildOfiSide_side split: Option.bind_splits)
  have up: "snapshotApplied y = snapshotApplied x \<and> lastUpdateId y = lastUpdateId x \<and> ofiDepth y = ofiDepth x"
    if "updateOfiView p q s x = Some (c, y)" for p q x c y
    using that view by (auto simp: updateOfiView_side split: Option.bind_splits)
  show ?thesis
    using assms unfolding applyLevelChange_def
    by (auto simp: Let_def put split: prod.splits Option.bind_splits if_splits dest!: rebuild up)
qed

lemma run_frame:
  "foldM (applyLevelChange kind s) (out, b) ls = Some (out', b') \<Longrightarrow>
     snapshotApplied b' = snapshotApplied b \<and> lastUpdateId b' = lastUpdateId b \<and> ofiDepth b' = ofiDepth b"
proof (induction ls arbitrary: out b)
  case (Cons l ls)
  then obtain o1 b1 where "applyLevelChange kind s (out, b) l = Some (o1, b1)"
    "foldM (applyLevelChange kind s) (o1, b1) ls = Some (out', b')"
    by (auto split: Option.bind_splits)
  with Cons.IH [OF this(2)] applyLevelChange_frame [OF this(1)] show ?case by simp
qed simp

lemma applyUpdateCore_frame:
  assumes "applyUpdateCore b firstId lastId asks bids kind = Some (r, b')"
  shows "snapshotApplied b' = snapshotApplied b \<and> ofiDepth b' = ofiDepth b \<and>
    (if stale b lastId then b' = b \<and> success r \<and> deltas r = []
     else if gap b firstId then b' = b \<and> \<not> success r \<and> deltas r = []
     else success r \<and> lastUpdateId b' = lastId)"
  using assms unfolding applyUpdateCore_def
  by (auto simp: stale_def gap_def split: Option.bind_splits if_splits dest!: run_frame)

text \<open>What kind the deltas of a change have, with no assumption on the book.\<close>

lemma viewDeltas_kinds: "viewDeltas c s kind = Some ds \<Longrightarrow> d \<in> set ds \<Longrightarrow> d_kind d = secondaryKind kind"
  by (auto simp: viewDeltas_def split: Option.bind_splits if_splits)

lemma applyLevelChange_kinds:
  assumes "applyLevelChange kind s (out, b) l = Some (out', b')" "\<forall>d \<in> set out. d_kind d \<in> {kind, secondaryKind kind}"
  shows "\<forall>d \<in> set out'. d_kind d \<in> {kind, secondaryKind kind}"
  using assms viewDeltas_kinds [of _ s kind] unfolding applyLevelChange_def
  by (auto simp: Let_def split: prod.splits Option.bind_splits if_splits)

lemma run_kinds:
  "foldM (applyLevelChange kind s) (out, b) ls = Some (out', b') \<Longrightarrow> \<forall>d \<in> set out. d_kind d \<in> {kind, secondaryKind kind} \<Longrightarrow>
     \<forall>d \<in> set out'. d_kind d \<in> {kind, secondaryKind kind}"
proof (induction ls arbitrary: out b)
  case (Cons l ls)
  then obtain o1 b1 where s: "applyLevelChange kind s (out, b) l = Some (o1, b1)"
    "foldM (applyLevelChange kind s) (o1, b1) ls = Some (out', b')"
    by (auto split: Option.bind_splits)
  from Cons.IH [OF s(2) applyLevelChange_kinds [OF s(1) Cons.prems(2)]] show ?case .
qed simp

lemma both_kinds:
  assumes "foldM (applyLevelChange kind s) ([], b) xs = Some (d1, b1)" "foldM (applyLevelChange kind s') (d1, b1) ys = Some (d2, b2)"
  shows "\<forall>d \<in> set d2. d_kind d = kind \<or> d_kind d = secondaryKind kind"
  using run_kinds [OF assms(2) run_kinds [OF assms(1)]] by simp

lemma applyUpdateCore_kinds:
  assumes "applyUpdateCore b firstId lastId asks bids kind = Some (r, b')"
  shows "\<forall>d \<in> set (deltas r). d_kind d \<in> {kind, secondaryKind kind}"
  using assms unfolding applyUpdateCore_def
  by (auto split: Option.bind_splits if_splits dest!: both_kinds)

lemma applyUpdateCore_total:
  assumes "book_small b" "in_ll (lastUpdateId b)" "in_ll lastId" "\<forall>l \<in> set asks \<union> set bids. feed_ok l"
  shows "\<exists>r b'. applyUpdateCore b firstId lastId asks bids kind = Some (r, b') \<and> book_small b' \<and> in_ll (lastUpdateId b')"
proof (cases "stale b lastId \<or> gap b firstId")
  case True
  then show ?thesis using applyUpdateCore_skip [OF assms(2,3)] assms(1,2) by (cases "stale b lastId") auto
next
  case False
  obtain d1 b1 where 1: "foldM (applyLevelChange kind False) ([], b) asks = Some (d1, b1)" "book_small b1"
    using run_total [OF assms(1), of asks kind False "[]"] assms(4) by blast
  obtain d2 b2 where 2: "foldM (applyLevelChange kind True) (d1, b1) bids = Some (d2, b2)" "book_small b2"
    using run_total [OF 1(2), of bids kind True d1] assms(4) by blast
  have "in_ll (lastUpdateId b + 1)" using False assms(2,3) by (simp add: in_ll_def stale_def)
  with 1 2 False show ?thesis using assms(3)
    by (simp add: applyUpdateCore_def stale_def gap_def ll_Some book_small_id)
qed

text \<open>The deltas of a change of both sides, in the order of Kraken: bids first.\<close>

lemma both_sides_total:
  assumes "book_small b" "\<forall>l \<in> set xs \<union> set ys. feed_ok l"
  shows "\<exists>ds b'. do { s1 \<leftarrow> foldM (applyLevelChange kind s) ([], b) xs; foldM (applyLevelChange kind t) s1 ys } = Some (ds, b') \<and>
    book_small b'"
proof -
  obtain d1 b1 where 1: "foldM (applyLevelChange kind s) ([], b) xs = Some (d1, b1)" "book_small b1"
    using run_total [OF assms(1), of xs kind s "[]"] assms(2) by blast
  with run_total [OF 1(2), of ys kind t d1] assms(2) show ?thesis by auto
qed

lemma book_small_sides:
  "book_small b \<longleftrightarrow> ladder_small (bidLadder b) \<and> ladder_small (askLadder b) \<and> view_small (ofiBids b) \<and> view_small (ofiAsks b)"
proof -
  have "(\<forall>s. P s) \<longleftrightarrow> P True \<and> P False" for P :: "bool \<Rightarrow> bool" by (metis (full_types))
  then show ?thesis unfolding book_small_def by (simp only: sideLadder_def ofiSide_def if_True if_False) blast
qed

lemma clear_small: "ladder_small L \<Longrightarrow> ladder_small (ladder_clear L)"
  using clear_law [of L] by (simp add: ladder_small_def)

lemma book_clear_small: "book_small b \<Longrightarrow> book_small (book_clear b)"
  by (simp add: book_small_sides book_clear_def clear_small view_small_def)

lemma snapshotLevel_total:
  assumes L: "ladder_small L" and l: "feed_ok l"
  shows "\<exists>L'. snapshotLevel L l = Some L' \<and> ladder_small L'"
proof -
  obtain p q where pq: "l = (p, q)" by (cases l)
  have p: "\<bar>p\<bar> \<le> 2 ^ 60" using l by (simp add: pq feed_ok_def)
  obtain L' r where "ladder_set L p q = Some (L', r)" "ladder_small L'"
    by (rule ladder_set_small [OF L l [unfolded pq]])
  then show ?thesis using L by (simp add: snapshotLevel_def pq inRange_law [OF ladder_smallD(1) [OF L] p])
qed

lemma rebuildOfiSide_total:
  assumes "book_small b"
  shows "\<exists>V. rebuildOfiSide s b = Some (putView s V b) \<and> book_small (putView s V b)"
proof -
  have L: "ladder_small (sideLadder s b)" using assms by (simp add: book_small_def)
  obtain x where x: "bestOf s (sideLadder s b) = Some x" "small x" using walks_small(1) [OF L] by blast
  obtain V where "rebuildLoop (walkOf s (sideLadder s b)) (ladder_get (sideLadder s b)) (ofiDepth b) x = Some V" "view_small V"
    using rebuild_total [of "walkOf s (sideLadder s b)" "ladder_get (sideLadder s b)", OF walks_small(2,3) [OF L] x(2)] by blast
  then show ?thesis using x book_small_put(2) [OF assms]
    by (intro exI [of _ V]) (simp add: rebuildOfiSide_side rebuildSide_def)
qed

lemma loadSnapshot_total:
  assumes b: "book_small b" and ls: "\<forall>l \<in> set asks \<union> set bids. feed_ok l"
  shows "\<exists>b'. loadSnapshot b i asks bids = Some b' \<and> book_small b' \<and> snapshotApplied b' \<and> lastUpdateId b' = i \<and> ofiDepth b' = ofiDepth b"
proof -
  have load: "\<exists>L'. foldM snapshotLevel L xs = Some L' \<and> ladder_small L'" if "ladder_small L" "\<forall>l \<in> set xs. feed_ok l" for L xs
    using foldM_inv [of ladder_small L xs snapshotLevel, OF that(1)] snapshotLevel_total that(2) by blast
  have L: "ladder_small (ladder_clear (bidLadder b))" "ladder_small (ladder_clear (askLadder b))"
    using b clear_small by (simp_all add: book_small_sides)
  obtain bl where bl: "foldM snapshotLevel (ladder_clear (bidLadder b)) bids = Some bl" "ladder_small bl"
    using load [OF L(1), of bids] ls by auto
  obtain al where al: "foldM snapshotLevel (ladder_clear (askLadder b)) asks = Some al" "ladder_small al"
    using load [OF L(2), of asks] ls by auto
  define b1 where "b1 = b\<lparr>lastUpdateId := i, bidLadder := bl, askLadder := al, ofiBids := [], ofiAsks := []\<rparr>"
  have "book_small b1" using bl al by (simp add: book_small_sides b1_def view_small_def)
  then obtain V where V: "rebuildOfiSide True b1 = Some (putView True V b1)" "book_small (putView True V b1)"
    using rebuildOfiSide_total by blast
  obtain W where W: "rebuildOfiSide False (putView True V b1) = Some (putView False W (putView True V b1))"
    "book_small (putView False W (putView True V b1))"
    using rebuildOfiSide_total [OF V(2)] by blast
  let ?b' = "(putView False W (putView True V b1))\<lparr>snapshotApplied := True\<rparr>"
  have "loadSnapshot b i asks bids = Some ?b'"
    by (simp add: loadSnapshot_def bl(1) al(1) b1_def [symmetric] V(1) W(1))
  moreover have "book_small ?b'" using W(2) by (simp add: book_small_sides)
  ultimately show ?thesis by (simp add: b1_def putView_def)
qed

end
