(* ===== verification/Example_Book.thy ===== *)
theory Example_Book
  imports Ofi_Callback Book_Safety
begin

text \<open>
  A small book for the instances of the properties: tick 1, windows of five prices, a view
  of two levels. It is the result of loading a snapshot into an empty book.
\<close>

definition demo_ladder :: ladder where
  "demo_ladder = \<lparr>tickSize = 1, halfRange = 2, slots = 5, basePrice = 0, initialized = False,
     qtys = [0, 0, 0, 0, 0], count = 0, bestHighIdx = - 1, bestLowIdx = - 1\<rparr>"

definition demo_empty :: orderbook where
  "demo_empty = \<lparr>lastUpdateId = 0, snapshotApplied = False, ofiDepth = 2, bidLadder = demo_ladder,
     askLadder = demo_ladder, ofiBids = [], ofiAsks = []\<rparr>"

definition demo_book :: orderbook where
  "demo_book = \<lparr>lastUpdateId = 7, snapshotApplied = True, ofiDepth = 2,
     bidLadder = \<lparr>tickSize = 1, halfRange = 2, slots = 5, basePrice = 8, initialized = True,
       qtys = [2, 3, 5, 0, 0], count = 3, bestHighIdx = 2, bestLowIdx = 0\<rparr>,
     askLadder = \<lparr>tickSize = 1, halfRange = 2, slots = 5, basePrice = 10, initialized = True,
       qtys = [0, 0, 4, 6, 0], count = 2, bestHighIdx = 3, bestLowIdx = 2\<rparr>,
     ofiBids = [(10, 5), (9, 3)], ofiAsks = [(12, 4), (13, 6)]\<rparr>"

lemma demo_load: "loadSnapshot demo_empty 7 [(12, 4), (13, 6)] [(10, 5), (9, 3), (8, 2)] = Some demo_book"
  by code_simp

lemma demo_ladder_inv: "ladder_inv demo_ladder" "\<And>p. qty_at demo_ladder p = 0" "\<not> initialized demo_ladder"
proof -
  have "newLadder 1 2 = Inr demo_ladder" by code_simp
  then show "ladder_inv demo_ladder" "\<And>p. qty_at demo_ladder p = 0" "\<not> initialized demo_ladder"
    using newLadder_law [of 1 2 demo_ladder] by simp_all
qed

lemma demo_empty_inv: "book_inv demo_empty"
proof -
  have "side_inv demo_ladder" using demo_ladder_inv by (simp add: side_inv_def)
  moreover have "sideLadder s demo_empty = demo_ladder" "ofiSide s demo_empty = []" for s
    by (simp_all add: demo_empty_def sideLadder_def ofiSide_def)
  ultimately show ?thesis
    using demo_ladder_inv(2) by (simp add: book_inv_def empty_view) (simp add: demo_empty_def)
qed

lemma demo_level_ok:
  "level_ok (sideLadder s demo_empty) (p, q) \<longleftrightarrow> 0 < p \<and> p \<le> 2 ^ 60 \<and> 0 \<le> q \<and> q \<le> LLONG_MAX"
  "level_ok (sideLadder s demo_book) (p, q) \<longleftrightarrow> 0 < p \<and> p \<le> 2 ^ 60 \<and> 0 \<le> q \<and> q \<le> LLONG_MAX"
  by (simp_all add: level_ok_def sideLadder_def demo_empty_def demo_ladder_def demo_book_def)

lemma demo_book_inv: "book_inv demo_book"
proof -
  have "\<forall>l \<in> set [(12, 4), (13, 6)]. load_ok (askLadder demo_empty) l"
    "\<forall>l \<in> set [(10, 5), (9, 3), (8, 2)]. load_ok (bidLadder demo_empty) l"
    using demo_level_ok(1) [of False] demo_level_ok(1) [of True] by (simp_all add: load_ok_def int_limits)
  from loadSnapshot_law [OF demo_empty_inv this, of 7]
  obtain b' where "loadSnapshot demo_empty 7 [(12, 4), (13, 6)] [(10, 5), (9, 3), (8, 2)] = Some b'" "book_inv b'"
    by metis
  then show ?thesis by (simp add: demo_load)
qed

lemma demo_levels_ok: "levels_ok demo_book [(11, 1), (12, 0)] [(11, 9)]"
  using demo_level_ok(2) [of False] demo_level_ok(2) [of True] by (simp add: levels_ok_def int_limits)

lemma demo_ids: "in_ll (lastUpdateId demo_book)" "in_ll 9" "\<not> stale demo_book 9" "\<not> gap demo_book 8"
  by (simp_all add: demo_book_def in_ll_def int_limits stale_def gap_def)

lemma demo_windowed: "windowed False demo_book [(11, 1), (12, 0)]" "windowed True demo_book [(11, 9)]"
  by (simp_all add: windowed_def demo_book_def in_window_def)

lemma demo_kept: "windows_kept demo_book [(11, 1), (12, 0)] [(11, 9)]"
  by (rule windowed_windows_kept [OF demo_book_inv demo_windowed])

text \<open>A message with a bid that is dropped, beyond the far end of its window.\<close>

lemma demo_deep_kept: "levels_ok demo_book [(11, 1), (12, 0)] [(11, 9), (3, 5)]" "windows_kept demo_book [(11, 1), (12, 0)] [(11, 9), (3, 5)]"
proof -
  show "levels_ok demo_book [(11, 1), (12, 0)] [(11, 9), (3, 5)]"
    using demo_level_ok(2) [of False] demo_level_ok(2) [of True] by (simp add: levels_ok_def int_limits)
  let ?W = "window_of (bidLadder demo_book)"
  have W: "w_in ?W 11" "\<not> w_in ?W 3" "w_base ?W = 8" by (simp_all add: w_in_def window_of_def demo_book_def)
  have "w_holds (w_level True ?W (11, 9))"
    unfolding w_holds_def using W(1) by (intro exI [of _ 11]) (simp add: Let_def w_level_def w_deep_def w_centred_def)
  moreover have "w_base (w_level True ?W (11, 9)) = 8" "\<not> w_in (w_level True ?W (11, 9)) 3"
    using W by (simp_all add: w_level_in) (simp add: Let_def w_level_def w_deep_def w_centred_def)
  ultimately have "window_kept True ?W [(11, 9), (3, 5)]" using W(1) by (simp add: w_moves_def w_deep_def)
  then show "windows_kept demo_book [(11, 1), (12, 0)] [(11, 9), (3, 5)]" using demo_kept by (simp add: windows_kept_def)
qed

lemmas demo_facts = demo_book_inv demo_levels_ok demo_ids demo_kept

end
