(* ===== verification/Book_Properties.thy ===== *)
theory Book_Properties
  imports Example_Book
begin

text \<open>The properties of \<open>OrderBook\<close> and of the update callback, with their instances.\<close>

section \<open>What one accepted update does to both sides\<close>

text \<open>A side and its view before and after, with the deltas of that side.\<close>

lemma accepted_update_sides:
  assumes b: "book_inv b" and id: "in_ll (lastUpdateId b)" "in_ll lastId" and ok: "levels_ok b asks bids"
    and go: "\<not> stale b lastId" "\<not> gap b firstId" and w: "windows_kept b asks bids"
  obtains da db b' where
    "applyUpdateCore b firstId lastId asks bids kind = Some (\<lparr>success = True, deltas = da @ db\<rparr>, b')"
    "book_inv b'" "lastUpdateId b' = lastId"
    "kind \<noteq> Backfill \<Longrightarrow> exact_ofi da = - (view_sum (ofiAsks b') - view_sum (ofiAsks b))"
    "kind \<noteq> Backfill \<Longrightarrow> exact_ofi db = view_sum (ofiBids b') - view_sum (ofiBids b)"
    "\<And>d. d \<in> set da \<Longrightarrow> \<not> d_isBid d" "\<And>d. d \<in> set db \<Longrightarrow> d_isBid d"
    "\<And>keep. (\<And>d. d_kind d = kind \<Longrightarrow> keep d) \<Longrightarrow>
       replay (qty_at (askLadder b)) (filter keep da) = qty_at (askLadder b')"
    "\<And>keep. (\<And>d. d_kind d = kind \<Longrightarrow> keep d) \<Longrightarrow>
       replay (qty_at (bidLadder b)) (filter keep db) = qty_at (bidLadder b')"
proof -
  obtain da db b1 b2 where run: "applyUpdateCore b firstId lastId asks bids kind
       = Some (\<lparr>success = True, deltas = da @ db\<rparr>, b2\<lparr>lastUpdateId := lastId\<rparr>)"
    "level_run kind False b asks da b1" "level_run kind True b1 bids db b2" "book_inv b1" "book_inv b2"
    by (rule applyUpdateCore_run [OF b id ok go])
  have same: "bidLadder b1 = bidLadder b" "ofiBids b1 = ofiBids b" "askLadder b2 = askLadder b1" "ofiAsks b2 = ofiAsks b1"
    using level_run_same [OF run(2)] level_run_same [OF run(3)] by (simp_all add: same_but_def)
  have w: "window_kept False (window_of (sideLadder False b)) asks" "window_kept True (window_of (sideLadder True b1)) bids"
    using w same(1) by (simp_all add: windows_kept_def)
  note a = run_ofi [OF run(2) w(1)] run_ofi [OF run(3) w(2)]
  show thesis
  proof (rule that [OF run(1)])
    show "book_inv (b2\<lparr>lastUpdateId := lastId\<rparr>)" using run(5) by (simp add: book_inv_id)
    show "\<not> d_isBid d" if "d \<in> set da" for d using level_run_side [OF run(2) that] by simp
    show "d_isBid d" if "d \<in> set db" for d using level_run_side [OF run(3) that] by simp
    show "replay (qty_at (askLadder b)) (filter keep da) = qty_at (askLadder (b2\<lparr>lastUpdateId := lastId\<rparr>))"
      if "\<And>d. d_kind d = kind \<Longrightarrow> keep d" for keep
      using level_run_replay [OF run(2) w(1) that] by (simp add: same)
    show "replay (qty_at (bidLadder b)) (filter keep db) = qty_at (bidLadder (b2\<lparr>lastUpdateId := lastId\<rparr>))"
      if "\<And>d. d_kind d = kind \<Longrightarrow> keep d" for keep
      using level_run_replay [OF run(3) w(2) that] by (simp add: same)
  qed (use a in \<open>simp_all add: same\<close>)
qed

section \<open>Updates\<close>

text \<open>
  C8: A sequenced update whose levels the ladder can store (prices from 1 to \<open>2^60\<close> that are
  multiples of the tick, quantities from 0 to \<open>LLONG_MAX\<close>) never faults and keeps the
  invariant: both ladders are consistent and each OFI view is exactly the best
  \<open>ofiDepth\<close> levels of its side. A stale update succeeds without effect, an update after a
  gap is refused without effect, any other is applied and advances the update id.
\<close>

theorem update_keeps_book:
  assumes "book_inv b" "in_ll (lastUpdateId b)" "in_ll lastId" "levels_ok b asks bids"
  shows "\<exists>r b'. applyUpdateCore b firstId lastId asks bids kind = Some (r, b') \<and> book_inv b' \<and>
    (if lastId \<le> lastUpdateId b then success r \<and> deltas r = [] \<and> b' = b
     else if lastUpdateId b + 1 < firstId then \<not> success r \<and> deltas r = [] \<and> b' = b
     else success r \<and> lastUpdateId b' = lastId)"
proof (cases "stale b lastId \<or> gap b firstId")
  case True
  then show ?thesis using applyUpdateCore_skip [OF assms(2,3)] assms(1)
    by (cases "stale b lastId") (auto simp: stale_def gap_def)
next
  case False
  then obtain da db b1 b2 where "applyUpdateCore b firstId lastId asks bids kind
       = Some (\<lparr>success = True, deltas = da @ db\<rparr>, b2\<lparr>lastUpdateId := lastId\<rparr>)" "book_inv b2"
    using applyUpdateCore_run [OF assms, of firstId kind] by blast
  with False show ?thesis by (simp add: book_inv_id stale_def gap_def)
qed

lemma update_keeps_book_demo:
  "\<exists>r b'. applyUpdateCore demo_book 8 9 [(11, 1), (12, 0)] [(11, 9)] Genuine = Some (r, b') \<and> book_inv b' \<and>
     success r \<and> lastUpdateId b' = 9"
  using update_keeps_book [OF demo_book_inv demo_ids(1,2) demo_levels_ok, of 8 Genuine] demo_ids(3,4)
  by (simp add: stale_def gap_def)

text \<open>
  C9: The deltas of an accepted live update that moves no window account for the viewed volume:
  the order-flow value that the callback sums from them (the levels that are or were in
  view, evicted and replaced levels included) is the change of the viewed bid volume minus
  that of the viewed ask volume, exactly while the quantities of the counted deltas add up to a
  \<open>long long\<close>. No window moves when each level of the message lies in the window of its side,
  or is dropped beyond its far end, or finds the side empty; when one does move
  the window of a side that holds levels, the deltas do not tell what it discards
  (\<open>window_move_unreported\<close>). The levels are those the ladder stores, as in C8.
\<close>

theorem update_ofi_is_view_change:
  assumes "book_inv b" "in_ll (lastUpdateId b)" "in_ll lastId" "levels_ok b asks bids"
    "\<not> stale b lastId" "\<not> gap b firstId" "windows_kept b asks bids" "kind \<noteq> Backfill"
  shows "\<exists>r b'. applyUpdateCore b firstId lastId asks bids kind = Some (r, b') \<and>
    exact_ofi (deltas r) = (view_sum (ofiBids b') - view_sum (ofiBids b)) - (view_sum (ofiAsks b') - view_sum (ofiAsks b)) \<and>
    (traffic (deltas r) \<le> LLONG_MAX \<longrightarrow> fst (batchOfi (deltas r)) = exact_ofi (deltas r))"
proof -
  obtain da db b' where u: "applyUpdateCore b firstId lastId asks bids kind = Some (\<lparr>success = True, deltas = da @ db\<rparr>, b')"
    "exact_ofi da = - (view_sum (ofiAsks b') - view_sum (ofiAsks b))"
    "exact_ofi db = view_sum (ofiBids b') - view_sum (ofiBids b)"
    using accepted_update_sides [OF assms(1-7), of kind thesis] assms(8) by metis
  then show ?thesis by (simp add: batchOfi_exact)
qed

lemma update_ofi_is_view_change_demo:
  "\<exists>r b'. applyUpdateCore demo_book 8 9 [(11, 1), (12, 0)] [(11, 9), (3, 5)] Genuine = Some (r, b') \<and>
    exact_ofi (deltas r) = (view_sum (ofiBids b') - view_sum (ofiBids demo_book))
      - (view_sum (ofiAsks b') - view_sum (ofiAsks demo_book))"
  using update_ofi_is_view_change [OF demo_book_inv demo_ids(1,2) demo_deep_kept(1) demo_ids(3,4) demo_deep_kept(2), of Genuine]
  by auto

text \<open>
  C10: A subscriber that holds the levels of a side and overwrites them with the \<open>Genuine\<close>
  deltas of an accepted live update, as they are broadcast, holds the levels of the side
  afterwards, when the update moves the window of no side that holds levels (each level lies
  in the window, or is dropped beyond its far end, or finds the side empty) and its
  levels are those the ladder stores, as in C8.
\<close>

theorem genuine_deltas_replay:
  assumes "book_inv b" "in_ll (lastUpdateId b)" "in_ll lastId" "levels_ok b asks bids"
    "\<not> stale b lastId" "\<not> gap b firstId" "windows_kept b asks bids"
  shows "\<exists>r b'. applyUpdateCore b firstId lastId asks bids Genuine = Some (r, b') \<and>
    (\<forall>s. replay (qty_at (sideLadder s b)) (filter (\<lambda>d. d_kind d = Genuine \<and> d_isBid d = s) (deltas r))
          = qty_at (sideLadder s b'))"
proof (rule accepted_update_sides [OF assms, of Genuine])
  fix da db b'
  assume u: "applyUpdateCore b firstId lastId asks bids Genuine = Some (\<lparr>success = True, deltas = da @ db\<rparr>, b')"
    and sides: "\<And>d. d \<in> set da \<Longrightarrow> \<not> d_isBid d" "\<And>d. d \<in> set db \<Longrightarrow> d_isBid d"
    and asks: "\<And>keep. (\<And>d. d_kind d = Genuine \<Longrightarrow> keep d) \<Longrightarrow>
      replay (qty_at (askLadder b)) (filter keep da) = qty_at (askLadder b')"
    and bids: "\<And>keep. (\<And>d. d_kind d = Genuine \<Longrightarrow> keep d) \<Longrightarrow>
      replay (qty_at (bidLadder b)) (filter keep db) = qty_at (bidLadder b')"
  have "filter (\<lambda>d. d_kind d = Genuine \<and> d_isBid d = s) (da @ db)
      = filter (\<lambda>d. d_kind d = Genuine) (if s then db else da)" for s
    using sides by (auto simp: filter_empty_conv intro!: filter_cong)
  with u asks [of "\<lambda>d. d_kind d = Genuine"] bids [of "\<lambda>d. d_kind d = Genuine"]
  show ?thesis by (simp add: sideLadder_def)
qed

lemma genuine_deltas_replay_demo:
  "\<exists>r b'. applyUpdateCore demo_book 8 9 [(11, 1), (12, 0)] [(11, 9), (3, 5)] Genuine = Some (r, b') \<and>
    (\<forall>s. replay (qty_at (sideLadder s demo_book)) (filter (\<lambda>d. d_kind d = Genuine \<and> d_isBid d = s) (deltas r))
          = qty_at (sideLadder s b'))"
  by (rule genuine_deltas_replay [OF demo_book_inv demo_ids(1,2) demo_deep_kept(1) demo_ids(3,4) demo_deep_kept(2)])

text \<open>
  C11: An accepted update does to each side what the rule of its window says, level by level in
  the order of the message: a level beyond the far end of a window that holds levels is dropped,
  a level in the window is overwritten, any other level moves the window to its price and keeps
  only the levels the new window contains. When every level of a side lies in its window, the
  new map is the old one overwritten by the levels, quantity 0 removing a level. The levels are
  those the ladder stores: prices from 1 to \<open>2^60\<close> that are multiples of the tick, no negative
  quantities.
\<close>

theorem update_levels:
  assumes "book_inv b" "in_ll (lastUpdateId b)" "in_ll lastId" "levels_ok b asks bids"
    "\<not> stale b lastId" "\<not> gap b firstId"
  shows "\<exists>r b'. applyUpdateCore b firstId lastId asks bids kind = Some (r, b') \<and>
    (\<forall>s. window_of (sideLadder s b') = foldl (w_level s) (window_of (sideLadder s b)) (if s then bids else asks) \<and>
       (windowed s b (if s then bids else asks) \<longrightarrow>
          qty_at (sideLadder s b') = foldl (\<lambda>m l. m(fst l := snd l)) (qty_at (sideLadder s b)) (if s then bids else asks)))"
proof -
  obtain da db b1 b2 where run: "applyUpdateCore b firstId lastId asks bids kind
       = Some (\<lparr>success = True, deltas = da @ db\<rparr>, b2\<lparr>lastUpdateId := lastId\<rparr>)"
    "level_run kind False b asks da b1" "level_run kind True b1 bids db b2" "book_inv b1" "book_inv b2"
    by (rule applyUpdateCore_run [OF assms])
  have W: "window_of (sideLadder s (b2\<lparr>lastUpdateId := lastId\<rparr>)) = foldl (w_level s) (window_of (sideLadder s b)) (if s then bids else asks)" for s
    using level_run_same [OF run(2)] level_run_same [OF run(3)] level_run_refines [OF run(2)] level_run_refines [OF run(3)]
    by (cases s) (simp_all add: same_but_def sideLadder_def)
  have "qty_at (sideLadder s (b2\<lparr>lastUpdateId := lastId\<rparr>)) = foldl (\<lambda>m l. m(fst l := snd l)) (qty_at (sideLadder s b)) (if s then bids else asks)"
    if "windowed s b (if s then bids else asks)" for s
  proof -
    note i = book_invD(3) [OF assms(1), of s]
    have "\<forall>l \<in> set (if s then bids else asks). w_in (window_of (sideLadder s b)) (fst l)"
      using that by (simp add: windowed_def window_of_simps(1) [OF i])
    moreover have "\<forall>x. \<not> w_in (window_of (sideLadder s b)) x \<longrightarrow> w_qty (window_of (sideLadder s b)) x = 0"
      unfolding window_of_simps(1) [OF i] by (simp add: window_of_def qty_at_def)
    ultimately have "window_of (sideLadder s (b2\<lparr>lastUpdateId := lastId\<rparr>))
        = (window_of (sideLadder s b))\<lparr>w_qty := foldl upd_level (qty_at (sideLadder s b)) (if s then bids else asks)\<rparr>"
      unfolding W using foldl_w_level_in by (simp add: window_of_def)
    from arg_cong [OF this, of w_qty] show ?thesis by (simp add: window_of_def upd_level_def [abs_def])
  qed
  with run(1) W show ?thesis by blast
qed

text \<open>In the example the asks lie in their window, and the bid moves the other one.\<close>

lemma update_levels_demo:
  "\<exists>r b'. applyUpdateCore demo_book 8 9 [(11, 1), (12, 0)] [(14, 1)] Genuine = Some (r, b') \<and>
    qty_at (askLadder b') = (qty_at (askLadder demo_book))(11 := 1, 12 := 0) \<and>
    basePrice (bidLadder b') = 12 \<and> qty_at (bidLadder b') 14 = 1 \<and> qty_at (bidLadder b') 10 = 0"
proof -
  have ok: "levels_ok demo_book [(11, 1), (12, 0)] [(14, 1)]"
    using demo_level_ok(2) [of False] demo_level_ok(2) [of True] by (simp add: levels_ok_def int_limits)
  obtain r b' where u: "applyUpdateCore demo_book 8 9 [(11, 1), (12, 0)] [(14, 1)] Genuine = Some (r, b')"
    "window_of (bidLadder b') = w_level True (window_of (bidLadder demo_book)) (14, 1)"
    "windowed False demo_book [(11, 1), (12, 0)] \<longrightarrow> qty_at (askLadder b') = (qty_at (askLadder demo_book))(11 := 1, 12 := 0)"
    using update_levels [OF demo_book_inv demo_ids(1,2) ok demo_ids(3,4), of Genuine] by (auto simp: all_bool_eq)
  have W: "w_base (w_level True (window_of (bidLadder demo_book)) (14, 1)) = 12"
    "w_qty (w_level True (window_of (bidLadder demo_book)) (14, 1)) 14 = 1"
    "w_qty (w_level True (window_of (bidLadder demo_book)) (14, 1)) 10 = 0"
    by (simp_all add: w_level_def w_deep_def w_centred_def w_in_def window_of_def demo_book_def sdiv_nonneg)
  have "w_base (window_of (bidLadder b')) = 12" "w_qty (window_of (bidLadder b')) 14 = 1" "w_qty (window_of (bidLadder b')) 10 = 0"
    unfolding u(2) by (fact W)+
  then show ?thesis using u(1,3) demo_windowed(1) by (simp add: window_of_def)
qed

section \<open>Sequencing\<close>

text \<open>A series of messages, each of them accepted.\<close>

inductive accepted ::
  "event_kind \<Rightarrow> orderbook \<Rightarrow> (int \<times> int \<times> level list \<times> level list) list \<Rightarrow> orderbook \<Rightarrow> bool" for kind where
  accept_none: "accepted kind b [] b"
| accept_one: "applyUpdateCore b f l asks bids kind = Some (r, b') \<Longrightarrow> success r \<Longrightarrow> accepted kind b' us b'' \<Longrightarrow>
    accepted kind b ((f, l, asks, bids) # us) b''"

inductive_cases accepted_ConsE: "accepted kind b (u # us) b'"

lemma accepted_id:
  assumes "applyUpdateCore b f l asks bids kind = Some (r, b')" "success r"
  shows "(l \<le> lastUpdateId b \<and> b' = b) \<or> (f \<le> lastUpdateId b + 1 \<and> lastUpdateId b < l \<and> lastUpdateId b' = l)"
  using assms unfolding applyUpdateCore_def
  by (auto split: if_splits Option.bind_splits simp: Let_def)

text \<open>
  C12: No exchange update is ever skipped: if every message of a series is accepted, each
  update id between the book's old and new id lies in the range of one of the messages.
\<close>

theorem no_update_skipped:
  assumes "accepted kind b us b'" "lastUpdateId b < i" "i \<le> lastUpdateId b'"
  shows "\<exists>(f, l, asks, bids) \<in> set us. f \<le> i \<and> i \<le> l"
  using assms
proof (induction rule: accepted.induct)
  case (accept_one b f l asks bids r b' us b'')
  show ?case
  proof (cases "lastUpdateId b' < i")
    case True
    with accept_one.IH accept_one.prems(2) show ?thesis by auto
  next
    case False
    with accepted_id [OF accept_one.hyps(1,2)] accept_one.prems(1) show ?thesis by auto
  qed
qed simp

lemma no_update_skipped_demo:
  "\<exists>b'. accepted Genuine demo_book [(8, 9, [(11, 1), (12, 0)], [(11, 9)])] b' \<and> lastUpdateId b' = 9 \<and>
     (\<exists>(f, l, asks, bids) \<in> set [(8::int, 9::int, [(11::int, 1::int), (12, 0)], [(11::int, 9::int)])]. f \<le> 9 \<and> 9 \<le> l)"
proof -
  obtain r b' where r: "applyUpdateCore demo_book 8 9 [(11, 1), (12, 0)] [(11, 9)] Genuine = Some (r, b')"
    "success r" "lastUpdateId b' = 9"
    by (rule applyUpdateCore_run [OF demo_book_inv demo_ids(1,2) demo_levels_ok demo_ids(3,4), of Genuine]) simp
  have acc: "accepted Genuine demo_book [(8, 9, [(11, 1), (12, 0)], [(11, 9)])] b'"
    by (rule accept_one [OF r(1,2) accept_none])
  have "lastUpdateId demo_book < 9" by (simp add: demo_book_def)
  from no_update_skipped [OF acc this] acc r(3) show ?thesis by auto
qed

text \<open>
  C13: Decoding an update throws exactly when one of its price or quantity texts does not
  denote a number of the range, whatever the book; the book is only touched afterwards.
\<close>

theorem update_throws_iff:
  "(\<exists>e. applyUpdate b msg kind = Some (Inl e)) \<longleftrightarrow>
     (\<exists>(ps, qs) \<in> set (m_a msg) \<union> set (m_b msg).
        (\<nexists>p. denotes ps p \<and> in_ll p) \<or> (\<nexists>q. denotes qs q \<and> in_ll q))"
proof -
  have level: "(\<exists>l. parseLevel x = Inr l) \<longleftrightarrow> (\<exists>p. denotes (fst x) p \<and> in_ll p) \<and> (\<exists>q. denotes (snd x) q \<and> in_ll q)" for x
    by (cases x) (auto simp: parseLevel_def parseDecimal_denotes)
  have map_level: "(\<exists>ls. map_exn parseLevel xs = Inr ls) \<longleftrightarrow> (\<forall>x \<in> set xs. \<exists>l. parseLevel x = Inr l)" for xs
    by (induction xs) auto
  have "(\<exists>e. applyUpdate b msg kind = Some (Inl e)) \<longleftrightarrow>
      \<not> ((\<exists>ls. map_exn parseLevel (m_a msg) = Inr ls) \<and> (\<exists>ls. map_exn parseLevel (m_b msg) = Inr ls))"
    unfolding applyUpdate_def
    by (cases "map_exn parseLevel (m_a msg)"; cases "map_exn parseLevel (m_b msg)") (auto split: Option.bind_splits)
  then show ?thesis unfolding map_level level by (auto simp: case_prod_unfold)
qed

lemma update_throws_iff_demo:
  "\<exists>e. applyUpdate demo_book \<lparr>m_U = 8, m_u = 9, m_a = [(''1.5'', ''1e5'')], m_b = []\<rparr> Genuine = Some (Inl e)"
proof -
  have "map_sum (\<lambda>_. ()) id (parseDecimal ''1e5'') = Inl ()" by code_simp
  then have "\<nexists>q. denotes ''1e5'' q \<and> in_ll q" by (auto simp: parseDecimal_denotes [symmetric])
  then show ?thesis by (subst update_throws_iff) auto
qed

section \<open>Reading the book\<close>

lemma count_active:
  assumes "ladder_inv L"
  shows "activeCount L = card (active L)"
proof -
  have "distinct (map fst (levels L))" using levels_sorted [OF assms] by (simp add: strict_sorted_iff)
  then have "card (set (map fst (levels L))) = length (levels L)" by (metis distinct_card length_map)
  moreover have "set (map fst (levels L)) = active L" using levels_set [OF assms] by (auto simp: active_def image_iff)
  moreover have "length (levels L) = length (filter (\<lambda>q. 0 < q) (qtys L))"
    by (simp add: levels_def length_filter_conv_card cong: conj_cong)
  ultimately show ?thesis using ladder_inv_derived(1) [OF assms] by (simp add: activeCount_def)
qed

lemma best_of_view:
  assumes "book_inv b"
  shows "(if ofiSide s b \<noteq> [] then fst (hd (ofiSide s b)) else 0)
    = (if s then max0 (active (sideLadder s b)) else min0 (active (sideLadder s b)))"
proof -
  note h = view_head [OF book_invD(4) [OF assms, of s] book_invD(1) [OF assms]] and fin = finite_active [OF book_invD(3) [OF assms, of s]]
  show ?thesis
  proof (cases "ofiSide s b = []")
    case True
    then have "active (sideLadder s b) = {}" using h(1) by (auto simp: active_def not_less)
    then show ?thesis using True by (cases s) simp_all
  next
    case False
    let ?p = "fst (hd (ofiSide s b))"
    have p: "?p \<in> active (sideLadder s b)" using h(2) [OF False] by (simp add: active_def)
    have "x = ?p \<or> better s ?p x" if "x \<in> active (sideLadder s b)" for x
      using h(3) [OF False, of x] that by (auto simp: active_def)
    then show ?thesis using False max0_eqI [OF fin p] min0_eqI [OF fin p]
      by (cases s) (force simp: better_def)+
  qed
qed

text \<open>
  C14: The statistics are exact: the counts are the numbers of levels, and the best bid and ask
  are the doubles for the highest bid and the lowest ask divided by \<open>10^8\<close>, 0 on an empty side;
  they are within a relative error of \<open>2^-51\<close> of these prices.
\<close>

theorem stats_exact:
  assumes "book_inv b"
  shows "getStats b =
    \<lparr>asksCount = card {p. 0 < qty_at (askLadder b) p}, bidsCount = card {p. 0 < qty_at (bidLadder b) p},
     bestAsk = unscaled (min0 {p. 0 < qty_at (askLadder b) p}), bestBid = unscaled (max0 {p. 0 < qty_at (bidLadder b) p})\<rparr> \<and>
    \<bar>bestAsk (getStats b) - of_int (min0 {p. 0 < qty_at (askLadder b) p}) / 10 ^ 8\<bar>
      \<le> \<bar>of_int (min0 {p. 0 < qty_at (askLadder b) p}) / 10 ^ 8\<bar> / 2 ^ 51 \<and>
    \<bar>bestBid (getStats b) - of_int (max0 {p. 0 < qty_at (bidLadder b) p}) / 10 ^ 8\<bar>
      \<le> \<bar>of_int (max0 {p. 0 < qty_at (bidLadder b) p}) / 10 ^ 8\<bar> / 2 ^ 51"
proof -
  have z: "(if P then unscaled x else 0) = unscaled (if P then x else 0)" for P x
    by (simp add: unscaled_def int_double_def to_double_def)
  have "getStats b =
    \<lparr>asksCount = card {p. 0 < qty_at (askLadder b) p}, bidsCount = card {p. 0 < qty_at (bidLadder b) p},
     bestAsk = unscaled (min0 {p. 0 < qty_at (askLadder b) p}), bestBid = unscaled (max0 {p. 0 < qty_at (bidLadder b) p})\<rparr>"
    using best_of_view [OF assms, of True, unfolded sideLadder_simps if_True]
      best_of_view [OF assms, of False, unfolded sideLadder_simps if_False]
      count_active [OF book_invD(3) [OF assms, of True]] count_active [OF book_invD(3) [OF assms, of False]]
    by (simp only: getStats_def z active_def sideLadder_simps)
  then show ?thesis by (simp only: book_stats.simps unscaled_error simp_thms)
qed

lemma stats_exact_demo:
  "getStats demo_book = \<lparr>asksCount = 2, bidsCount = 3, bestAsk = unscaled 12, bestBid = unscaled 10\<rparr> \<and>
   \<bar>bestBid (getStats demo_book) - 1 / 10 ^ 7\<bar> \<le> 1 / 10 ^ 7 / 2 ^ 51"
proof -
  have s: "getStats demo_book = \<lparr>asksCount = 2, bidsCount = 3, bestAsk = unscaled 12, bestBid = unscaled 10\<rparr>"
    by (simp add: getStats_def demo_book_def activeCount_def)
  have best: "max0 {p. 0 < qty_at (bidLadder demo_book) p} = 10"
    using best_of_view [OF demo_book_inv, of True] by (simp add: active_def demo_book_def)
  have "\<bar>bestBid (getStats demo_book) - of_int 10 / 10 ^ 8\<bar> \<le> \<bar>of_int 10 / 10 ^ 8\<bar> / 2 ^ 51"
    using stats_exact [OF demo_book_inv, unfolded best] by (elim conjE)
  then have "\<bar>bestBid (getStats demo_book) - 1 / 10 ^ 7\<bar> \<le> 1 / 10 ^ 7 / 2 ^ 51" by simp
  with s show ?thesis by blast
qed

text \<open>
  C15: The full-book snapshot lists exactly the levels of both sides, asks in strictly
  ascending and bids in strictly descending price order.
\<close>

theorem snapshot_lists_book:
  assumes "book_inv b" "snapshotApplied b"
  shows "\<exists>s. getSnapshot b = Some s \<and> applied s \<and>
    set (snap_asks s) = {(p, qty_at (askLadder b) p) | p. 0 < qty_at (askLadder b) p} \<and>
    set (snap_bids s) = {(p, qty_at (bidLadder b) p) | p. 0 < qty_at (bidLadder b) p} \<and>
    sorted_wrt (<) (map fst (snap_asks s)) \<and> sorted_wrt (>) (map fst (snap_bids s))"
  using getSnapshot_law [OF assms] levels_set [OF book_invD(3) [OF assms(1), of True]]
    levels_set [OF book_invD(3) [OF assms(1), of False]] levels_sorted [OF book_invD(3) [OF assms(1), of True]]
    levels_sorted [OF book_invD(3) [OF assms(1), of False]]
  by (simp add: rev_map [symmetric] sorted_wrt_rev)

lemma snapshot_lists_book_demo:
  "\<exists>s. getSnapshot demo_book = Some s \<and> snap_bids s = [(10, 5), (9, 3), (8, 2)] \<and>
     sorted_wrt (>) (map fst (snap_bids s))"
proof -
  have "snapshotApplied demo_book" by (simp add: demo_book_def)
  from snapshot_lists_book [OF demo_book_inv this]
  obtain s where s: "getSnapshot demo_book = Some s" "sorted_wrt (>) (map fst (snap_bids s))" by blast
  moreover have "map_option snap_bids (getSnapshot demo_book) = Some [(10, 5), (9, 3), (8, 2)]" by code_simp
  ultimately show ?thesis by auto
qed

section \<open>Loading a snapshot\<close>

text \<open>
  C16: A snapshot whose texts are decimals replaces the book: the update id is the one of
  the snapshot, the invariant holds, and each side holds exactly the positive levels that
  lie in the window around its first level (the last quantity wins for a repeated price).
\<close>

theorem snapshot_replaces_book:
  assumes "book_inv b" "map_exn parseLevel (s_asks msg) = Inr asks" "map_exn parseLevel (s_bids msg) = Inr bids"
    "\<forall>l \<in> set asks. 0 < snd l \<longrightarrow> level_ok (askLadder b) l" "\<forall>l \<in> set bids. 0 < snd l \<longrightarrow> level_ok (bidLadder b) l"
  shows "\<exists>b'. applySnapshot b msg = Some (Inr b') \<and> book_inv b' \<and> snapshotApplied b' \<and>
    lastUpdateId b' = s_lastUpdateId msg \<and>
    qty_at (askLadder b') = loaded (askLadder b) (filter (\<lambda>l. 0 < snd l) asks) \<and>
    qty_at (bidLadder b') = loaded (bidLadder b) (filter (\<lambda>l. 0 < snd l) bids)"
proof -
  have "\<forall>l \<in> set (filter (\<lambda>l. 0 < snd l) asks). load_ok (askLadder b) l"
    "\<forall>l \<in> set (filter (\<lambda>l. 0 < snd l) bids). load_ok (bidLadder b) l"
    using assms(4,5) by (auto simp: load_ok_def)
  from loadSnapshot_law [OF assms(1) this, of "s_lastUpdateId msg"]
  obtain b' where "loadSnapshot b (s_lastUpdateId msg) (filter (\<lambda>l. 0 < snd l) asks) (filter (\<lambda>l. 0 < snd l) bids) = Some b'"
    "book_inv b'" "lastUpdateId b' = s_lastUpdateId msg" "snapshotApplied b'"
    "qty_at (bidLadder b') = loaded (bidLadder b) (filter (\<lambda>l. 0 < snd l) bids)"
    "qty_at (askLadder b') = loaded (askLadder b) (filter (\<lambda>l. 0 < snd l) asks)" by metis
  then show ?thesis by (simp add: applySnapshot_def assms(2,3))
qed

lemma snapshot_replaces_book_demo:
  "\<exists>b'. applySnapshot demo_empty \<lparr>s_lastUpdateId = 7, s_asks = [(''0.00000012'', ''0.00000004'')], s_bids = []\<rparr> = Some (Inr b') \<and>
     qty_at (askLadder b') 12 = 4 \<and> lastUpdateId b' = 7"
proof -
  let ?msg = "\<lparr>s_lastUpdateId = 7, s_asks = [(''0.00000012'', ''0.00000004'')], s_bids = []\<rparr>"
  have parse: "map_exn parseLevel (s_asks ?msg) = Inr [(12, 4)]" "map_exn parseLevel (s_bids ?msg) = Inr []"
    by code_simp+
  have "level_ok (askLadder demo_empty) (12, 4)" using demo_level_ok(1) [of False] by (simp add: int_limits)
  then have "\<forall>l \<in> set [(12, 4)]. 0 < snd l \<longrightarrow> level_ok (askLadder demo_empty) l" by simp
  from snapshot_replaces_book [OF demo_empty_inv parse this]
  obtain b' where "applySnapshot demo_empty ?msg = Some (Inr b')" "lastUpdateId b' = 7"
    "qty_at (askLadder b') = loaded (askLadder demo_empty) [(12, 4)]" by auto
  moreover have "loaded (askLadder demo_empty) [(12, 4)] 12 = 4"
    by (simp add: loaded_def first_window_def center_def demo_empty_def demo_ladder_def upd_level_def sdiv_nonneg)
  ultimately show ?thesis by auto
qed

section \<open>Levels outside the window\<close>

text \<open>
  A level beyond the far end of the window (a bid below it, an ask above it) of a side
  that holds levels is dropped: the book is unchanged and no delta is emitted.
\<close>

lemma deep_level_dropped:
  assumes "ladder_inv (sideLadder s b)" "\<bar>p\<bar> \<le> 2 ^ 60" "activeCount (sideLadder s b) \<noteq> 0"
    "\<not> in_window (sideLadder s b) p"
    "if s then p < basePrice (sideLadder s b)
     else basePrice (sideLadder s b) + (slots (sideLadder s b) - 1) * tickSize (sideLadder s b) < p"
  shows "applyLevelChange kind s (out, b) (p, q) = Some (out, b)"
proof -
  have "deep s (sideLadder s b) p" using assms(3-5) by (simp add: deep_def)
  then show ?thesis
    using get_floor [OF assms(1,2)] isDeep_law [OF assms(1,2), of s] by (simp add: applyLevelChange_def)
qed

lemma deep_level_dropped_demo: "applyLevelChange Genuine True ([], demo_book) (3, 9) = Some ([], demo_book)"
  by (rule deep_level_dropped)
    (use book_invD(3) [OF demo_book_inv, of True] in \<open>simp_all add: demo_book_def activeCount_def in_window_def\<close>)

text \<open>
  C17: Any other level outside the window moves it: the window is centred on the price, the
  level is stored, the levels of the new window are kept and all others are lost; the view
  is again that of the best levels.
\<close>

theorem window_moves_to_level:
  assumes "book_inv b" "level_ok (sideLadder s b) l" "moved (sideLadder s b) (fst l)" "\<not> deep s (sideLadder s b) (fst l)"
  shows "\<exists>ds b'. applyLevelChange kind s ([], b) l = Some (ds, b') \<and> book_inv b' \<and>
    basePrice (sideLadder s b') = center (sideLadder s b) (fst l) \<and>
    qty_at (sideLadder s b') = (\<lambda>x. if x = fst l then snd l
      else if in_window (sideLadder s b') x then qty_at (sideLadder s b) x else 0)"
proof -
  obtain ds b' where r: "applyLevelChange kind s ([], b) l = Some ([] @ ds, b')" "book_inv b'" "level_change kind s b l ds b'"
    by (rule applyLevelChange_law [OF assms(1,2)])
  then have "side_step (sideLadder s b) l (sideLadder s b')"
    using assms(4) by (simp add: level_change_def Let_def)
  with r assms(3) show ?thesis by (simp add: side_step_def moved_def)
qed

lemma window_moves_to_level_demo:
  "\<exists>ds b'. applyLevelChange Genuine True ([], demo_book) (13, 1) = Some (ds, b') \<and> book_inv b' \<and>
     basePrice (bidLadder b') = 11 \<and> qty_at (bidLadder b') 10 = 0"
proof -
  let ?l = "(13, 1) :: level"
  have ok: "level_ok (sideLadder True demo_book) ?l" using demo_level_ok(2) [of True] by (simp add: int_limits)
  have out: "moved (sideLadder True demo_book) (fst ?l)" "\<not> deep True (sideLadder True demo_book) (fst ?l)"
    by (simp_all add: moved_def deep_def demo_book_def in_window_def)
  have "center (sideLadder True demo_book) (fst ?l) = 11"
    by (simp add: center_def demo_book_def sdiv_nonneg)
  with window_moves_to_level [OF demo_book_inv ok out, of Genuine] show ?thesis by (auto simp: in_window_def)
qed

text \<open>
  A move of the window is not reported: here a bid above the window discards three
  levels, the viewed bid volume falls by 7, and the deltas say that it rose by 1.
\<close>

lemma window_move_unreported:
  "\<exists>ds b'. applyLevelChange Genuine True ([], demo_book) (13, 1) = Some (ds, b') \<and>
     map d_price ds = [13] \<and> view_delta ds = 1 \<and> view_sum (ofiBids b') - view_sum (ofiBids demo_book) = - 7 \<and>
     forEach (bidLadder b') = Some [(13, 1)]"
proof -
  have run: "map_option (\<lambda>(ds, b'). (map d_price ds, view_delta ds, view_sum (ofiBids b') - view_sum (ofiBids demo_book),
      forEach (bidLadder b'))) (applyLevelChange Genuine True ([], demo_book) (13, 1))
    = Some ([13], 1, - 7, Some [(13, 1)])" by code_simp
  obtain ds b' where "applyLevelChange Genuine True ([], demo_book) (13, 1) = Some (ds, b')"
    "(map d_price ds, view_delta ds, view_sum (ofiBids b') - view_sum (ofiBids demo_book), forEach (bidLadder b'))
      = ([13], 1, - 7, Some [(13, 1)])"
    using run unfolding map_option_eq_Some by force
  then show ?thesis by auto
qed

text \<open>
  The removal of a level the book does not have can empty a side without a delta: a
  bid of quantity 0 above the window moves it away from all levels.
\<close>

lemma absent_removal_empties_side:
  "\<exists>b'. applyLevelChange Genuine True ([], demo_book) (20, 0) = Some ([], b') \<and>
     forEach (bidLadder b') = Some [] \<and> ofiBids b' = []"
proof -
  have run: "map_option (\<lambda>(ds, b'). (map d_price ds, forEach (bidLadder b'), ofiBids b'))
      (applyLevelChange Genuine True ([], demo_book) (20, 0)) = Some ([], Some [], [])" by code_simp
  obtain ds b' where "applyLevelChange Genuine True ([], demo_book) (20, 0) = Some (ds, b')"
    "(map d_price ds, forEach (bidLadder b'), ofiBids b') = ([], Some [], [])"
    using run unfolding map_option_eq_Some by force
  then show ?thesis by auto
qed

section \<open>Any feed\<close>

text \<open>
  C18: On a book whose ladders are consistent and whose levels are at most \<open>2^60\<close> from 0 (a new or cleared
  one, or one such updates have built), no update with prices from 0 to \<open>2^60\<close> and quantities
  from 0 to \<open>LLONG_MAX\<close> faults, whether or not its prices are multiples of the tick: no signed overflow,
  no access outside the ladder, no failed assertion, in this update and, as the condition on the
  book is kept, in those after it. Beyond \<open>2^60\<close> one can (\<open>window_end_overflows\<close>).
\<close>

theorem update_never_faults:
  assumes "book_small b" "in_ll (lastUpdateId b)" "in_ll lastId" "\<forall>l \<in> set asks \<union> set bids. feed_ok l"
  shows "\<exists>r b'. applyUpdateCore b firstId lastId asks bids kind = Some (r, b') \<and> book_small b' \<and> in_ll (lastUpdateId b')"
  by (rule applyUpdateCore_total [OF assms])

lemma update_never_faults_demo:
  "\<exists>r b'. applyUpdateCore demo_empty 1 1 [(1000, 3), (5, 0)] [(999, 2), (0, 7)] Genuine = Some (r, b') \<and> book_small b'"
proof -
  have "ladder_small demo_ladder" using demo_ladder_inv by (simp add: ladder_small_def)
  moreover have "sideLadder s demo_empty = demo_ladder" "ofiSide s demo_empty = []" for s
    by (simp_all add: demo_empty_def sideLadder_def ofiSide_def)
  ultimately have b: "book_small demo_empty" by (simp add: book_small_def view_small_def)
  have id: "in_ll (lastUpdateId demo_empty)" "in_ll 1" by (simp_all add: demo_empty_def in_ll_def int_limits)
  have "\<forall>l \<in> set [(1000, 3), (5, 0)] \<union> set [(999, 2), (0, 7)]. feed_ok l" by (simp add: feed_ok_def amount_def int_limits)
  from update_never_faults [OF b id this, of 1 Genuine] show ?thesis by auto
qed

text \<open>
  The bound on the prices is needed: a window around a price next to \<open>LLONG_MAX\<close>, which
  \<open>parseDecimal\<close> accepts, has an upper end that is no \<open>long long\<close>, and the next ask outside it
  makes \<open>windowHigh\<close> overflow.
\<close>

lemma window_end_overflows:
  "applyUpdateCore demo_empty 1 1 [(LLONG_MAX, 1), (10, 1)] [] Genuine = None \<and>
   parseDecimal ''92233720368.54775807'' = Inr LLONG_MAX"
proof
  have "Option.is_none (applyUpdateCore demo_empty 1 1 [(9223372036854775807, 1), (10, 1)] [] Genuine)" by code_simp
  then show "applyUpdateCore demo_empty 1 1 [(LLONG_MAX, 1), (10, 1)] [] Genuine = None"
    by (simp add: Option.is_none_def int_limits)
  show "parseDecimal ''92233720368.54775807'' = Inr LLONG_MAX" unfolding int_limits by code_simp
qed

text \<open>
  A negative quantity, which \<open>parseDecimal\<close> accepts, fails the assertion of the ladder
  unless the level is dropped as deep.
\<close>

lemma negative_quantity_asserts:
  assumes "ladder_inv (sideLadder s b)" "\<bar>p\<bar> \<le> 2 ^ 60" "\<not> deep s (sideLadder s b) p" "q < 0"
  shows "applyLevelChange kind s (out, b) (p, q) = None"
  using assms(3,4) get_floor [OF assms(1,2)] isDeep_law [OF assms(1,2), of s]
  by (simp add: applyLevelChange_def ladder_set_def)

lemma negative_quantity_asserts_demo:
  "applyLevelChange Genuine True ([], demo_book) (10, - 1) = None \<and> parseLevel (''0.0000001'', ''-0.00000001'') = Inr (10, - 1)"
proof -
  have "\<not> deep True (sideLadder True demo_book) 10" by (simp add: deep_def in_window_def demo_book_def)
  moreover have "parseLevel (''0.0000001'', ''-0.00000001'') = Inr (10, - 1)" by code_simp
  ultimately show ?thesis
    using negative_quantity_asserts [OF book_invD(3) [OF demo_book_inv], of 10 True "- 1"] by simp
qed

end
