(* ===== verification/Ladder_Properties.thy ===== *)
theory Ladder_Properties
  imports Ladder_Laws
begin

text \<open>The properties of \<open>PriceLadder\<close>, stated on the results of its public operations.\<close>

lemma window_floor:
  assumes "ladder_inv L"
  shows "in_window L (tick_floor L x) = in_window L x"
proof (cases "initialized L")
  case True
  have t: "0 < tickSize L" by (rule ladder_inv_basics(1) [OF assms])
  obtain k where k: "basePrice L = tickSize L * k" using ladder_inv_base(1) [OF assms True] by (auto elim: dvdE)
  have floor: "tick_floor L x = tickSize L * (x div tickSize L)" by (simp add: tick_floor_def minus_mod_eq_mult_div)
  have "(x - basePrice L) div tickSize L = x div tickSize L - k"
    using t div_mult_self2 [of "tickSize L" x "- k"] by (simp add: k)
  moreover have "(tick_floor L x - basePrice L) div tickSize L = x div tickSize L - k"
    using t by (simp add: floor k right_diff_distrib [symmetric])
  moreover have "basePrice L \<le> x \<longleftrightarrow> k \<le> x div tickSize L"
    using int_le_div_iff [OF t, of k x] by (simp add: k mult.commute)
  moreover have "basePrice L \<le> tick_floor L x \<longleftrightarrow> k \<le> x div tickSize L"
    using t by (simp add: k floor)
  ultimately show ?thesis using True by (simp add: in_window_def)
qed (simp add: in_window_def)

text \<open>
  C19: \<open>set\<close> never faults and stores its quantity: afterwards \<open>get\<close> returns it for every
  price of the same tick, the old quantity for any other price in the window, and 0 for a
  price outside it. It reports a move exactly when an initialised window does not contain
  the price.
\<close>

theorem ladder_set_get:
  assumes "ladder_inv L" "price_ok L p" "0 \<le> q" "q \<le> LLONG_MAX"
  shows "\<exists>L'. ladder_set L p q = Some (L', initialized L \<and> \<not> in_window L p) \<and> ladder_inv L' \<and>
    (\<forall>x. \<bar>x\<bar> \<le> 2 ^ 60 \<longrightarrow> ladder_get L' x =
      (if tick_floor L x = tick_floor L p then Some q else if in_window L' x then ladder_get L x else Some 0))"
proof (rule set_law [OF assms])
  fix L'
  assume set: "ladder_set L p q = Some (L', initialized L \<and> \<not> in_window L p)" "ladder_inv L'"
    and p: "in_window L' p" and tick: "tickSize L' = tickSize L"
    and qty: "\<And>x. qty_at L' x = (if x = tick_floor L p then q else if in_window L' x then qty_at L x else 0)"
  have floor: "tick_floor L' x = tick_floor L x" for x by (simp add: tick_floor_def tick)
  have "ladder_get L' x =
      (if tick_floor L x = tick_floor L p then Some q else if in_window L' x then ladder_get L x else Some 0)"
    if x: "\<bar>x\<bar> \<le> 2 ^ 60" for x
  proof (cases "tick_floor L x = tick_floor L p")
    case True
    then have "in_window L' x" using window_floor [OF set(2), of x] window_floor [OF set(2), of p] p by (simp add: floor)
    then show ?thesis using get_floor [OF set(2) x] True by (simp add: floor qty)
  next
    case False
    have "qty_at L (tick_floor L x) = (if in_window L x then qty_at L (tick_floor L x) else 0)"
      using window_floor [OF assms(1), of x] by (simp add: qty_at_def)
    then show ?thesis using False window_floor [OF set(2), of x]
      by (simp add: get_floor [OF set(2) x] get_floor [OF assms(1) x] floor qty)
  qed
  with set show ?thesis by blast
qed

definition sample_ladder :: ladder where
  "sample_ladder = \<lparr>tickSize = 10, halfRange = 2, slots = 5, basePrice = 80, initialized = True,
     qtys = [0, 3, 5, 0, 0], count = 2, bestHighIdx = 2, bestLowIdx = 1\<rparr>"

lemma sample_inv: "ladder_inv sample_ladder"
  by code_simp

lemma ladder_set_get_sample:
  "\<exists>L'. ladder_set sample_ladder 113 7 = Some (L', False) \<and> ladder_get L' 119 = Some 7 \<and> ladder_get L' 95 = Some 3"
proof -
  have "price_ok sample_ladder 113" by (simp add: price_ok_def)
  from ladder_set_get [OF sample_inv this, of 7]
  obtain L' where L': "ladder_set sample_ladder 113 7 = Some (L', False)"
    "\<forall>x. \<bar>x\<bar> \<le> 2 ^ 60 \<longrightarrow> ladder_get L' x = (if tick_floor sample_ladder x = tick_floor sample_ladder 113
       then Some 7 else if in_window L' x then ladder_get sample_ladder x else Some 0)"
    by (auto simp: int_limits sample_ladder_def in_window_def)
  have set: "map_option (basePrice \<circ> fst) (ladder_set sample_ladder 113 7) = Some 80"
    "map_option (tickSize \<circ> fst) (ladder_set sample_ladder 113 7) = Some 10"
    "map_option (initialized \<circ> fst) (ladder_set sample_ladder 113 7) = Some True"
    "map_option (slots \<circ> fst) (ladder_set sample_ladder 113 7) = Some 5" "ladder_get sample_ladder 95 = Some 3"
    by code_simp+
  then have "in_window L' 95" using L'(1) by (simp add: in_window_def)
  then have "ladder_get L' 119 = Some 7" "ladder_get L' 95 = Some 3"
    using L'(2) set(5) by (simp_all add: tick_floor_def sample_ladder_def)
  with L'(1) show ?thesis by blast
qed

text \<open>
  C20: The walks are exact: \<open>bestHigh\<close> and \<open>bestLow\<close> are the highest and lowest level,
  \<open>prevBelow\<close> the highest level below a price and \<open>nextAbove\<close> the lowest level above it,
  0 when there is none.
\<close>

theorem ladder_walks_exact:
  assumes "ladder_inv L" "\<bar>x\<bar> \<le> 2 ^ 60"
  shows "bestHigh L = Some (max0 {p. 0 < qty_at L p}) \<and> bestLow L = Some (min0 {p. 0 < qty_at L p}) \<and>
    prevBelow L x = Some (max0 {p. 0 < qty_at L p \<and> p < x}) \<and>
    nextAbove L x = Some (min0 {p. 0 < qty_at L p \<and> x < p})"
  using bestHigh_law [OF assms(1)] bestLow_law [OF assms(1)] prevBelow_law [OF assms] nextAbove_law [OF assms]
  by (simp_all add: active_def)

lemma ladder_walks_exact_sample:
  "prevBelow sample_ladder 100 = Some 90 \<and> max0 {p. 0 < qty_at sample_ladder p \<and> p < 100} = 90"
proof -
  have small: "\<bar>100::int\<bar> \<le> 2 ^ 60" by simp
  have "prevBelow sample_ladder 100 = Some 90" by code_simp
  with ladder_walks_exact [OF sample_inv small] show ?thesis by simp
qed

text \<open>
  \<open>forEach\<close> visits exactly the levels, each once and in strictly ascending price order.
\<close>

lemma ladder_forEach_exact:
  assumes "ladder_inv L"
  shows "\<exists>ls. forEach L = Some ls \<and> set ls = {(p, qty_at L p) | p. 0 < qty_at L p} \<and> sorted_wrt (<) (map fst ls)"
  using forEach_law [OF assms] levels_set [OF assms] levels_sorted [OF assms] by blast

lemma ladder_forEach_exact_sample:
  "forEach sample_ladder = Some [(90, 3), (100, 5)] \<and> {(p, qty_at sample_ladder p) | p. 0 < qty_at sample_ladder p} = {(90, 3), (100, 5)}"
proof -
  have "forEach sample_ladder = Some [(90, 3), (100, 5)]" by code_simp
  with ladder_forEach_exact [OF sample_inv] show ?thesis by auto
qed

text \<open>
  The constructor throws exactly on a tick that is not positive or a range that is
  negative or too large for an \<open>int\<close> size; otherwise the ladder is empty and, for ticks up
  to \<open>2^60\<close> divided by the size, consistent.
\<close>

lemma newLadder_cases:
  "((\<exists>e. newLadder t h = Inl e) \<longleftrightarrow> t \<le> 0 \<or> h < 0 \<or> INT_MAX < h * 2 + 1) \<and>
   (\<forall>L. newLadder t h = Inr L \<and> (h * 2 + 1) * t \<le> 2 ^ 60 \<longrightarrow> ladder_inv L \<and> forEach L = Some [] \<and> activeCount L = 0)"
proof
  show "(\<exists>e. newLadder t h = Inl e) \<longleftrightarrow> t \<le> 0 \<or> h < 0 \<or> INT_MAX < h * 2 + 1"
    by (auto simp: newLadder_def int_limits)
  show "\<forall>L. newLadder t h = Inr L \<and> (h * 2 + 1) * t \<le> 2 ^ 60 \<longrightarrow> ladder_inv L \<and> forEach L = Some [] \<and> activeCount L = 0"
  proof (intro allI impI)
    fix L assume L: "newLadder t h = Inr L \<and> (h * 2 + 1) * t \<le> 2 ^ 60"
    note l = newLadder_law [OF conjunct1 [OF L] conjunct2 [OF L]]
    have "levels L = []" using levels_set [OF l(1)] l(2) by auto
    then show "ladder_inv L \<and> forEach L = Some [] \<and> activeCount L = 0"
      using l forEach_law [OF l(1)] activeCount_zero_iff [OF l(1)] by simp
  qed
qed

lemma newLadder_cases_sample: "\<exists>L. newLadder 1000000 5000 = Inr L \<and> ladder_inv L \<and> forEach L = Some []"
proof -
  obtain L where L: "newLadder 1000000 5000 = Inr L" by (simp add: newLadder_def int_limits)
  with newLadder_cases [of 1000000 5000] show ?thesis by auto
qed

text \<open>
  \<open>clear\<close> empties the ladder and forgets its window, so that the next level centres it.
\<close>

lemma ladder_clear_empties:
  assumes "ladder_inv L"
  shows "ladder_inv (ladder_clear L) \<and> forEach (ladder_clear L) = Some [] \<and> activeCount (ladder_clear L) = 0 \<and>
    (\<forall>p q. price_ok L p \<longrightarrow> 0 \<le> q \<longrightarrow> q \<le> LLONG_MAX \<longrightarrow>
      (\<exists>L'. ladder_set (ladder_clear L) p q = Some (L', False) \<and> basePrice L' = center L p))"
proof -
  note c = clear_law [OF assms]
  have "levels (ladder_clear L) = []" using levels_set [OF c(1)] c(2) by auto
  then have "forEach (ladder_clear L) = Some []" "activeCount (ladder_clear L) = 0"
    using forEach_law [OF c(1)] activeCount_zero_iff [OF c(1)] c(2) by simp_all
  moreover have "\<exists>L'. ladder_set (ladder_clear L) p q = Some (L', False) \<and> basePrice L' = center L p"
    if "price_ok L p" "0 \<le> q" "q \<le> LLONG_MAX" for p q
  proof -
    have "price_ok (ladder_clear L) p" using that(1) by (simp add: price_ok_def c(5))
    moreover have "\<not> in_window (ladder_clear L) p" using c(3) by (simp add: in_window_def)
    moreover have "center (ladder_clear L) p = center L p" by (simp add: center_def c(4,5))
    ultimately show ?thesis using set_law [OF c(1) _ that(2,3)] c(3) by metis
  qed
  ultimately show ?thesis using c(1) by blast
qed

lemma ladder_clear_empties_sample:
  "forEach (ladder_clear sample_ladder) = Some [] \<and> ladder_inv (ladder_clear sample_ladder)"
  using ladder_clear_empties [OF sample_inv] by blast

end
