(* ===== verification/Number_Properties.thy ===== *)
theory Number_Properties
  imports Decimal Metrics
begin

text \<open>The properties of the arithmetic, of decimal text and of the histogram.\<close>

text \<open>
  C21: \<open>parseDecimal\<close> accepts exactly the texts of the decimal grammar whose value is in
  the range of \<open>long long\<close>, and returns that value; every other text throws.
\<close>

theorem parseDecimal_exact: "parseDecimal s = Inr v \<longleftrightarrow> denotes s v \<and> LLONG_MIN \<le> v \<and> v \<le> LLONG_MAX"
  using parseDecimal_denotes by (simp add: in_ll_def)

text \<open>
  C22: Printing a price or quantity for a subscriber and parsing it back gives the same
  number, for every \<open>long long\<close>, the smallest included.
\<close>

theorem format_parse_roundtrip:
  assumes "LLONG_MIN \<le> x" "x \<le> LLONG_MAX"
  shows "parseDecimal (formatScaled x) = Inr x"
  using formatScaled_denotes [of x] parseDecimal_denotes assms by (simp add: in_ll_def)

lemma format_parse_roundtrip_min:
  "parseDecimal (formatScaled (- 9223372036854775808)) = Inr (- 9223372036854775808) \<and>
   formatScaled (- 9223372036854775808) = ''-92233720368.54775808''"
proof -
  have le: "LLONG_MIN \<le> - 9223372036854775808" "- 9223372036854775808 \<le> LLONG_MAX" by (simp_all add: int_limits)
  have printed: "formatScaled (- 9223372036854775808) = ''-92233720368.54775808''"
    by (simp add: formatScaled_def to_u64_def SCALE_def to_string.simps digit_of_def pad8_def drop_zeros_def)
  from format_parse_roundtrip [OF le] printed show ?thesis by (simp only: simp_thms)
qed

text \<open>
  The throwing operations return the exact result when it is a \<open>long long\<close> and throw
  otherwise.
\<close>

lemma safe_arithmetic_exact:
  assumes "in_ll a" "in_ll b"
  shows "(safeMultiply a b c = Inr r \<longleftrightarrow> r = a * b \<and> in_ll r) \<and>
    (safeAdd a b c = Inr r \<longleftrightarrow> r = a + b \<and> in_ll r) \<and>
    (safeSubstract a b c = Inr r \<longleftrightarrow> r = a - b \<and> in_ll r)"
  using safeMultiply_cases [of a b c r] safeAdd_cases [OF assms, of c r] safeSubstract_cases [OF assms, of c r] by auto

lemma safe_arithmetic_exact_instance:
  "safeMultiply 3037000500 3037000500 ''x'' \<noteq> Inr (3037000500 * 3037000500) \<and> safeAdd 2 3 ''x'' = Inr 5"
proof -
  have ll: "in_ll 3037000500" "in_ll 2" "in_ll 3" "in_ll 5" "\<not> in_ll (3037000500 * 3037000500)"
    by (simp_all add: in_ll_def int_limits)
  show ?thesis
    using safe_arithmetic_exact [OF ll(1) ll(1), of "''x''" "3037000500 * 3037000500"]
      safe_arithmetic_exact [OF ll(2,3), of "''x''" 5] ll(4,5) by simp
qed

text \<open>
  The saturating operations return the exact result clamped to the range of
  \<open>long long\<close>.
\<close>

lemma checked_arithmetic_clamps:
  assumes "in_ll a" "in_ll b"
  shows "checkedAdd a b = max LLONG_MIN (min LLONG_MAX (a + b)) \<and>
    checkedSubtract a b = max LLONG_MIN (min LLONG_MAX (a - b)) \<and>
    checkedMultiply a b = max LLONG_MIN (min LLONG_MAX (a * b))"
  using checked_is_clamp [OF assms] by (simp_all add: clamp_ll_def)

lemma checked_arithmetic_clamps_instance: "checkedSubtract (- 2) LLONG_MAX = LLONG_MIN"
proof -
  have ll: "in_ll (- 2)" "in_ll LLONG_MAX" by (simp_all add: in_ll_def int_limits)
  from checked_arithmetic_clamps [OF ll] show ?thesis by (simp add: int_limits)
qed

text \<open>
  The processing-time histogram is cumulative: after any series of observations from
  the start, bucket \<open>i\<close> counts those up to its bound and the last bucket counts all.
\<close>

lemma histogram_cumulative:
  assumes "int (length obs) \<le> LLONG_MAX"
  shows "(\<forall>i < 10. processingBuckets (foldl recordProcessingUs newMetrics obs) ! i
      = int (length (filter (\<lambda>us. us \<le> kBucketBounds ! i) obs))) \<and>
    processingBuckets (foldl recordProcessingUs newMetrics obs) ! 10 = int (length obs)"
proof -
  have new: "length (processingBuckets newMetrics) = 11" "i < 11 \<Longrightarrow> processingBuckets newMetrics ! i = 0" for i
    unfolding newMetrics_def metrics.simps by (rule length_replicate, rule nth_replicate)
  have count: "i < 11 \<Longrightarrow> processingBuckets (foldl recordProcessingUs newMetrics obs) ! i
      = int (length (filter (in_bucket i) obs))" for i
    using buckets_count [OF new(1), of i obs] new(2) [of i] assms by simp
  show ?thesis using count by (auto simp: in_bucket_def [abs_def])
qed

lemma histogram_cumulative_instance:
  "processingBuckets (foldl recordProcessingUs newMetrics [3, 7000, 40]) ! 4 = 2 \<and>
   processingBuckets (foldl recordProcessingUs newMetrics [3, 7000, 40]) ! 10 = 3"
proof -
  have "int (length [3, 7000, 40 :: int]) \<le> LLONG_MAX" by (simp add: int_limits)
  note h = histogram_cumulative [OF this]
  from conjunct1 [OF h, rule_format, of 4] conjunct2 [OF h] show ?thesis by (simp add: kBucketBounds_def)
qed

end
