(* ===== verification/Symbols.thy ===== *)
theory Symbols
  imports Prelude
begin

text \<open>
  The names of symbols: \<open>src/symbol_normalizer.hpp\<close> (canonical \<open>BASE-QUOTE\<close> names against
  those of the exchanges), \<open>src/binance_utils.hpp\<close> (stream names) and the book depth of
  \<open>src/kraken_utils.hpp\<close>. \<open>toupper\<close> is that of the C locale.
\<close>

section \<open>Characters\<close>

definition to_upper :: "char \<Rightarrow> char" where
  "to_upper c = (let n = (of_char c :: nat) in if 97 \<le> n \<and> n \<le> 122 then char_of (n - 32) else c)"

definition streamToSymbol :: "string \<Rightarrow> string" where
  "streamToSymbol stream = map to_upper (takeWhile (\<lambda>c. c \<noteq> CHR ''@'') stream)"

section \<open>SymbolNormalizer\<close>

record normalizer =
  toCanonicalMap :: "string \<rightharpoonup> string"
  fromCanonicalMap :: "string \<rightharpoonup> string"

definition defaultNormalizer :: normalizer where
  "defaultNormalizer = \<lparr>toCanonicalMap = Map.empty, fromCanonicalMap = Map.empty\<rparr>"

definition makeKey :: "string \<Rightarrow> string \<Rightarrow> string" where
  "makeKey a b = a @ CHR 0x01 # b"

definition normalizer_add :: "normalizer \<Rightarrow> string \<Rightarrow> string \<Rightarrow> string \<Rightarrow> normalizer" where
  "normalizer_add N exchange loc canonical =
     N\<lparr>toCanonicalMap := (toCanonicalMap N)(makeKey exchange loc \<mapsto> canonical),
       fromCanonicalMap := (fromCanonicalMap N)(makeKey exchange canonical \<mapsto> loc)\<rparr>"

definition kQuotes :: "string list" where
  "kQuotes = [''USDT'', ''BUSD'', ''USDC'', ''USD'', ''BTC'', ''ETH'', ''BNB'', ''EUR'']"

definition ends_in :: "string \<Rightarrow> string \<Rightarrow> bool" where
  "ends_in loc q \<longleftrightarrow> length q < length loc \<and> drop (length loc - length q) loc = q"

fun splitQuote :: "string list \<Rightarrow> string \<Rightarrow> string option" where
  "splitQuote [] loc = None"
| "splitQuote (q # qs) loc =
     (if ends_in loc q then Some (take (length loc - length q) loc @ ''-'' @ q) else splitQuote qs loc)"

definition krakenToCanonical :: "string \<Rightarrow> string" where
  "krakenToCanonical loc =
     (let result = map (\<lambda>c. if c = CHR ''/'' then CHR ''-'' else c) loc
      in if take 4 result = ''XBT-'' then ''BTC'' @ drop 3 result else result)"

definition toCanonical :: "normalizer \<Rightarrow> string \<Rightarrow> string \<Rightarrow> string option" where
  "toCanonical N exchange loc =
     (case toCanonicalMap N (makeKey exchange loc) of
        Some canonical \<Rightarrow> Some canonical
      | None \<Rightarrow>
          if exchange = ''kraken'' then Some (krakenToCanonical loc)
          else if exchange = ''binance'' then splitQuote kQuotes loc
          else None)"

definition fromCanonical :: "normalizer \<Rightarrow> string \<Rightarrow> string \<Rightarrow> string option" where
  "fromCanonical N exchange canonical =
     (case fromCanonicalMap N (makeKey exchange canonical) of
        Some loc \<Rightarrow> Some loc
      | None \<Rightarrow>
          if exchange = ''kraken'' then Some (map (\<lambda>c. if c = CHR ''-'' then CHR ''/'' else c) canonical)
          else if exchange = ''binance'' then Some (filter (\<lambda>c. c \<noteq> CHR ''-'') canonical)
          else None)"

section \<open>Book depth of Kraken\<close>

definition kValid :: "int list" where
  "kValid = [10, 25, 100, 500, 1000]"

definition clampBookDepth :: "int \<Rightarrow> int" where
  "clampBookDepth requested = foldl (\<lambda>best v. if v \<le> requested then v else best) (hd kValid) kValid"

section \<open>Laws\<close>

lemma makeKey_inj:
  "CHR 0x01 \<notin> set e \<Longrightarrow> CHR 0x01 \<notin> set e' \<Longrightarrow> makeKey e l = makeKey e' l' \<longleftrightarrow> e = e' \<and> l = l'"
  unfolding makeKey_def by (induction e arbitrary: e'; case_tac e') auto

lemma ends_in_append: "ends_in (b @ q) q \<longleftrightarrow> b \<noteq> []"
  by (simp add: ends_in_def)

lemma splitQuote_first:
  assumes "q \<in> set qs" "b \<noteq> []" "\<forall>q' \<in> set (takeWhile (\<lambda>x. x \<noteq> q) qs). \<not> ends_in (b @ q) q'"
  shows "splitQuote qs (b @ q) = Some (b @ ''-'' @ q)"
  using assms
proof (induction qs)
  case (Cons a qs)
  show ?case
  proof (cases "a = q")
    case True
    then show ?thesis using Cons.prems(2) by (simp add: ends_in_append)
  next
    case False
    then have "\<not> ends_in (b @ q) a" "splitQuote qs (b @ q) = Some (b @ ''-'' @ q)"
      using Cons by simp_all
    then show ?thesis by simp
  qed
qed simp

lemma filter_canonical: "CHR ''-'' \<notin> set b \<Longrightarrow> CHR ''-'' \<notin> set q \<Longrightarrow> filter (\<lambda>c. c \<noteq> CHR ''-'') (b @ ''-'' @ q) = b @ q"
proof -
  have "filter (\<lambda>c. c \<noteq> CHR ''-'') x = x" if "CHR ''-'' \<notin> set x" for x
    using that by (intro filter_True) auto
  then show "CHR ''-'' \<notin> set b \<Longrightarrow> CHR ''-'' \<notin> set q \<Longrightarrow> filter (\<lambda>c. c \<noteq> CHR ''-'') (b @ ''-'' @ q) = b @ q"
    by simp
qed

lemma quotes_no_dash: "q \<in> set kQuotes \<Longrightarrow> CHR ''-'' \<notin> set q"
  by (auto simp: kQuotes_def)

text \<open>A text with dashes and no slash comes back through the Kraken form.\<close>

lemma kraken_back:
  assumes "CHR ''/'' \<notin> set c" "take 4 c \<noteq> ''XBT-''"
  shows "krakenToCanonical (map (\<lambda>x. if x = CHR ''-'' then CHR ''/'' else x) c) = c"
proof -
  have "map (\<lambda>x. if x = CHR ''/'' then CHR ''-'' else x) (map (\<lambda>x. if x = CHR ''-'' then CHR ''/'' else x) c) = c"
    using assms(1) by (induction c) auto
  then show ?thesis using assms(2) unfolding krakenToCanonical_def Let_def by (simp only: if_False)
qed

end
