(* ===== verification/Symbol_Properties.thy ===== *)
theory Symbol_Properties
  imports Symbols
begin

text \<open>The properties of the names of symbols and of the book depths.\<close>

section \<open>Explicit mappings\<close>

text \<open>
  Adding an explicit mapping makes the two names lead to each other, whatever rule
  applied before, and changes the conversion of no other name and of no other exchange.
\<close>

lemma explicit_mapping_wins:
  assumes "CHR 0x01 \<notin> set e" "CHR 0x01 \<notin> set e'"
  shows "toCanonical (normalizer_add N e l c) e l = Some c \<and> fromCanonical (normalizer_add N e l c) e c = Some l \<and>
    (e' \<noteq> e \<or> x \<noteq> l \<longrightarrow> toCanonical (normalizer_add N e l c) e' x = toCanonical N e' x) \<and>
    (e' \<noteq> e \<or> x \<noteq> c \<longrightarrow> fromCanonical (normalizer_add N e l c) e' x = fromCanonical N e' x)"
  using makeKey_inj [OF assms(2,1)] by (simp add: toCanonical_def fromCanonical_def normalizer_add_def)

lemma explicit_mapping_wins_instance:
  "toCanonical (normalizer_add defaultNormalizer ''binance'' ''BNBUSD'' ''BNB-USD'') ''binance'' ''BNBUSD'' = Some ''BNB-USD'' \<and>
   toCanonical (normalizer_add defaultNormalizer ''binance'' ''BNBUSD'' ''BNB-USD'') ''kraken'' ''XBT/USD'' = Some ''BTC-USD''"
proof -
  have "toCanonical defaultNormalizer ''kraken'' ''XBT/USD'' = Some ''BTC-USD''" by code_simp
  then show ?thesis
    using explicit_mapping_wins [of "''binance''" "''kraken''" defaultNormalizer "''BNBUSD''" "''BNB-USD''" "''XBT/USD''"] by simp
qed

section \<open>The rules of the exchanges\<close>

text \<open>Of the quotes before the one that a name was built with, only \<open>BUSD\<close> can be a suffix.\<close>

definition last2 :: "string \<Rightarrow> string" where
  "last2 s = drop (length s - 2) s"

lemma last2_append: "2 \<le> length q \<Longrightarrow> last2 (b @ q) = last2 q"
  by (simp add: last2_def)

lemma no_suffix:
  assumes "last2 q' \<noteq> last2 q" "2 \<le> length q'" "2 \<le> length q"
  shows "\<not> ends_in (b @ q) q'"
proof
  assume "ends_in (b @ q) q'"
  then obtain a where "b @ q = a @ q'" unfolding ends_in_def by (metis append_take_drop_id)
  then have "last2 (b @ q) = last2 (a @ q')" by simp
  then show False using assms by (simp add: last2_append)
qed

text \<open>The suffix \<open>BUSD\<close> of a name that ends in the quote \<open>USD\<close>.\<close>

lemma busd_suffix: "ends_in (b @ ''USD'') ''BUSD'' \<longleftrightarrow> 2 \<le> length b \<and> last b = CHR ''B''"
proof (cases b rule: rev_cases)
  case (snoc b' c)
  then show ?thesis by (cases b') (auto simp: ends_in_def)
qed (simp add: ends_in_def)

lemma quote_ends:
  "\<forall>q \<in> set kQuotes. q \<noteq> ''USD'' \<longrightarrow> 2 \<le> length q \<and> (\<forall>q' \<in> set (takeWhile (\<lambda>x. x \<noteq> q) kQuotes). last2 q' \<noteq> last2 q \<and> 2 \<le> length q')"
  by code_simp

lemma split_other:
  assumes "q \<in> set kQuotes" "q \<noteq> ''USD''" "b \<noteq> []"
  shows "splitQuote kQuotes (b @ q) = Some (b @ ''-'' @ q)"
  by (rule splitQuote_first [OF assms(1,3)]) (use quote_ends no_suffix assms(1,2) in blast)

lemma split_usd:
  assumes "b \<noteq> []"
  shows "splitQuote kQuotes (b @ ''USD'') = Some (b @ ''-USD'') \<longleftrightarrow> \<not> (2 \<le> length b \<and> last b = CHR ''B'')"
proof (cases "2 \<le> length b \<and> last b = CHR ''B''")
  case True
  then have s: "splitQuote kQuotes (b @ ''USD'') = Some (take (length b - 1) b @ ''-BUSD'')"
    using busd_suffix [of b] no_suffix [of "''USDT''" "''USD''" b] by (simp add: kQuotes_def last2_def)
  have "take (length b - 1) b @ ''-BUSD'' \<noteq> b @ ''-USD''"
  proof
    assume e: "take (length b - 1) b @ ''-BUSD'' = b @ ''-USD''"
    obtain b' where b: "b = b' @ ''B''" using True assms by (metis append_butlast_last_id)
    show False using e by (simp add: b)
  qed
  then show ?thesis using s True by simp
next
  case False
  then have "\<forall>q' \<in> set (takeWhile (\<lambda>x. x \<noteq> ''USD'') kQuotes). \<not> ends_in (b @ ''USD'') q'"
    using busd_suffix [of b] by (simp add: kQuotes_def no_suffix last2_def)
  then have "splitQuote kQuotes (b @ ''USD'') = Some (b @ ''-'' @ ''USD'')"
    by (intro splitQuote_first assms) (simp_all add: kQuotes_def)
  then show ?thesis using False by simp
qed

text \<open>A canonical name with the base \<open>XBT\<close>.\<close>

lemma xbt_base:
  assumes "CHR ''-'' \<notin> set b"
  shows "take 4 (b @ ''-'' @ q) = ''XBT-'' \<longleftrightarrow> b = ''XBT''"
proof
  assume e: "take 4 (b @ ''-'' @ q) = ''XBT-''"
  then have "takeWhile (\<lambda>c. c \<noteq> CHR ''-'') (take 4 (b @ ''-'' @ q)) = ''XBT''" by simp
  moreover have "takeWhile (\<lambda>c. c \<noteq> CHR ''-'') (take 4 b @ x) = take 4 b @ takeWhile (\<lambda>c. c \<noteq> CHR ''-'') x" for x
    using assms by (intro takeWhile_append2) (auto dest: in_set_takeD)
  ultimately have t: "take 4 b @ takeWhile (\<lambda>c. c \<noteq> CHR ''-'') (take (4 - length b) (''-'' @ q)) = ''XBT''" by simp
  have "takeWhile (\<lambda>c. c \<noteq> CHR ''-'') (take k (''-'' @ q)) = []" for k by (cases k) simp_all
  then have b3: "take 4 b = ''XBT''" using t by simp
  then have "length (take 4 b) = 3" by simp
  then have "length b = 3" by simp
  then show "b = ''XBT''" using b3 by simp
qed simp

text \<open>What an exchange name is read as always ends in a known quote, or has no slash.\<close>

lemma splitQuote_quote: "splitQuote qs l = Some c \<Longrightarrow> \<exists>a. \<exists>q \<in> set qs. c = a @ ''-'' @ q"
  by (induction qs) (auto split: if_splits)

lemma last_dash:
  assumes "b @ ''-'' @ q = a @ ''-'' @ q'" "CHR ''-'' \<notin> set q" "CHR ''-'' \<notin> set q'"
  shows "q = q'"
proof -
  have "takeWhile (\<lambda>c. c \<noteq> CHR ''-'') (rev (x @ ''-'' @ y)) = rev y" if "CHR ''-'' \<notin> set y" for x y
    using that takeWhile_append2 [of "rev y" "\<lambda>c. c \<noteq> CHR ''-''" "''-'' @ rev x"] by force
  from this [OF assms(2), of b] this [OF assms(3), of a] have "rev q = rev q'" unfolding assms(1) by (rule trans [OF sym])
  then show ?thesis by simp
qed

lemma kraken_no_slash: "CHR ''/'' \<notin> set (krakenToCanonical l)"
  by (auto simp: krakenToCanonical_def Let_def dest: in_set_dropD)

text \<open>
  C40: For a canonical name \<open>BASE-QUOTE\<close>, neither part with a dash: its Binance name leads back
  to it exactly when the quote is one of the known eight and it is not a quote \<open>USD\<close> behind a
  base of two or more letters that ends in \<open>B\<close> (such a name is read as a pair with \<open>BUSD\<close>). Its
  Kraken name leads back to it exactly when neither part has a slash and the base is not the
  legacy \<open>XBT\<close>.
\<close>

theorem canonical_roundtrip:
  assumes "b \<noteq> []" "CHR ''-'' \<notin> set b" "CHR ''-'' \<notin> set q"
  shows "(Option.bind (fromCanonical defaultNormalizer ''binance'' (b @ ''-'' @ q)) (toCanonical defaultNormalizer ''binance'') =
      Some (b @ ''-'' @ q) \<longleftrightarrow> q \<in> set kQuotes \<and> \<not> (q = ''USD'' \<and> 2 \<le> length b \<and> last b = CHR ''B'')) \<and>
    (Option.bind (fromCanonical defaultNormalizer ''kraken'' (b @ ''-'' @ q)) (toCanonical defaultNormalizer ''kraken'') =
      Some (b @ ''-'' @ q) \<longleftrightarrow> CHR ''/'' \<notin> set b \<union> set q \<and> b \<noteq> ''XBT'')"
proof
  have s: "Option.bind (fromCanonical defaultNormalizer ''binance'' (b @ ''-'' @ q)) h = h (b @ q)" for h :: "string \<Rightarrow> string option"
    using filter_canonical [OF assms(2,3)] by (simp add: fromCanonical_def defaultNormalizer_def)
  have t: "toCanonical defaultNormalizer ''binance'' l = splitQuote kQuotes l" for l
    by (simp add: toCanonical_def defaultNormalizer_def)
  have known: "q \<in> set kQuotes" if "splitQuote kQuotes (b @ q) = Some (b @ ''-'' @ q)"
    using splitQuote_quote [OF that] last_dash [of b q] assms(3) quotes_no_dash by blast
  show "Option.bind (fromCanonical defaultNormalizer ''binance'' (b @ ''-'' @ q)) (toCanonical defaultNormalizer ''binance'') =
      Some (b @ ''-'' @ q) \<longleftrightarrow> q \<in> set kQuotes \<and> \<not> (q = ''USD'' \<and> 2 \<le> length b \<and> last b = CHR ''B'')"
    unfolding s t
  proof (cases "q = ''USD''")
    case True
    then have "q \<in> set kQuotes" by (simp add: kQuotes_def)
    with True show "splitQuote kQuotes (b @ q) = Some (b @ ''-'' @ q) \<longleftrightarrow> q \<in> set kQuotes \<and> \<not> (q = ''USD'' \<and> 2 \<le> length b \<and> last b = CHR ''B'')"
      using split_usd [OF assms(1)] by simp
  next
    case False
    then show "splitQuote kQuotes (b @ q) = Some (b @ ''-'' @ q) \<longleftrightarrow> q \<in> set kQuotes \<and> \<not> (q = ''USD'' \<and> 2 \<le> length b \<and> last b = CHR ''B'')"
      using known split_other [OF _ False assms(1)] by blast
  qed
next
  let ?l = "map (\<lambda>x. if x = CHR ''-'' then CHR ''/'' else x) (b @ ''-'' @ q)"
  have f: "fromCanonical defaultNormalizer ''kraken'' (b @ ''-'' @ q) = Some ?l"
    by (simp only: fromCanonical_def defaultNormalizer_def) simp
  have g: "toCanonical defaultNormalizer ''kraken'' l = Some (krakenToCanonical l)" for l
    by (simp add: toCanonical_def defaultNormalizer_def)
  have returns: "krakenToCanonical ?l = b @ ''-'' @ q" if "CHR ''/'' \<notin> set b \<union> set q" "b \<noteq> ''XBT''"
    using kraken_back [of "b @ ''-'' @ q"] xbt_base [OF assms(2)] that by auto
  have "CHR ''/'' \<notin> set b \<union> set q" if "krakenToCanonical ?l = b @ ''-'' @ q"
    using kraken_no_slash [of ?l] that by auto
  moreover have "krakenToCanonical (map (\<lambda>x. if x = CHR ''-'' then CHR ''/'' else x) (''XBT'' @ ''-'' @ q)) \<noteq> ''XBT'' @ ''-'' @ q"
    by (simp add: krakenToCanonical_def Let_def)
  ultimately have "krakenToCanonical ?l = b @ ''-'' @ q \<longleftrightarrow> CHR ''/'' \<notin> set b \<union> set q \<and> b \<noteq> ''XBT''"
    using returns by blast
  then show "Option.bind (fromCanonical defaultNormalizer ''kraken'' (b @ ''-'' @ q)) (toCanonical defaultNormalizer ''kraken'') =
      Some (b @ ''-'' @ q) \<longleftrightarrow> CHR ''/'' \<notin> set b \<union> set q \<and> b \<noteq> ''XBT''"
    unfolding f g Option.bind.bind_lunit option.inject .
qed

lemma canonical_roundtrip_instance:
  "toCanonical defaultNormalizer ''binance'' ''BTCUSDT'' = Some ''BTC-USDT'' \<and>
   toCanonical defaultNormalizer ''kraken'' ''BTC/USDT'' = Some ''BTC-USDT'' \<and>
   toCanonical defaultNormalizer ''binance'' ''BNBUSD'' \<noteq> Some ''BNB-USD'' \<and>
   toCanonical defaultNormalizer ''binance'' ''BTCFDUSD'' \<noteq> Some ''BTC-FDUSD''"
proof -
  have f: "fromCanonical defaultNormalizer ''binance'' ''BTC-USDT'' = Some ''BTCUSDT''"
    "fromCanonical defaultNormalizer ''kraken'' ''BTC-USDT'' = Some ''BTC/USDT''"
    "fromCanonical defaultNormalizer ''binance'' ''BNB-USD'' = Some ''BNBUSD''"
    "fromCanonical defaultNormalizer ''binance'' ''BTC-FDUSD'' = Some ''BTCFDUSD''" by code_simp+
  show ?thesis
    using canonical_roundtrip [of "''BTC''" "''USDT''"] canonical_roundtrip [of "''BNB''" "''USD''"]
      canonical_roundtrip [of "''BTC''" "''FDUSD''"] f
    by (simp add: kQuotes_def)
qed

section \<open>Book depth\<close>

text \<open>
  The depth that a Kraken subscription asks for is the greatest supported depth that is
  not greater than the requested one, and the smallest supported depth when there is none.
\<close>

lemma book_depth_clamped:
  "clampBookDepth d \<in> set kValid \<and> (10 \<le> d \<longrightarrow> clampBookDepth d \<le> d \<and> (\<forall>v \<in> set kValid. v \<le> d \<longrightarrow> v \<le> clampBookDepth d)) \<and>
   (d < 10 \<longrightarrow> clampBookDepth d = 10)"
  by (auto simp: clampBookDepth_def kValid_def)

lemma book_depth_clamped_instance: "clampBookDepth 99 = 25 \<and> clampBookDepth 5 = 10"
  using book_depth_clamped [of 99] book_depth_clamped [of 5] by (auto simp: kValid_def)

end
