(* ===== verification/Json.thy ===== *)
theory Json
  imports Complex_Main Prelude
begin

text \<open>
  JSON values as the sources see them. The parser and the printer are those of
  nlohmann::json and simdjson, which are not part of the sources: a text is modelled by the
  value the parser gives (\<open>None\<close> where it throws), and the accessors by their documented
  behaviour: \<open>get\<close> throws on a value of another type, \<open>at\<close> throws on a missing key, and
  \<open>operator[]\<close> on a constant value throws on a value of another type but is undefined (an
  assertion) on a missing key or an index past the end. The keys of an object are distinct.
\<close>

datatype json =
    JNull
  | JBool bool
  | JInt int
  | JFloat rat
  | JString string
  | JArray "json list"
  | JObject "(string \<times> json) list"

section \<open>Computations that may throw or fault\<close>

type_synonym 'a res = "(exn + 'a) option"

definition ret :: "'a \<Rightarrow> 'a res" where
  "ret x = Some (Inr x)"

definition throw :: "exn \<Rightarrow> 'a res" where
  "throw e = Some (Inl e)"

definition bind_res :: "'a res \<Rightarrow> ('a \<Rightarrow> 'b res) \<Rightarrow> 'b res" where
  "bind_res m f = (case m of None \<Rightarrow> None | Some (Inl e) \<Rightarrow> Some (Inl e) | Some (Inr x) \<Rightarrow> f x)"

definition of_exn :: "exn + 'a \<Rightarrow> 'a res" where
  "of_exn x = Some x"

fun map_res :: "('a \<Rightarrow> 'b res) \<Rightarrow> 'a list \<Rightarrow> 'b list res" where
  "map_res f [] = ret []"
| "map_res f (x # xs) = bind_res (f x) (\<lambda>y. bind_res (map_res f xs) (\<lambda>ys. ret (y # ys)))"

lemma bind_res_simps [simp]:
  "bind_res None f = None" "bind_res (Some (Inl e)) f = Some (Inl e)" "bind_res (Some (Inr x)) f = f x"
  "bind_res (ret x) f = f x" "bind_res (throw e) f = Some (Inl e)"
  by (simp_all add: bind_res_def ret_def throw_def)

lemma bind_res_ret: "bind_res m f = Some (Inr y) \<longleftrightarrow> (\<exists>x. m = Some (Inr x) \<and> f x = Some (Inr y))"
  by (auto simp: bind_res_def split: option.splits sum.splits)

lemma bind_res_fault: "bind_res m f = None \<longleftrightarrow> m = None \<or> (\<exists>x. m = Some (Inr x) \<and> f x = None)"
  by (auto simp: bind_res_def split: option.splits sum.splits)

lemma of_exn_bind [simp]:
  "bind_res (of_exn (Inl e)) f = Some (Inl e)" "bind_res (of_exn (Inr x)) f = f x"
  by (simp_all add: of_exn_def)

lemma map_res_map: "\<forall>x \<in> set xs. f (g x) = of_exn (h x) \<Longrightarrow> map_res f (map g xs) = of_exn (map_exn h xs)"
proof (induction xs)
  case (Cons x xs)
  then show ?case by (cases "h x"; cases "map_exn h xs") (simp_all add: of_exn_def ret_def)
qed (simp add: of_exn_def ret_def)

lemma map_res_all: "map_res f xs = Some (Inr ys) \<Longrightarrow> list_all2 (\<lambda>x y. f x = Some (Inr y)) xs ys"
  by (induction xs arbitrary: ys) (auto simp: bind_res_ret ret_def)

section \<open>Accessors\<close>

definition json_field :: "json \<Rightarrow> string \<Rightarrow> json option" where
  "json_field j k = (case j of JObject kvs \<Rightarrow> map_of kvs k | _ \<Rightarrow> None)"

definition contains :: "json \<Rightarrow> string \<Rightarrow> bool" where
  "contains j k \<longleftrightarrow> json_field j k \<noteq> None"

definition type_error :: exn where
  "type_error = RuntimeError ''json type error''"

text \<open>\<open>operator[]\<close> on a constant value, and \<open>at\<close>.\<close>

definition const_at :: "json \<Rightarrow> string \<Rightarrow> json res" where
  "const_at j k = (case j of JObject kvs \<Rightarrow> map_option Inr (map_of kvs k) | _ \<Rightarrow> throw type_error)"

definition const_idx :: "json \<Rightarrow> nat \<Rightarrow> json res" where
  "const_idx j i = (case j of JArray xs \<Rightarrow> (if i < length xs then ret (xs ! i) else None) | _ \<Rightarrow> throw type_error)"

definition json_at :: "json \<Rightarrow> string \<Rightarrow> json res" where
  "json_at j k = (case json_field j k of Some v \<Rightarrow> ret v | None \<Rightarrow> throw type_error)"

text \<open>What a range-based loop over a value visits.\<close>

definition items :: "json \<Rightarrow> json list" where
  "items j = (case j of JArray xs \<Rightarrow> xs | JObject kvs \<Rightarrow> map snd kvs | JNull \<Rightarrow> [] | _ \<Rightarrow> [j])"

definition get_string :: "json \<Rightarrow> string res" where
  "get_string j = (case j of JString s \<Rightarrow> ret s | _ \<Rightarrow> throw type_error)"

definition get_bool :: "json \<Rightarrow> bool res" where
  "get_bool j = (case j of JBool b \<Rightarrow> ret b | _ \<Rightarrow> throw type_error)"

text \<open>
  \<open>get<long long>\<close> and \<open>get<int>\<close> convert with \<open>static_cast\<close>: integers are reduced to the
  width, a floating-point value is truncated, undefined when that is out of range, and a
  boolean is 0 or 1 (neither type is the 64-bit \<open>long\<close> that nlohmann::json stores).
\<close>

definition wrap64 :: "int \<Rightarrow> int" where
  "wrap64 x = (x + 9223372036854775808) mod 18446744073709551616 - 9223372036854775808"

definition trunc_rat :: "rat \<Rightarrow> int" where
  "trunc_rat r = (if 0 \<le> r then \<lfloor>r\<rfloor> else \<lceil>r\<rceil>)"

definition get_ll :: "json \<Rightarrow> int res" where
  "get_ll j = (case j of
       JInt i \<Rightarrow> ret (wrap64 i)
     | JFloat r \<Rightarrow> map_option Inr (ll (trunc_rat r))
     | JBool b \<Rightarrow> ret (if b then 1 else 0)
     | _ \<Rightarrow> throw type_error)"

definition get_int :: "json \<Rightarrow> int res" where
  "get_int j = (case j of
       JInt i \<Rightarrow> ret (to_int32 i)
     | JFloat r \<Rightarrow> (if - 2147483648 \<le> trunc_rat r \<and> trunc_rat r \<le> INT_MAX then ret (trunc_rat r) else None)
     | JBool b \<Rightarrow> ret (if b then 1 else 0)
     | _ \<Rightarrow> throw type_error)"

definition is_object :: "json \<Rightarrow> bool" where
  "is_object j = (case j of JObject _ \<Rightarrow> True | _ \<Rightarrow> False)"

definition is_array :: "json \<Rightarrow> bool" where
  "is_array j = (case j of JArray _ \<Rightarrow> True | _ \<Rightarrow> False)"

definition is_string :: "json \<Rightarrow> bool" where
  "is_string j = (case j of JString _ \<Rightarrow> True | _ \<Rightarrow> False)"

definition is_integer :: "json \<Rightarrow> bool" where
  "is_integer j = (case j of JInt _ \<Rightarrow> True | _ \<Rightarrow> False)"

named_theorems json_access "the accessors on values of known shape"

lemma accessors [json_access]:
  "const_at (JObject kvs) k = map_option Inr (map_of kvs k)"
  "json_field (JObject kvs) k = map_of kvs k"
  "json_at (JObject kvs) k = (case map_of kvs k of Some v \<Rightarrow> ret v | None \<Rightarrow> throw type_error)"
  "const_idx (JArray xs) n = (if n < length xs then ret (xs ! n) else None)"
  "items (JArray xs) = xs" "get_string (JString s) = ret s" "get_ll (JInt i) = ret (wrap64 i)"
  "get_int (JInt i) = ret (to_int32 i)" "get_bool (JBool b) = ret b"
  by (simp_all add: const_at_def json_field_def json_at_def const_idx_def items_def get_string_def get_ll_def get_int_def get_bool_def)

lemma wrap64_id [machine]: "in_ll i \<Longrightarrow> wrap64 i = i"
  by (simp add: wrap64_def in_ll_def int_limits)

lemma shapes [simp]:
  "is_object j \<longleftrightarrow> (\<exists>kvs. j = JObject kvs)" "is_array j \<longleftrightarrow> (\<exists>xs. j = JArray xs)"
  "is_string j \<longleftrightarrow> (\<exists>s. j = JString s)" "is_integer j \<longleftrightarrow> (\<exists>i. j = JInt i)"
  by (auto simp: is_object_def is_array_def is_string_def is_integer_def split: json.splits)

lemma of_exn_simps: "of_exn (Inr x) = ret x" "of_exn (Inl e) = throw e"
  by (simp_all add: of_exn_def ret_def throw_def)

end
