(* ===== verification/Subscriber_Protocol.thy ===== *)
theory Subscriber_Protocol
  imports Order_Book Json
begin

text \<open>
  \<open>src/subscriber_protocol.hpp\<close>: what subscribers send and receive. The JSON parser and
  printer are those of nlohmann::json: a client message is the parsed value (\<open>None\<close> when
  the parser throws), with the constructors the code distinguishes, and a server message is
  the object before it is printed.
\<close>

section \<open>Stream names\<close>

definition parseStream :: "string \<Rightarrow> (string \<times> string) option" where
  "parseStream stream =
     (let exchange = takeWhile (\<lambda>c. c \<noteq> CHR ''.'') stream;
          after1 = drop (length exchange + 1) stream;
          symbol = takeWhile (\<lambda>c. c \<noteq> CHR ''.'') after1;
          suffix = drop (length symbol + 1) after1
      in if CHR ''.'' \<notin> set stream \<or> exchange = [] then None
         else if CHR ''.'' \<notin> set after1 \<or> symbol = [] then None
         else if suffix \<noteq> ''book'' then None
         else Some (exchange, symbol))"

section \<open>Client messages\<close>

record parsed_request =
  op :: string
  req_streams :: "string list"

fun strings_of :: "json list \<Rightarrow> string list option" where
  "strings_of [] = Some []"
| "strings_of (JString s # js) = do { ss \<leftarrow> strings_of js; Some (s # ss) }"
| "strings_of (_ # js) = None"

definition parseClientMessage :: "json option \<Rightarrow> parsed_request option" where
  "parseClientMessage msg = do {
     j \<leftarrow> msg;
     opv \<leftarrow> json_field j ''op'';
     opText \<leftarrow> (case opv of JString s \<Rightarrow> Some s | _ \<Rightarrow> None);
     streamsv \<leftarrow> json_field j ''streams'';
     elems \<leftarrow> (case streamsv of JArray xs \<Rightarrow> Some xs | _ \<Rightarrow> None);
     if opText \<noteq> ''subscribe'' \<and> opText \<noteq> ''unsubscribe'' then None
     else do { ss \<leftarrow> strings_of elems; Some \<lparr>op = opText, req_streams = ss\<rparr> }
   }"

section \<open>Server messages\<close>

definition bookLevelsToJson :: "level list \<Rightarrow> (string \<times> string) list" where
  "bookLevelsToJson ls = map (\<lambda>(price, qty). (formatScaled price, formatScaled qty)) ls"

text \<open>\<open>buildSnapshot\<close>, \<open>buildUpdate\<close> and \<open>buildError\<close>; the order-flow value is scaled.\<close>

datatype server_msg =
    Snapshot (msg_exchange: string) (msg_symbol: string) (msg_ts: int) (msg_bids: "(string \<times> string) list")
      (msg_asks: "(string \<times> string) list") (msg_ofi_depth: int) (msg_seq: nat)
  | Update (msg_exchange: string) (msg_symbol: string) (msg_ts: int) (msg_bids: "(string \<times> string) list")
      (msg_asks: "(string \<times> string) list") (msg_ofi_delta: int) (msg_seq: nat)
  | Error string

section \<open>Laws\<close>

lemma parseStream_iff:
  "parseStream s = Some (e, y) \<longleftrightarrow>
     s = e @ ''.'' @ y @ ''.book'' \<and> e \<noteq> [] \<and> y \<noteq> [] \<and> CHR ''.'' \<notin> set e \<and> CHR ''.'' \<notin> set y"
  (is "_ \<longleftrightarrow> ?rhs")
proof
  assume ?rhs
  then have s: "s = e @ CHR ''.'' # y @ CHR ''.'' # ''book''" "e \<noteq> []" "y \<noteq> []" "CHR ''.'' \<notin> set e" "CHR ''.'' \<notin> set y"
    by auto
  have e: "takeWhile (\<lambda>c. c \<noteq> CHR ''.'') s = e" unfolding s(1) using s(4) by (auto simp: takeWhile_tail)
  have y: "takeWhile (\<lambda>c. c \<noteq> CHR ''.'') (y @ CHR ''.'' # ''book'') = y" using s(5) by (auto simp: takeWhile_tail)
  have after1: "drop (length e + 1) s = y @ CHR ''.'' # ''book''" by (simp add: s(1))
  show "parseStream s = Some (e, y)"
    unfolding parseStream_def Let_def e after1 y using s(2,3) by (simp add: s(1))
next
  assume p: "parseStream s = Some (e, y)"
  let ?e = "takeWhile (\<lambda>c. c \<noteq> CHR ''.'') s"
  let ?a = "drop (length ?e + 1) s"
  let ?y = "takeWhile (\<lambda>c. c \<noteq> CHR ''.'') ?a"
  have h: "CHR ''.'' \<in> set s" "?e \<noteq> []" "CHR ''.'' \<in> set ?a" "?y \<noteq> []" "drop (length ?y + 1) ?a = ''book''" "e = ?e" "y = ?y"
    using p by (auto simp: parseStream_def Let_def split: if_splits)
  have split: "x = takeWhile (\<lambda>c. c \<noteq> CHR ''.'') x @ CHR ''.'' # drop (length (takeWhile (\<lambda>c. c \<noteq> CHR ''.'') x) + 1) x"
    if dot: "CHR ''.'' \<in> set x" for x
  proof -
    obtain u v where x: "x = u @ CHR ''.'' # v" "CHR ''.'' \<notin> set u" using split_list_first [OF dot] by blast
    have "takeWhile (\<lambda>c. c \<noteq> CHR ''.'') x = u" unfolding x(1) using x(2) by (auto simp: takeWhile_tail)
    then show ?thesis by (simp add: x(1))
  qed
  have "s = ?e @ CHR ''.'' # ?a" by (rule split [OF h(1)])
  moreover have "?a = ?y @ CHR ''.'' # ''book''" using split [OF h(3)] unfolding h(5) .
  ultimately have "s = e @ ''.'' @ y @ ''.book''" unfolding h(6,7) by simp
  moreover have "CHR ''.'' \<notin> set e" "CHR ''.'' \<notin> set y" unfolding h(6,7) by (auto dest: set_takeWhileD)
  ultimately show ?rhs using h(2,4,6,7) by simp
qed

lemma strings_of_map [simp]: "strings_of (map JString ss) = Some ss"
  by (induction ss) simp_all

lemma strings_ofD: "strings_of js = Some ss \<Longrightarrow> js = map JString ss"
  by (induction js arbitrary: ss rule: strings_of.induct) (auto split: Option.bind_splits)

text \<open>A client message is accepted exactly when it is an object of this shape.\<close>

lemma parseClientMessage_iff:
  "parseClientMessage msg = Some r \<longleftrightarrow>
     (\<exists>j. msg = Some j \<and> json_field j ''op'' = Some (JString (op r)) \<and>
        json_field j ''streams'' = Some (JArray (map JString (req_streams r))) \<and>
        (op r = ''subscribe'' \<or> op r = ''unsubscribe''))"
  (is "_ \<longleftrightarrow> ?rhs")
proof
  assume "parseClientMessage msg = Some r"
  then show ?rhs unfolding parseClientMessage_def
    by (auto split: Option.bind_splits json.splits if_splits dest: strings_ofD)
next
  assume ?rhs
  then show "parseClientMessage msg = Some r" unfolding parseClientMessage_def by auto
qed

end
