(* ===== verification/Subscriber_Server.thy ===== *)
theory Subscriber_Server
  imports Subscriber_Protocol "HOL-Library.AList"
begin

text \<open>
  \<open>src/subscriber_server.hpp\<close>: the fan-out of updates to the subscribed clients. Each
  operation is the handler with its critical section under \<open>mu_\<close> as one step; what it
  sends is returned as a list of messages per connection. The web sockets are those of
  IXWebSocket: whether a connection is still alive and how many bytes it has queued are
  parameters.
\<close>

section \<open>State\<close>

text \<open>
  A client entry; \<open>hasWs\<close> is false for an entry made by \<open>clients_[id]\<close> without a connection.
  The map is a list in the order in which it is iterated.
\<close>

record client =
  hasWs :: bool
  streams :: "string set"

record server =
  clients :: "(string \<times> client) list"
  seqMap :: "string \<Rightarrow> nat"
  srvOfiDepth :: int
  started :: bool
  messagesSent :: int
  backpressureDisconnects :: int

definition newServer :: "int \<Rightarrow> server" where
  "newServer depth = \<lparr>clients = [], seqMap = (\<lambda>_. 0), srvOfiDepth = depth, started = False,
     messagesSent = 0, backpressureDisconnects = 0\<rparr>"

text \<open>The environment of a step: live connections and the bytes queued on each.\<close>

record env =
  alive :: "string \<Rightarrow> bool"
  bufferedAmount :: "string \<Rightarrow> nat"

definition kBackpressureLimit :: nat where
  "kBackpressureLimit = 1 * 1024 * 1024"

definition streamKey :: "string \<Rightarrow> string \<Rightarrow> string" where
  "streamKey exchange symbol = exchange @ ''.'' @ symbol"

section \<open>Connections\<close>

definition srv_start :: "bool \<Rightarrow> server \<Rightarrow> bool \<times> server" where
  "srv_start listenOk S = (if started S then (True, S) else if \<not> listenOk then (False, S) else (True, S\<lparr>started := True\<rparr>))"

definition srv_stop :: "server \<Rightarrow> server" where
  "srv_stop S = (if started S then S\<lparr>started := False\<rparr> else S)"

definition onConnection :: "string \<Rightarrow> server \<Rightarrow> server" where
  "onConnection cid S = S\<lparr>clients := AList.update cid \<lparr>hasWs = True, streams = {}\<rparr> (clients S)\<rparr>"

definition onClose :: "string \<Rightarrow> server \<Rightarrow> server" where
  "onClose cid S = S\<lparr>clients := AList.delete cid (clients S)\<rparr>"

record subscriber_stats =
  connectedClients :: int
  activeSubscriptions :: int
  messagesSentTotal :: int
  backpressureDisconnectsTotal :: int

definition srv_getStats :: "server \<Rightarrow> subscriber_stats" where
  "srv_getStats S = \<lparr>connectedClients = int (length (clients S)),
     activeSubscriptions = sum_list (map (\<lambda>(_, c). int (card (streams c))) (clients S)),
     messagesSentTotal = messagesSent S, backpressureDisconnectsTotal = backpressureDisconnects S\<rparr>"

section \<open>Broadcasting\<close>

definition genuineLevels :: "bool \<Rightarrow> level_delta list \<Rightarrow> (string \<times> string) list" where
  "genuineLevels isBid ds = map (\<lambda>d. (formatScaled (d_price d), formatScaled (d_newQty d)))
     (filter (\<lambda>d. d_kind d = Genuine \<and> d_isBid d = isBid) ds)"

text \<open>The critical section: the sequence number and the connections to send to.\<close>

definition collectTargets :: "env \<Rightarrow> string \<Rightarrow> server \<Rightarrow> nat \<times> string list \<times> server" where
  "collectTargets E key S =
     (let seq = (seqMap S key + 1) mod 18446744073709551616
      in (seq,
          map fst (filter (\<lambda>(cid, c). key \<in> streams c \<and> hasWs c \<and> alive E cid) (clients S)),
          S\<lparr>seqMap := (seqMap S)(key := seq)\<rparr>))"

definition broadcastUpdate ::
  "env \<Rightarrow> string \<Rightarrow> string \<Rightarrow> level_delta list \<Rightarrow> int \<Rightarrow> int \<Rightarrow> server \<Rightarrow> (string \<times> server_msg) list \<times> server" where
  "broadcastUpdate E exchange symbol ds timestamp ofiDelta S =
     (let bids = genuineLevels True ds; asks = genuineLevels False ds
      in if bids = [] \<and> asks = [] then ([], S)
         else
           (let (seq, targets, S1) = collectTargets E (streamKey exchange symbol) S;
                msg = Update exchange symbol timestamp bids asks ofiDelta seq;
                slow = filter (\<lambda>cid. kBackpressureLimit < bufferedAmount E cid) targets;
                ok = filter (\<lambda>cid. \<not> kBackpressureLimit < bufferedAmount E cid) targets;
                S2 = S1\<lparr>messagesSent := messagesSent S1 + int (length ok)\<rparr>
            in (map (\<lambda>cid. (cid, msg)) ok,
                if slow \<noteq> []
                then S2\<lparr>clients := filter (\<lambda>(cid, _). cid \<notin> set slow) (clients S2),
                        backpressureDisconnects := backpressureDisconnects S2 + int (length slow)\<rparr>
                else S2)))"

section \<open>Client requests\<close>

text \<open>
  The critical section of one stream: the book's snapshot with the sequence number it
  reflects, and the client becomes a subscriber.
\<close>

definition subscribeKey :: "(string \<rightharpoonup> orderbook) \<Rightarrow> string \<Rightarrow> string \<Rightarrow> server \<Rightarrow> ((book_snapshot \<times> nat) option \<times> server) option" where
  "subscribeKey books cid key S = do {
     snap \<leftarrow> (case books key of
                None \<Rightarrow> Some None
              | Some b \<Rightarrow> do { s \<leftarrow> getSnapshot b; Some (if applied s then Some (s, seqMap S key) else None) });
     let c = (case map_of (clients S) cid of Some c \<Rightarrow> c | None \<Rightarrow> \<lparr>hasWs = False, streams = {}\<rparr>);
     Some (snap, S\<lparr>clients := AList.update cid (c\<lparr>streams := insert key (streams c)\<rparr>) (clients S)\<rparr>)
   }"

definition subscribeStream ::
  "(string \<rightharpoonup> orderbook) \<Rightarrow> int \<Rightarrow> string \<Rightarrow> server_msg list \<times> server \<Rightarrow> string \<Rightarrow> (server_msg list \<times> server) option" where
  "subscribeStream books now cid = (\<lambda>(out, S) stream.
     case parseStream stream of
       None \<Rightarrow> Some (out @ [Error (''bad stream: '' @ stream)], S)
     | Some (exchange, symbol) \<Rightarrow> do {
         (snap, S1) \<leftarrow> subscribeKey books cid (streamKey exchange symbol) S;
         Some (case snap of
             None \<Rightarrow> (out, S1)
           | Some (s, seq) \<Rightarrow>
               (out @ [Snapshot exchange symbol now (bookLevelsToJson (snap_bids s))
                         (bookLevelsToJson (snap_asks s)) (srvOfiDepth S1) seq], S1))
       })"

definition handleSubscribe ::
  "(string \<rightharpoonup> orderbook) \<Rightarrow> int \<Rightarrow> string \<Rightarrow> string list \<Rightarrow> server \<Rightarrow> (server_msg list \<times> server) option" where
  "handleSubscribe books now cid ss S = foldM (subscribeStream books now cid) ([], S) ss"

definition handleUnsubscribe :: "string \<Rightarrow> string list \<Rightarrow> server \<Rightarrow> server" where
  "handleUnsubscribe cid ss S =
     (case map_of (clients S) cid of
        None \<Rightarrow> S
      | Some c \<Rightarrow>
          (let gone = set (List.map_filter (\<lambda>s. map_option (\<lambda>(e, y). streamKey e y) (parseStream s)) ss)
           in S\<lparr>clients := AList.update cid (c\<lparr>streams := streams c - gone\<rparr>) (clients S)\<rparr>))"

definition onMessage ::
  "env \<Rightarrow> (string \<rightharpoonup> orderbook) \<Rightarrow> int \<Rightarrow> string \<Rightarrow> json option \<Rightarrow> server \<Rightarrow> (server_msg list \<times> server) option" where
  "onMessage E books now cid msg S =
     (if \<not> alive E cid then Some ([], S)
      else (case parseClientMessage msg of
         None \<Rightarrow> Some ([Error ''invalid request''], S)
       | Some req \<Rightarrow>
           if op req = ''subscribe'' then handleSubscribe books now cid (req_streams req) S
           else Some ([], handleUnsubscribe cid (req_streams req) S)))"

section \<open>The server as a machine\<close>

text \<open>One handler after the other, each with its environment and the books of the moment.\<close>

datatype action =
    Connect string
  | Disconnect string
  | Request string int "json option"
  | Broadcast string string "level_delta list" int int

definition srv_step ::
  "env \<Rightarrow> (string \<rightharpoonup> orderbook) \<Rightarrow> action \<Rightarrow> server \<Rightarrow> ((string \<times> server_msg) list \<times> server) option" where
  "srv_step E books a S =
     (case a of
        Connect cid \<Rightarrow> Some ([], onConnection cid S)
      | Disconnect cid \<Rightarrow> Some ([], onClose cid S)
      | Request cid now msg \<Rightarrow>
          do { (out, S') \<leftarrow> onMessage E books now cid msg S; Some (map (Pair cid) out, S') }
      | Broadcast exchange symbol ds ts ofi \<Rightarrow> Some (broadcastUpdate E exchange symbol ds ts ofi S))"

fun srv_run ::
  "(env \<times> (string \<rightharpoonup> orderbook) \<times> action) list \<Rightarrow> server \<Rightarrow> ((string \<times> server_msg) list \<times> server) option" where
  "srv_run [] S = Some ([], S)"
| "srv_run ((E, books, a) # as) S = do {
     (out, S1) \<leftarrow> srv_step E books a S;
     (outs, S2) \<leftarrow> srv_run as S1;
     Some (out @ outs, S2)
   }"

section \<open>Laws\<close>

definition srv_inv :: "server \<Rightarrow> bool" where
  "srv_inv S \<longleftrightarrow> distinct (map fst (clients S))"

definition subscribed :: "string \<Rightarrow> string \<Rightarrow> server \<Rightarrow> bool" where
  "subscribed cid key S \<longleftrightarrow> (\<exists>c. map_of (clients S) cid = Some c \<and> hasWs c \<and> key \<in> streams c)"

text \<open>The sequence numbers of the updates of a stream among the messages to a connection.\<close>

definition update_of :: "string \<Rightarrow> string \<Rightarrow> string \<times> server_msg \<Rightarrow> bool" where
  "update_of cid key = (\<lambda>(i, m). i = cid \<and>
     (case m of Update e y _ _ _ _ _ \<Rightarrow> streamKey e y = key | _ \<Rightarrow> False))"

definition seqs_of :: "string \<Rightarrow> string \<Rightarrow> (string \<times> server_msg) list \<Rightarrow> nat list" where
  "seqs_of cid key out = map (msg_seq \<circ> snd) (filter (update_of cid key) out)"

lemma seqs_of_append [simp]: "seqs_of cid key (xs @ ys) = seqs_of cid key xs @ seqs_of cid key ys"
  by (simp add: seqs_of_def)

lemma filter_eq_single: "distinct xs \<Longrightarrow> x \<in> set xs \<Longrightarrow> filter (\<lambda>y. y = x) xs = [x]"
  by (induction xs) (auto simp: filter_empty_conv)

lemma next_seq_differs: "(n + 1) mod 18446744073709551616 \<noteq> (n::nat)"
proof
  assume eq: "(n + 1) mod 18446744073709551616 = n"
  have "(n + 1) mod 18446744073709551616 < 18446744073709551616" by simp
  then have "n < 18446744073709551616" by (simp only: eq)
  then consider "n + 1 < 18446744073709551616" | "n = 18446744073709551615" by linarith
  then show False using eq by cases simp_all
qed

lemma srv_inv_simps [simp]:
  "srv_inv (onConnection cid S)" if "srv_inv S"
  using that by (simp add: srv_inv_def onConnection_def distinct_update)

lemma srv_inv_close: "srv_inv S \<Longrightarrow> srv_inv (onClose cid S)"
  by (simp add: srv_inv_def onClose_def distinct_delete)

lemma map_of_filter_key: "map_of (filter (\<lambda>(k, _). k \<notin> A) xs) cid = (if cid \<in> A then None else map_of xs cid)"
  by (induction xs) auto

text \<open>What one broadcast sends to a subscribed connection that keeps up.\<close>

lemma broadcast_sent:
  assumes inv: "srv_inv S" and sub: "subscribed cid (streamKey exchange symbol) S"
    and E: "alive E cid" "bufferedAmount E cid \<le> kBackpressureLimit"
    and out: "broadcastUpdate E exchange symbol ds ts ofi S = (out, S')"
  shows "filter (update_of cid (streamKey exchange symbol)) out =
    (if genuineLevels True ds = [] \<and> genuineLevels False ds = [] then []
     else [(cid, Update exchange symbol ts (genuineLevels True ds) (genuineLevels False ds) ofi
                  ((seqMap S (streamKey exchange symbol) + 1) mod 18446744073709551616))])"
proof (cases "genuineLevels True ds = [] \<and> genuineLevels False ds = []")
  case True
  then show ?thesis using out by (simp add: broadcastUpdate_def Let_def)
next
  case False
  define k where "k = streamKey exchange symbol"
  define msg where "msg = Update exchange symbol ts (genuineLevels True ds) (genuineLevels False ds) ofi ((seqMap S k + 1) mod 18446744073709551616)"
  define targets where "targets = map fst (filter (\<lambda>(i, c). k \<in> streams c \<and> hasWs c \<and> alive E i) (clients S))"
  define ok where "ok = filter (\<lambda>i. \<not> kBackpressureLimit < bufferedAmount E i) targets"
  have run: "out = map (\<lambda>i. (i, msg)) ok"
    using out False unfolding broadcastUpdate_def collectTargets_def Let_def k_def [symmetric] targets_def [symmetric]
    by (auto simp: ok_def msg_def filter_True split: if_splits)
  have "cid \<in> set targets" using sub E(1) unfolding targets_def subscribed_def k_def by (force dest: map_of_SomeD)
  moreover have "distinct targets" using inv unfolding srv_inv_def targets_def by (simp add: distinct_map_filter)
  ultimately have "filter (\<lambda>i. i = cid) ok = [cid]" using E(2) by (intro filter_eq_single) (simp_all add: ok_def)
  moreover have "update_of cid k (i, msg) \<longleftrightarrow> i = cid" for i by (simp add: update_of_def msg_def k_def)
  ultimately show ?thesis using False by (auto simp: run filter_map o_def k_def [symmetric] msg_def)
qed

text \<open>One broadcast, for a subscribed connection that keeps up.\<close>

lemma broadcast_law:
  assumes inv: "srv_inv S" and sub: "subscribed cid key S"
    and E: "alive E cid" "bufferedAmount E cid \<le> kBackpressureLimit"
    and out: "broadcastUpdate E exchange symbol ds ts ofi S = (out, S')"
  shows "srv_inv S'" "subscribed cid key S'"
    "seqs_of cid key out = (if streamKey exchange symbol = key \<and> seqMap S' key \<noteq> seqMap S key then [seqMap S' key] else [])"
    "seqMap S' key = seqMap S key \<or> seqMap S' key = (seqMap S key + 1) mod 18446744073709551616 \<and> streamKey exchange symbol = key"
proof -
  define k where "k = streamKey exchange symbol"
  define targets where "targets = map fst (filter (\<lambda>(i, c). k \<in> streams c \<and> hasWs c \<and> alive E i) (clients S))"
  define seq where "seq = (seqMap S k + 1) mod 18446744073709551616"
  define slow where "slow = filter (\<lambda>i. kBackpressureLimit < bufferedAmount E i) targets"
  define ok where "ok = filter (\<lambda>i. \<not> kBackpressureLimit < bufferedAmount E i) targets"
  have dist: "distinct targets"
    using inv unfolding srv_inv_def targets_def by (simp add: distinct_map_filter)
  have target: "cid \<in> set targets" if "k = key"
    using sub E(1) that unfolding targets_def subscribed_def by (force dest: map_of_SomeD)
  have ok: "distinct ok" "k = key \<Longrightarrow> cid \<in> set ok" and slow: "cid \<notin> set slow"
    using dist target E(2) by (auto simp: ok_def slow_def)
  show "srv_inv S'" "subscribed cid key S'"
    "seqs_of cid key out = (if streamKey exchange symbol = key \<and> seqMap S' key \<noteq> seqMap S key then [seqMap S' key] else [])"
    "seqMap S' key = seqMap S key \<or> seqMap S' key = (seqMap S key + 1) mod 18446744073709551616 \<and> streamKey exchange symbol = key"
  proof -
    have "srv_inv S' \<and> subscribed cid key S' \<and>
      seqs_of cid key out = (if k = key \<and> seqMap S' key \<noteq> seqMap S key then [seqMap S' key] else []) \<and>
      (seqMap S' key = seqMap S key \<or> seqMap S' key = (seqMap S key + 1) mod 18446744073709551616 \<and> k = key)"
    proof (cases "genuineLevels True ds = [] \<and> genuineLevels False ds = []")
      case True
      then have "out = []" "S' = S" using out by (simp_all add: broadcastUpdate_def Let_def)
      then show ?thesis using inv sub by (simp add: seqs_of_def)
    next
      case False
      define msg where "msg = Update exchange symbol ts (genuineLevels True ds) (genuineLevels False ds) ofi seq"
      have run: "out = map (\<lambda>i. (i, msg)) ok" "clients S' = filter (\<lambda>(i, _). i \<notin> set slow) (clients S)"
        "seqMap S' = (seqMap S)(k := seq)"
        using out False unfolding broadcastUpdate_def collectTargets_def Let_def
          k_def [symmetric] targets_def [symmetric] seq_def [symmetric]
        by (auto simp: slow_def [symmetric] ok_def [symmetric] msg_def filter_True split: if_splits)
      have "srv_inv S'" using inv unfolding srv_inv_def run(2) by (simp add: distinct_map_filter)
      moreover have "subscribed cid key S'"
        using sub slow unfolding subscribed_def run(2) by (simp add: map_of_filter_key)
      moreover have "seqs_of cid key out = (if k = key then [seq] else [])"
      proof (cases "k = key")
        case True
        then have "filter (update_of cid key) out = [(cid, msg)]"
          using broadcast_sent [OF inv _ E out] sub False by (simp add: k_def msg_def seq_def)
        then show ?thesis using True by (simp add: seqs_of_def msg_def)
      qed (simp add: run(1) seqs_of_def update_of_def filter_map o_def msg_def k_def)
      ultimately show ?thesis using next_seq_differs [of "seqMap S k"] unfolding run(3)
        by (cases "k = key") (simp_all add: seq_def)
    qed
    then show "srv_inv S'" "subscribed cid key S'"
      "seqs_of cid key out = (if streamKey exchange symbol = key \<and> seqMap S' key \<noteq> seqMap S key then [seqMap S' key] else [])"
      "seqMap S' key = seqMap S key \<or> seqMap S' key = (seqMap S key + 1) mod 18446744073709551616 \<and> streamKey exchange symbol = key"
      by (simp_all add: k_def)
  qed
qed

text \<open>The other steps send no updates and leave the sequence numbers alone.\<close>

lemma connection_law:
  assumes "srv_inv S" "subscribed cid key S" "i \<noteq> cid"
  shows "srv_inv (onConnection i S)" "subscribed cid key (onConnection i S)" "seqMap (onConnection i S) = seqMap S"
    "srv_inv (onClose i S)" "subscribed cid key (onClose i S)" "seqMap (onClose i S) = seqMap S"
  using assms
  by (simp_all add: srv_inv_def subscribed_def onConnection_def onClose_def distinct_update distinct_delete
      update_conv' delete_conv')

lemma subscribeKey_law:
  assumes "srv_inv S" "subscribeKey books i k S = Some (snap, S')"
  shows "srv_inv S'" "subscribed cid key S \<Longrightarrow> subscribed cid key S'" "seqMap S' = seqMap S"
    "snap = Some (s, n) \<Longrightarrow> n = seqMap S k"
    "hasWs (case map_of (clients S) i of Some c \<Rightarrow> c | None \<Rightarrow> \<lparr>hasWs = False, streams = {}\<rparr>) \<Longrightarrow> subscribed i k S'"
proof -
  let ?c = "case map_of (clients S) i of Some c \<Rightarrow> c | None \<Rightarrow> \<lparr>hasWs = False, streams = {}\<rparr>"
  have S': "S' = S\<lparr>clients := AList.update i (?c\<lparr>streams := insert k (streams ?c)\<rparr>) (clients S)\<rparr>"
    and snap: "snap = Some (s, n) \<Longrightarrow> n = seqMap S k"
    using assms(2) by (auto simp: subscribeKey_def split: Option.bind_splits option.splits if_splits)
  show "srv_inv S'" using assms(1) by (simp add: S' srv_inv_def distinct_update)
  show "seqMap S' = seqMap S" by (simp add: S')
  show "snap = Some (s, n) \<Longrightarrow> n = seqMap S k" by (rule snap)
  show "subscribed cid key S \<Longrightarrow> subscribed cid key S'" by (auto simp: S' subscribed_def update_conv')
  show "hasWs ?c \<Longrightarrow> subscribed i k S'" by (auto simp: S' subscribed_def update_conv' split: option.splits)
qed

definition no_update :: "server_msg \<Rightarrow> bool" where
  "no_update m \<longleftrightarrow> (case m of Update _ _ _ _ _ _ _ \<Rightarrow> False | _ \<Rightarrow> True)"

lemma seqs_of_none: "list_all no_update ms \<Longrightarrow> seqs_of cid key (map (Pair i) ms) = []"
  by (induction ms) (auto simp: seqs_of_def update_of_def no_update_def split: server_msg.splits)

lemma handleSubscribe_law:
  assumes "srv_inv S" "handleSubscribe books now i ss S = Some (out, S')"
  shows "srv_inv S'" "subscribed cid key S \<Longrightarrow> subscribed cid key S'" "seqMap S' = seqMap S" "list_all no_update out"
proof -
  have step: "srv_inv S2 \<and> (subscribed cid key S1 \<longrightarrow> subscribed cid key S2) \<and> seqMap S2 = seqMap S1 \<and> list_all no_update out2"
    if st: "subscribeStream books now i (out1, S1) s = Some (out2, S2)" and "srv_inv S1" "list_all no_update out1"
    for out1 out2 S1 S2 s
  proof (cases "parseStream s")
    case None
    then show ?thesis using that by (auto simp: subscribeStream_def no_update_def)
  next
    case (Some p)
    obtain e y where p: "p = (e, y)" by (cases p)
    obtain snap where k: "subscribeKey books i (streamKey e y) S1 = Some (snap, S2)"
      using st Some p by (auto simp: subscribeStream_def split: Option.bind_splits option.splits)
    have "list_all no_update out2"
      using st Some p k that(3) by (auto simp: subscribeStream_def no_update_def split: option.splits)
    with subscribeKey_law(1-3) [OF that(2) k] show ?thesis by blast
  qed
  have run: "foldM (subscribeStream books now i) (out1, S1) ss = Some (out, S') \<Longrightarrow> srv_inv S1 \<Longrightarrow> list_all no_update out1 \<Longrightarrow>
      srv_inv S' \<and> (subscribed cid key S1 \<longrightarrow> subscribed cid key S') \<and> seqMap S' = seqMap S1 \<and> list_all no_update out"
    for out1 S1
  proof (induction ss arbitrary: out1 S1)
    case (Cons s ss)
    then obtain out2 S2 where s: "subscribeStream books now i (out1, S1) s = Some (out2, S2)"
      "foldM (subscribeStream books now i) (out2, S2) ss = Some (out, S')"
      by (auto split: Option.bind_splits)
    from step [OF s(1) Cons.prems(2,3)] Cons.IH [OF s(2)] show ?case by auto
  qed simp
  from run [OF assms(2) [unfolded handleSubscribe_def] assms(1)]
  show "srv_inv S'" "subscribed cid key S \<Longrightarrow> subscribed cid key S'" "seqMap S' = seqMap S" "list_all no_update out"
    by simp_all
qed

lemma handleUnsubscribe_law:
  assumes "srv_inv S"
  shows "srv_inv (handleUnsubscribe i ss S)" "seqMap (handleUnsubscribe i ss S) = seqMap S"
    "i \<noteq> cid \<Longrightarrow> subscribed cid key S \<Longrightarrow> subscribed cid key (handleUnsubscribe i ss S)"
proof -
  show "srv_inv (handleUnsubscribe i ss S)" "seqMap (handleUnsubscribe i ss S) = seqMap S"
    using assms by (simp_all add: handleUnsubscribe_def srv_inv_def Let_def distinct_update split: option.split)
  show "i \<noteq> cid \<Longrightarrow> subscribed cid key S \<Longrightarrow> subscribed cid key (handleUnsubscribe i ss S)"
    by (simp add: handleUnsubscribe_def subscribed_def Let_def update_conv' split: option.split)
qed

lemma onMessage_law:
  assumes "srv_inv S" "subscribed cid key S" "onMessage E books now i msg S = Some (out, S')"
    and own: "i = cid \<Longrightarrow> (\<forall>r. parseClientMessage msg = Some r \<longrightarrow> op r = ''subscribe'')"
  shows "srv_inv S'" "subscribed cid key S'" "seqMap S' = seqMap S" "list_all no_update out"
proof -
  have "srv_inv S' \<and> subscribed cid key S' \<and> seqMap S' = seqMap S \<and> list_all no_update out"
  proof (cases "alive E i")
    case True
    show ?thesis
    proof (cases "parseClientMessage msg")
      case None
      then show ?thesis using assms(1-3) True by (auto simp: onMessage_def no_update_def)
    next
      case (Some r)
      show ?thesis
      proof (cases "op r = ''subscribe''")
        case sub: True
        then have "handleSubscribe books now i (req_streams r) S = Some (out, S')"
          using assms(3) True Some by (simp add: onMessage_def)
        from handleSubscribe_law [OF assms(1) this] assms(2) show ?thesis by blast
      next
        case False
        then have "out = []" "S' = handleUnsubscribe i (req_streams r) S" "i \<noteq> cid"
          using assms(3) own True Some by (auto simp: onMessage_def)
        with handleUnsubscribe_law [OF assms(1)] assms(2) show ?thesis by simp
      qed
    qed
  qed (use assms in \<open>auto simp: onMessage_def\<close>)
  then show "srv_inv S'" "subscribed cid key S'" "seqMap S' = seqMap S" "list_all no_update out" by simp_all
qed

section \<open>A subscription that lasts\<close>

text \<open>
  The steps during which a connection stays subscribed to a stream and keeps up: it is
  alive, its queue is below the limit, and it is neither closed, replaced nor unsubscribed.
\<close>

definition keeps :: "string \<Rightarrow> env \<times> (string \<rightharpoonup> orderbook) \<times> action \<Rightarrow> bool" where
  "keeps cid = (\<lambda>(E, books, a). alive E cid \<and> bufferedAmount E cid \<le> kBackpressureLimit \<and>
     (case a of
        Connect i \<Rightarrow> i \<noteq> cid
      | Disconnect i \<Rightarrow> i \<noteq> cid
      | Request i now msg \<Rightarrow> i = cid \<longrightarrow> (\<forall>r. parseClientMessage msg = Some r \<longrightarrow> op r = ''subscribe'')
      | Broadcast _ _ _ _ _ \<Rightarrow> True))"

lemma srv_step_law:
  assumes "srv_inv S" "subscribed cid key S" "keeps cid (E, books, a)" "srv_step E books a S = Some (out, S')"
  shows "srv_inv S'" "subscribed cid key S'"
    "(seqMap S' key = seqMap S key \<and> seqs_of cid key out = []) \<or>
     (seqMap S' key = (seqMap S key + 1) mod 18446744073709551616 \<and> seqs_of cid key out = [seqMap S' key])"
proof -
  have "srv_inv S' \<and> subscribed cid key S' \<and>
    ((seqMap S' key = seqMap S key \<and> seqs_of cid key out = []) \<or>
     (seqMap S' key = (seqMap S key + 1) mod 18446744073709551616 \<and> seqs_of cid key out = [seqMap S' key]))"
  proof (cases a)
    case (Connect i)
    then show ?thesis using assms connection_law(1-3) [OF assms(1,2), of i]
      by (auto simp: srv_step_def keeps_def seqs_of_def)
  next
    case (Disconnect i)
    then show ?thesis using assms connection_law(4-6) [OF assms(1,2), of i]
      by (auto simp: srv_step_def keeps_def seqs_of_def)
  next
    case (Request i now msg)
    then obtain out1 where m: "onMessage E books now i msg S = Some (out1, S')" "out = map (Pair i) out1"
      using assms(4) by (auto simp: srv_step_def split: Option.bind_splits)
    have own: "i = cid \<Longrightarrow> (\<forall>r. parseClientMessage msg = Some r \<longrightarrow> op r = ''subscribe'')"
      using assms(3) Request by (simp add: keeps_def)
    note law = onMessage_law [OF assms(1,2) m(1) own]
    then show ?thesis by (simp add: m(2) seqs_of_none)
  next
    case (Broadcast exchange symbol ds ts ofi)
    then have b: "broadcastUpdate E exchange symbol ds ts ofi S = (out, S')" using assms(4) by (simp add: srv_step_def)
    have E: "alive E cid" "bufferedAmount E cid \<le> kBackpressureLimit" using assms(3) by (simp_all add: keeps_def)
    note law = broadcast_law [OF assms(1,2) E b]
    show ?thesis using law(1,2,3,4) next_seq_differs [of "seqMap S key"] by auto
  qed
  then show "srv_inv S'" "subscribed cid key S'"
    "(seqMap S' key = seqMap S key \<and> seqs_of cid key out = []) \<or>
     (seqMap S' key = (seqMap S key + 1) mod 18446744073709551616 \<and> seqs_of cid key out = [seqMap S' key])" by simp_all
qed

lemma run_seqs:
  assumes "srv_run acts S = Some (out, S')" "srv_inv S" "subscribed cid key S" "\<forall>a \<in> set acts. keeps cid a"
    and "seqMap S key + length acts < 18446744073709551616"
  shows "subscribed cid key S' \<and> srv_inv S' \<and> seqMap S key \<le> seqMap S' key \<and>
    seqMap S' key \<le> seqMap S key + length acts \<and> seqs_of cid key out = [Suc (seqMap S key)..<Suc (seqMap S' key)]"
  using assms
proof (induction acts arbitrary: S out)
  case Nil
  then show ?case by (simp add: seqs_of_def)
next
  case (Cons a acts)
  obtain E books act where a: "a = (E, books, act)" by (cases a)
  obtain out1 S1 out2 where r: "srv_step E books act S = Some (out1, S1)" "srv_run acts S1 = Some (out2, S')" "out = out1 @ out2"
    using Cons.prems(1) by (auto simp: a split: Option.bind_splits)
  have k: "keeps cid (E, books, act)" using Cons.prems(4) by (simp add: a)
  note law = srv_step_law [OF Cons.prems(2,3) k r(1)]
  have n: "seqMap S key + 1 < 18446744073709551616" using Cons.prems(5) by simp
  have le: "seqMap S1 key \<le> seqMap S key + 1" "seqMap S key \<le> seqMap S1 key"
    "seqs_of cid key out1 = [Suc (seqMap S key)..<Suc (seqMap S1 key)]"
    using law(3) n by (auto simp: mod_less)
  have "seqMap S1 key + length acts < 18446744073709551616" using le(1) Cons.prems(5) by simp
  from Cons.IH [OF r(2) law(1,2) _ this] Cons.prems(4)
  have rest: "subscribed cid key S'" "srv_inv S'" "seqMap S1 key \<le> seqMap S' key"
    "seqMap S' key \<le> seqMap S1 key + length acts" "seqs_of cid key out2 = [Suc (seqMap S1 key)..<Suc (seqMap S' key)]"
    by simp_all
  have "[Suc (seqMap S key)..<Suc (seqMap S1 key)] @ [Suc (seqMap S1 key)..<Suc (seqMap S' key)]
      = [Suc (seqMap S key)..<Suc (seqMap S' key)]"
    using le(2) rest(3) by (metis Suc_le_mono le_Suc_ex upt_add_eq_append)
  then show ?case using rest le by (simp add: r(3))
qed

end
