(* ===== verification/Subscriber_Properties.thy ===== *)
theory Subscriber_Properties
  imports Subscriber_Server Book_Properties
begin

text \<open>The properties of the subscriber protocol and server.\<close>

section \<open>Protocol\<close>

text \<open>
  A stream name is accepted exactly when it is \<open>exchange.SYMBOL.book\<close> with two
  non-empty parts without dots, and the parts are returned.
\<close>

lemma parseStream_exact:
  "parseStream s = Some (e, y) \<longleftrightarrow>
     s = e @ ''.'' @ y @ ''.book'' \<and> e \<noteq> [] \<and> y \<noteq> [] \<and> CHR ''.'' \<notin> set e \<and> CHR ''.'' \<notin> set y"
  by (rule parseStream_iff)

text \<open>
  The levels of a broadcast message, read back as decimals, are the prices and new
  quantities of the \<open>Genuine\<close> deltas of their side, in order: nothing is lost in printing.
\<close>

lemma broadcast_levels_readable:
  assumes "\<forall>d \<in> set ds. in_ll (d_price d) \<and> in_ll (d_newQty d)"
  shows "map_exn parseLevel (genuineLevels isBid ds)
    = Inr (map (\<lambda>d. (d_price d, d_newQty d)) (filter (\<lambda>d. d_kind d = Genuine \<and> d_isBid d = isBid) ds))"
proof -
  have "parseLevel (formatScaled (d_price d), formatScaled (d_newQty d)) = Inr (d_price d, d_newQty d)" if "d \<in> set ds" for d
  proof -
    have "parseDecimal (formatScaled (d_price d)) = Inr (d_price d)"
      "parseDecimal (formatScaled (d_newQty d)) = Inr (d_newQty d)"
      using assms that formatScaled_denotes parseDecimal_denotes by blast+
    then show ?thesis by (simp add: parseLevel_def)
  qed
  then show ?thesis unfolding genuineLevels_def by (intro map_exn_map) simp
qed

lemma broadcast_levels_readable_instance:
  "map_exn parseLevel (genuineLevels True
     [\<lparr>d_price = 150000000, d_newQty = 7, d_deltaQty = 7, d_isBid = True, d_wasInView = False,
       d_inOfiView = True, d_kind = Genuine\<rparr>]) = Inr [(150000000, 7)]"
  by (subst broadcast_levels_readable) (simp_all add: in_ll_def int_limits)

section \<open>Broadcasting\<close>

text \<open>
  A connection that stays subscribed to a stream and keeps up receives every update of
  the stream, once and in order: over any series of handler calls the sequence numbers it
  is sent are consecutive, from the one after the number the stream had to the one it has.
\<close>

lemma subscriber_gets_every_update:
  assumes "srv_run acts S = Some (out, S')" "srv_inv S" "subscribed cid key S" "\<forall>a \<in> set acts. keeps cid a"
    "seqMap S key + length acts < 2 ^ 64"
  shows "seqs_of cid key out = [seqMap S key + 1..<seqMap S' key + 1] \<and> subscribed cid key S'"
  using run_seqs [OF assms(1-4)] assms(5) by simp

definition demo_server :: server where
  "demo_server = \<lparr>clients = [(''a'', \<lparr>hasWs = True, streams = {''kraken.BTC-USD''}\<rparr>), (''b'', \<lparr>hasWs = True, streams = {}\<rparr>)],
     seqMap = (\<lambda>_. 4), srvOfiDepth = 10, started = True, messagesSent = 0, backpressureDisconnects = 0\<rparr>"

definition demo_env :: env where
  "demo_env = \<lparr>alive = (\<lambda>_. True), bufferedAmount = (\<lambda>_. 0)\<rparr>"

definition demo_deltas :: "level_delta list" where
  "demo_deltas = [\<lparr>d_price = 150000000, d_newQty = 7, d_deltaQty = 7, d_isBid = True, d_wasInView = False,
     d_inOfiView = True, d_kind = Genuine\<rparr>]"

lemma subscriber_gets_every_update_instance:
  "\<exists>out S'. srv_run [(demo_env, Map.empty, Broadcast ''kraken'' ''BTC-USD'' demo_deltas 0 7),
      (demo_env, Map.empty, Disconnect ''b''), (demo_env, Map.empty, Broadcast ''kraken'' ''BTC-USD'' demo_deltas 1 7)]
      demo_server = Some (out, S') \<and> seqs_of ''a'' ''kraken.BTC-USD'' out = [5, 6]"
proof -
  let ?acts = "[(demo_env, Map.empty, Broadcast ''kraken'' ''BTC-USD'' demo_deltas 0 7),
      (demo_env, Map.empty, Disconnect ''b''), (demo_env, Map.empty, Broadcast ''kraken'' ''BTC-USD'' demo_deltas 1 7)]"
  let ?run = "srv_run ?acts demo_server"
  have some: "\<exists>out S'. ?run = Some (out, S') \<and> seqMap S' ''kraken.BTC-USD'' = 6"
    by (simp add: srv_step_def broadcastUpdate_def collectTargets_def genuineLevels_def demo_deltas_def demo_server_def
        demo_env_def streamKey_def onClose_def Let_def)
  then obtain out S' where r: "?run = Some (out, S')" "seqMap S' ''kraken.BTC-USD'' = 6" by blast
  have inv: "srv_inv demo_server" "subscribed ''a'' ''kraken.BTC-USD'' demo_server"
    by (simp_all add: srv_inv_def subscribed_def demo_server_def)
  have keep: "\<forall>a \<in> set ?acts. keeps ''a'' a" by (simp add: keeps_def demo_env_def)
  have "seqMap demo_server ''kraken.BTC-USD'' + length ?acts < 2 ^ 64" by (simp add: demo_server_def)
  from subscriber_gets_every_update [OF r(1) inv keep this] r show ?thesis
    by (simp add: demo_server_def upt_rec)
qed

text \<open>
  C23: The snapshot of a new subscription carries the sequence number the stream has at that
  moment, and the client is subscribed from then on, so that the updates it is sent next
  are exactly those after the snapshot.
\<close>

theorem snapshot_carries_sequence:
  assumes "srv_inv S" "map_of (clients S) cid = Some c" "hasWs c"
    "subscribeStream books now cid ([], S) (exchange @ ''.'' @ symbol @ ''.book'') = Some (out, S')"
    "CHR ''.'' \<notin> set exchange" "CHR ''.'' \<notin> set symbol" "exchange \<noteq> []" "symbol \<noteq> []"
  shows "(\<forall>m \<in> set out. msg_seq m = seqMap S' (streamKey exchange symbol)) \<and>
    subscribed cid (streamKey exchange symbol) S' \<and> srv_inv S' \<and> seqMap S' = seqMap S"
proof -
  have p: "parseStream (exchange @ ''.'' @ symbol @ ''.book'') = Some (exchange, symbol)"
    using assms(5-8) by (simp add: parseStream_iff)
  have run: "(do { (snap, S1) \<leftarrow> subscribeKey books cid (streamKey exchange symbol) S;
         Some (case snap of
             None \<Rightarrow> ([], S1)
           | Some (s, seq) \<Rightarrow>
               ([Snapshot exchange symbol now (bookLevelsToJson (snap_bids s))
                         (bookLevelsToJson (snap_asks s)) (srvOfiDepth S1) seq], S1)) }) = Some (out, S')"
    using assms(4) unfolding subscribeStream_def prod.case p option.case append_Nil .
  obtain snap where k: "subscribeKey books cid (streamKey exchange symbol) S = Some (snap, S')"
    "out = (case snap of None \<Rightarrow> [] | Some (s, seq) \<Rightarrow> [Snapshot exchange symbol now (bookLevelsToJson (snap_bids s))
                         (bookLevelsToJson (snap_asks s)) (srvOfiDepth S') seq])"
    using run by (auto split: Option.bind_splits option.splits)
  note law = subscribeKey_law [OF assms(1) k(1)]
  have "\<forall>m \<in> set out. msg_seq m = seqMap S' (streamKey exchange symbol)"
    unfolding k(2) using law(3,4) by (auto split: option.splits)
  with law(1,3,5) assms(2,3) show ?thesis by simp
qed

lemma snapshot_carries_sequence_instance:
  "\<exists>out S'. subscribeStream (\<lambda>k. if k = ''kraken.BTC-USD'' then Some demo_book else None) 0 ''b'' ([], demo_server) ''kraken.BTC-USD.book''
     = Some (out, S') \<and> map msg_seq out = [4] \<and> subscribed ''b'' ''kraken.BTC-USD'' S'"
proof -
  let ?books = "\<lambda>k. if k = ''kraken.BTC-USD'' then Some demo_book else None"
  have books: "?books ''kraken.BTC-USD'' = Some demo_book" by simp
  have snap: "\<exists>s. getSnapshot demo_book = Some s \<and> applied s"
    using getSnapshot_law [OF demo_book_inv] by (simp add: demo_book_def)
  have p: "parseStream ''kraken.BTC-USD.book'' = Some (''kraken'', ''BTC-USD'')" by (simp add: parseStream_iff)
  have "\<exists>out S'. subscribeStream ?books 0 ''b'' ([], demo_server) ''kraken.BTC-USD.book'' = Some (out, S') \<and> length out = 1"
    using snap by (auto simp: subscribeStream_def p subscribeKey_def streamKey_def Let_def)
  then obtain out S' where r: "subscribeStream ?books 0 ''b'' ([], demo_server) ''kraken.BTC-USD.book'' = Some (out, S')" "length out = 1"
    by blast
  have inv: "srv_inv demo_server" "map_of (clients demo_server) ''b'' = Some \<lparr>hasWs = True, streams = {}\<rparr>"
    by (simp_all add: srv_inv_def demo_server_def)
  have "(\<forall>m \<in> set out. msg_seq m = seqMap S' (streamKey ''kraken'' ''BTC-USD'')) \<and>
    subscribed ''b'' (streamKey ''kraken'' ''BTC-USD'') S' \<and> srv_inv S' \<and> seqMap S' = seqMap demo_server"
    by (rule snapshot_carries_sequence [OF inv, of ?books 0]) (use r(1) in simp_all)
  moreover obtain m where "out = [m]" using r(2) by (cases out) auto
  ultimately show ?thesis using r(1) by (simp add: streamKey_def demo_server_def)
qed

end
