(* ===== verification/Book_Json.thy ===== *)
theory Book_Json
  imports Book_Safety Json
begin

text \<open>
  The entry points of \<open>OrderBook\<close> that take JSON: \<open>applyUpdate\<close>, \<open>applyDelta\<close> and
  \<open>applySnapshot\<close> of \<open>src/order_book.cpp\<close> on any value, with every throw and every
  undefined access. On a value of the right shape they are the operations on decoded
  messages of \<open>Order_Book\<close>.
\<close>

section \<open>Decoding\<close>

definition jsonLevel :: "json \<Rightarrow> level res" where
  "jsonLevel l =
     bind_res (bind_res (const_idx l 0) get_string) (\<lambda>ps.
     bind_res (of_exn (parseDecimal ps)) (\<lambda>p.
     bind_res (bind_res (const_idx l 1) get_string) (\<lambda>qs.
     bind_res (of_exn (parseDecimal qs)) (\<lambda>q. ret (p, q)))))"

definition jsonLevels :: "json \<Rightarrow> level list res" where
  "jsonLevels j = map_res jsonLevel (items j)"

definition decodeUpdate :: "json \<Rightarrow> (int \<times> int \<times> level list \<times> level list) res" where
  "decodeUpdate j =
     bind_res (bind_res (const_at j ''U'') get_ll) (\<lambda>firstId.
     bind_res (bind_res (const_at j ''u'') get_ll) (\<lambda>lastId.
     bind_res (bind_res (const_at j ''a'') jsonLevels) (\<lambda>asks.
     bind_res (bind_res (const_at j ''b'') jsonLevels) (\<lambda>bids. ret (firstId, lastId, asks, bids)))))"

definition applyUpdateJson :: "orderbook \<Rightarrow> json \<Rightarrow> event_kind \<Rightarrow> (update_result \<times> orderbook) res" where
  "applyUpdateJson b j kind =
     bind_res (decodeUpdate j) (\<lambda>(firstId, lastId, asks, bids).
       map_option Inr (applyUpdateCore b firstId lastId asks bids kind))"

definition applyDeltaJson :: "orderbook \<Rightarrow> json \<Rightarrow> json \<Rightarrow> event_kind \<Rightarrow> (level_delta list \<times> orderbook) res" where
  "applyDeltaJson b bidsArr asksArr kind =
     bind_res (jsonLevels bidsArr) (\<lambda>bids.
     bind_res (jsonLevels asksArr) (\<lambda>asks.
       map_option Inr (do { s \<leftarrow> foldM (applyLevelChange kind True) ([], b) bids;
                            foldM (applyLevelChange kind False) s asks })))"

definition decodeSnapshot :: "json \<Rightarrow> (int \<times> level list \<times> level list) res" where
  "decodeSnapshot j =
     bind_res (bind_res (const_at j ''lastUpdateId'') get_ll) (\<lambda>newId.
     bind_res (bind_res (const_at j ''asks'') jsonLevels) (\<lambda>asks.
     bind_res (bind_res (const_at j ''bids'') jsonLevels) (\<lambda>bids. ret (newId, asks, bids))))"

definition applySnapshotJson :: "orderbook \<Rightarrow> json \<Rightarrow> orderbook res" where
  "applySnapshotJson b j =
     bind_res (decodeSnapshot j) (\<lambda>(newId, asks, bids).
       map_option Inr (loadSnapshot b newId (filter (\<lambda>l. 0 < snd l) asks) (filter (\<lambda>l. 0 < snd l) bids)))"

section \<open>Values of the right shape\<close>

definition levelsJson :: "(string \<times> string) list \<Rightarrow> json" where
  "levelsJson ls = JArray (map (\<lambda>(p, q). JArray [JString p, JString q]) ls)"

definition updateJson :: "int \<Rightarrow> update_msg \<Rightarrow> json" where
  "updateJson eventTime m = JObject [(''E'', JInt eventTime), (''U'', JInt (m_U m)), (''u'', JInt (m_u m)),
     (''b'', levelsJson (m_b m)), (''a'', levelsJson (m_a m))]"

definition snapshotJson :: "snapshot_msg \<Rightarrow> json" where
  "snapshotJson s = JObject [(''lastUpdateId'', JInt (s_lastUpdateId s)), (''bids'', levelsJson (s_bids s)),
     (''asks'', levelsJson (s_asks s))]"

lemma jsonLevel_pair: "jsonLevel (JArray [JString p, JString q]) = of_exn (parseLevel (p, q))"
  by (cases "parseDecimal p"; cases "parseDecimal q")
    (simp_all add: jsonLevel_def json_access parseLevel_def of_exn_def ret_def)

lemma jsonLevels_pairs: "jsonLevels (levelsJson ls) = of_exn (map_exn parseLevel ls)"
  unfolding jsonLevels_def levelsJson_def json_access
  by (rule map_res_map) (auto simp: jsonLevel_pair)

lemma applyUpdateJson_msg:
  assumes "in_ll (m_U m)" "in_ll (m_u m)"
  shows "applyUpdateJson b (updateJson t m) kind = applyUpdate b m kind"
proof -
  have "decodeUpdate (updateJson t m) = bind_res (of_exn (map_exn parseLevel (m_a m))) (\<lambda>asks.
      bind_res (of_exn (map_exn parseLevel (m_b m))) (\<lambda>bids. ret (m_U m, m_u m, asks, bids)))"
    using assms by (simp add: decodeUpdate_def updateJson_def json_access jsonLevels_pairs wrap64_id of_exn_def)
  then show ?thesis
    by (cases "map_exn parseLevel (m_a m)"; cases "map_exn parseLevel (m_b m)")
      (simp_all add: applyUpdateJson_def applyUpdate_def ret_def map_conv_bind_option comp_def)
qed

lemma applyDeltaJson_msg:
  "applyDeltaJson b (levelsJson bids) (levelsJson asks) kind = applyDelta b bids asks kind"
  by (cases "map_exn parseLevel bids"; cases "map_exn parseLevel asks")
    (simp_all add: applyDeltaJson_def applyDelta_def jsonLevels_pairs map_conv_bind_option comp_def)

lemma applySnapshotJson_msg:
  assumes "in_ll (s_lastUpdateId s)"
  shows "applySnapshotJson b (snapshotJson s) = applySnapshot b s"
  using assms
  by (cases "map_exn parseLevel (s_asks s)"; cases "map_exn parseLevel (s_bids s)")
    (simp_all add: applySnapshotJson_def applySnapshot_def decodeSnapshot_def snapshotJson_def ret_def json_access jsonLevels_pairs wrap64_id of_exn_def
      map_conv_bind_option comp_def)

section \<open>Values that do no harm\<close>

text \<open>
  A value whose decoding is defined, with the levels of a feed (no negative price or
  quantity), or which is rejected with an exception. Anything a JSON parser yields for a
  message of the exchange is expected to be one; an object without the keys is not.
\<close>

definition levels_safe :: "level list res \<Rightarrow> bool" where
  "levels_safe r \<longleftrightarrow> (case r of None \<Rightarrow> False | Some (Inl _) \<Rightarrow> True | Some (Inr ls) \<Rightarrow> (\<forall>l \<in> set ls. feed_ok l))"

definition update_safe :: "json \<Rightarrow> bool" where
  "update_safe j \<longleftrightarrow> (case decodeUpdate j of
       None \<Rightarrow> False
     | Some (Inl _) \<Rightarrow> True
     | Some (Inr (firstId, lastId, asks, bids)) \<Rightarrow> in_ll lastId \<and> (\<forall>l \<in> set asks \<union> set bids. feed_ok l))"

definition snapshot_safe :: "json \<Rightarrow> bool" where
  "snapshot_safe j \<longleftrightarrow> (case decodeSnapshot j of
       None \<Rightarrow> False
     | Some (Inl _) \<Rightarrow> True
     | Some (Inr (i, asks, bids)) \<Rightarrow> in_ll i \<and> (\<forall>l \<in> set asks \<union> set bids. feed_ok l))"

text \<open>What a book always is while the program runs.\<close>

definition book_ok :: "orderbook \<Rightarrow> bool" where
  "book_ok b \<longleftrightarrow> book_small b \<and> in_ll (lastUpdateId b)"

lemma applyUpdateJson_safe:
  assumes "book_ok b" "update_safe j"
  shows "(\<exists>e. applyUpdateJson b j kind = Some (Inl e)) \<or>
    (\<exists>r b'. applyUpdateJson b j kind = Some (Inr (r, b')) \<and> book_ok b' \<and> snapshotApplied b' = snapshotApplied b)"
proof (cases "decodeUpdate j")
  case None
  then show ?thesis using assms(2) by (simp add: update_safe_def)
next
  case (Some d)
  show ?thesis
  proof (cases d)
    case (Inr x)
    obtain f l asks bids where x: "x = (f, l, asks, bids)" by (cases x) auto
    have ok: "in_ll l" "\<forall>y \<in> set asks \<union> set bids. feed_ok y"
      using assms(2) Some by (simp_all add: update_safe_def Inr x)
    obtain r b' where "applyUpdateCore b f l asks bids kind = Some (r, b')" "book_small b'" "in_ll (lastUpdateId b')"
      using applyUpdateCore_total [OF _ _ ok, of b f kind] assms(1) by (auto simp: book_ok_def)
    then show ?thesis using applyUpdateCore_frame [of b f l asks bids kind r b']
      by (simp add: applyUpdateJson_def Some Inr x book_ok_def)
  qed (simp add: applyUpdateJson_def Some)
qed

lemma applySnapshotJson_safe:
  assumes "book_ok b" "snapshot_safe j"
  shows "(\<exists>e. applySnapshotJson b j = Some (Inl e) \<and> decodeSnapshot j = Some (Inl e)) \<or>
    (\<exists>i asks bids b'. decodeSnapshot j = Some (Inr (i, asks, bids)) \<and> applySnapshotJson b j = Some (Inr b') \<and>
       book_ok b' \<and> snapshotApplied b' \<and> lastUpdateId b' = i)"
proof (cases "decodeSnapshot j")
  case None
  then show ?thesis using assms(2) unfolding snapshot_safe_def by simp
next
  case (Some d)
  show ?thesis
  proof (cases d)
    case (Inr x)
    obtain i asks bids where x: "x = (i, asks, bids)" by (cases x) auto
    have ok: "in_ll i" "\<forall>y \<in> set asks \<union> set bids. feed_ok y"
      using assms(2) unfolding snapshot_safe_def Some Inr x by simp_all
    obtain b' where "loadSnapshot b i (filter (\<lambda>l. 0 < snd l) asks) (filter (\<lambda>l. 0 < snd l) bids) = Some b'"
      "book_small b'" "snapshotApplied b'" "lastUpdateId b' = i"
      using loadSnapshot_total [of b "filter (\<lambda>l. 0 < snd l) asks" "filter (\<lambda>l. 0 < snd l) bids" i] assms(1) ok(2)
      by (auto simp: book_ok_def)
    then show ?thesis unfolding applySnapshotJson_def Some Inr x using ok(1) by (simp add: book_ok_def)
  qed (simp add: applySnapshotJson_def Some)
qed

end
