(* ===== verification/Binance_Adapter.thy ===== *)
theory Binance_Adapter
  imports Book_Json Ofi_Callback Symbols
begin

text \<open>
  \<open>src/binance_adapter.cpp\<close>: the Binance feed. Each handler is one step on the adapter's
  state; the calls of the update callback are returned in order. Parameters of a step are
  what the adapter does not compute: the clocks, the event of the web socket (IXWebSocket)
  with its text as the two JSON parsers see it, and the answer of the REST call.
\<close>

section \<open>Inputs\<close>

text \<open>
  The clocks read while a message is handled: steady and wall clock in milliseconds, and
  the processing time in microseconds.
\<close>

record instant =
  steady :: int
  wall :: int
  elapsedUs :: int

text \<open>
  An event of the web socket. A message carries its text as simdjson and as nlohmann::json
  parse it, \<open>None\<close> where the parser throws.
\<close>

datatype ws_event =
    WsOpen
  | WsClose
  | WsError
  | WsMessage "json option" "json option"
  | WsOther

record http_response =
  statusCode :: int
  retryAfter :: "string option"
  httpBody :: "json option"

type_synonym callback_call = "string \<times> level_delta list \<times> int"

section \<open>State\<close>

record binance =
  updateIntervalMs :: int
  bin_normalizer :: normalizer
  bin_canonical :: "string \<rightharpoonup> string"
  bin_books :: "string \<rightharpoonup> orderbook"
  bin_metrics :: "string \<rightharpoonup> metrics"
  symbolBuffers :: "string \<Rightarrow> json list"
  resyncQueue :: "string list"
  wsConnected :: bool
  lastActivity :: int
  bin_depth :: int
  bin_symbols :: "string list"
  hasCallback :: bool

definition kMaxBufferedMsgsPerSymbol :: nat where
  "kMaxBufferedMsgsPerSymbol = 5000"

definition newBinance :: "int \<Rightarrow> exn + binance" where
  "newBinance interval =
     (if interval \<noteq> 100 \<and> interval \<noteq> 1000
      then Inl (InvalidArgument ''BinanceAdapter: updateIntervalMs must be 100 or 1000'')
      else Inr \<lparr>updateIntervalMs = interval, bin_normalizer = defaultNormalizer, bin_canonical = Map.empty,
        bin_books = Map.empty, bin_metrics = Map.empty, symbolBuffers = (\<lambda>_. []), resyncQueue = [],
        wsConnected = False, lastActivity = 0, bin_depth = 1000, bin_symbols = [], hasCallback = False\<rparr>)"

definition setUpdateCallback :: "binance \<Rightarrow> binance" where
  "setUpdateCallback A = A\<lparr>hasCallback := True\<rparr>"

abbreviation putBook :: "string \<Rightarrow> orderbook \<Rightarrow> binance \<Rightarrow> binance" where
  "putBook symb b A \<equiv> A\<lparr>bin_books := (bin_books A)(symb \<mapsto> b)\<rparr>"

abbreviation putMetrics :: "string \<Rightarrow> metrics \<Rightarrow> binance \<Rightarrow> binance" where
  "putMetrics symb m A \<equiv> A\<lparr>bin_metrics := (bin_metrics A)(symb \<mapsto> m)\<rparr>"

section \<open>Snapshots over REST\<close>

text \<open>
  The replay of the buffered messages on a fresh snapshot, up to the first one that throws
  or does not connect; the book keeps what was applied before it.
\<close>

fun replayBuffer :: "orderbook \<Rightarrow> json list \<Rightarrow> ((exn + bool) \<times> orderbook) option" where
  "replayBuffer b [] = Some (Inr True, b)"
| "replayBuffer b (msg # msgs) =
     (case applyUpdateJson b msg Backfill of
        None \<Rightarrow> None
      | Some (Inl e) \<Rightarrow> Some (Inl e, b)
      | Some (Inr (r, b')) \<Rightarrow> if \<not> success r then Some (Inr False, b') else replayBuffer b' msgs)"

text \<open>
  The critical section under \<open>bufferMutex\<close>. The caller passes \<open>*books->at(symbol)\<close>, which
  has no defined outcome in a thread when the symbol has no book.
\<close>

definition installSnapshot :: "json \<Rightarrow> string \<Rightarrow> orderbook \<Rightarrow> binance \<Rightarrow> (bool \<times> binance) option" where
  "installSnapshot snapshot canonical b A =
     (case applySnapshotJson b snapshot of
        None \<Rightarrow> None
      | Some (Inl _) \<Rightarrow> Some (False, A)
      | Some (Inr b1) \<Rightarrow>
          (case replayBuffer b1 (symbolBuffers A canonical) of
             None \<Rightarrow> None
           | Some (Inl _, b2) \<Rightarrow> Some (False, putBook canonical b2 A)
           | Some (Inr False, b2) \<Rightarrow>
               Some (False, (putBook canonical b2 A)\<lparr>symbolBuffers := (symbolBuffers A)(canonical := [])\<rparr>)
           | Some (Inr True, b2) \<Rightarrow>
               Some (True, (putBook canonical b2 A)
                 \<lparr>symbolBuffers := (symbolBuffers A)(canonical := []),
                  bin_metrics := (case bin_metrics A canonical of
                      None \<Rightarrow> bin_metrics A
                    | Some m \<Rightarrow> (bin_metrics A)(canonical \<mapsto> m\<lparr>liveReady := True\<rparr>))\<rparr>)))"

text \<open>The wait after an answer that limits the rate: \<open>std::stoi\<close> of the header, or a default.\<close>

definition is_space :: "char \<Rightarrow> bool" where
  "is_space c \<longleftrightarrow> c \<in> {CHR '' '', CHR 0x09, CHR 0x0A, CHR 0x0B, CHR 0x0C, CHR 0x0D}"

definition stoi :: "string \<Rightarrow> exn + int" where
  "stoi s =
     (let s1 = dropWhile is_space s;
          neg = (take 1 s1 = ''-'');
          s2 = (if take 1 s1 = ''-'' \<or> take 1 s1 = ''+'' then drop 1 s1 else s1);
          ds = takeWhile is_digit s2;
          v = (if neg then - digits_value ds else digits_value ds)
      in if ds = [] then Inl (InvalidArgument ''stoi'')
         else if v < - 2147483648 \<or> INT_MAX < v then Inl (OverflowError ''stoi'')
         else Inr v)"

definition rateLimitWait :: "http_response \<Rightarrow> int option" where
  "rateLimitWait response =
     (if statusCode response = 429
      then Some (case retryAfter response of
                   None \<Rightarrow> 60
                 | Some h \<Rightarrow> (case stoi h of Inl _ \<Rightarrow> 60 | Inr v \<Rightarrow> v))
      else if statusCode response = 418 then Some 120 else None)"

definition snapshotUrl :: "string \<Rightarrow> binance \<Rightarrow> string" where
  "snapshotUrl binanceSym A = ''https://api.binance.com/api/v3/depth?symbol='' @ binanceSym @ ''&limit='' @
     (if bin_depth A < 0 then ''-'' @ to_string (nat (- bin_depth A)) else to_string (nat (bin_depth A)))"

text \<open>
  The REST service is a function from URLs to answers; the waits change nothing here. The
  result is whether the snapshot and the buffer were applied.
\<close>

definition fetchAndApplySnapshot ::
  "(string \<Rightarrow> http_response) \<Rightarrow> string \<Rightarrow> string \<Rightarrow> binance \<Rightarrow> (bool \<times> binance) option" where
  "fetchAndApplySnapshot http binanceSym canonical A =
     (let response = http (snapshotUrl binanceSym A)
      in case bin_books A canonical of
           None \<Rightarrow> None
         | Some b \<Rightarrow>
             if rateLimitWait response \<noteq> None then Some (False, A)
             else if statusCode response \<noteq> 200 then Some (False, A)
             else (case httpBody response of
                     None \<Rightarrow> Some (False, A)
                   | Some snapshot \<Rightarrow> installSnapshot snapshot canonical b A))"

section \<open>Web socket events\<close>

definition clearSymbol :: "binance \<Rightarrow> string \<Rightarrow> binance" where
  "clearSymbol A symb = A\<lparr>symbolBuffers := (symbolBuffers A)(symb := []),
     bin_books := (case bin_books A symb of None \<Rightarrow> bin_books A | Some b \<Rightarrow> (bin_books A)(symb \<mapsto> book_clear b))\<rparr>"

definition resetMetrics :: "binance \<Rightarrow> string \<Rightarrow> binance" where
  "resetMetrics A symb = A\<lparr>bin_metrics :=
     (case bin_metrics A symb of
        None \<Rightarrow> bin_metrics A
      | Some m \<Rightarrow> (bin_metrics A)(symb \<mapsto> m\<lparr>lastUpdateTimeMs := 0, ofiAccumulator := 0, liveReady := False\<rparr>))\<rparr>"

definition onOpen :: "binance \<Rightarrow> binance" where
  "onOpen A =
     (if \<not> wsConnected A then A\<lparr>wsConnected := True\<rparr>
      else
        (let A1 = foldl clearSymbol A (bin_symbols A);
             A2 = foldl resetMetrics A1 (bin_symbols A)
         in A2\<lparr>resyncQueue := resyncQueue A2 @ bin_symbols A\<rparr>))"

text \<open>What follows \<open>applyUpdate\<close> in both paths: resync after a gap, else the books' metrics and the callback.\<close>

definition requeueSymbol :: "string \<Rightarrow> orderbook \<Rightarrow> metrics \<Rightarrow> binance \<Rightarrow> binance" where
  "requeueSymbol symb b m A = A\<lparr>
     bin_books := (bin_books A)(symb \<mapsto> book_clear b),
     bin_metrics := (bin_metrics A)(symb \<mapsto> m\<lparr>lastUpdateTimeMs := 0, ofiAccumulator := 0, liveReady := False\<rparr>),
     symbolBuffers := (symbolBuffers A)(symb := []),
     resyncQueue := resyncQueue A @ [symb]\<rparr>"

definition recordUpdate :: "instant \<Rightarrow> metrics \<Rightarrow> metrics" where
  "recordUpdate t m =
     (let m1 = recordProcessingUs m (elapsedUs t)
      in m1\<lparr>msgCount := fetch_add (msgCount m1) 1, lastUpdateTimeMs := steady t\<rparr>)"

definition finishUpdate ::
  "instant \<Rightarrow> string \<Rightarrow> int \<Rightarrow> update_result \<Rightarrow> orderbook \<Rightarrow> metrics \<Rightarrow> binance \<Rightarrow> callback_call list \<times> binance" where
  "finishUpdate t symb eventTime r b m A =
     (if \<not> success r then ([], requeueSymbol symb b m A)
      else (if hasCallback A then [(symb, deltas r, eventTime)] else [],
            putMetrics symb (recordUpdate t m) (putBook symb b A)))"

text \<open>
  The slow path: until the snapshot is there the message is buffered; the first message
  after it makes the symbol live.
\<close>

definition outerData :: "json \<Rightarrow> json option" where
  "outerData outer = (case outer of
       JObject kvs \<Rightarrow> Some (case map_of kvs ''data'' of Some v \<Rightarrow> v | None \<Rightarrow> JNull)
     | JNull \<Rightarrow> Some JNull
     | _ \<Rightarrow> None)"

definition bufferMessage :: "string \<Rightarrow> json \<Rightarrow> binance \<Rightarrow> binance" where
  "bufferMessage symb msg A =
     (if length (symbolBuffers A symb) < kMaxBufferedMsgsPerSymbol
      then A\<lparr>symbolBuffers := (symbolBuffers A)(symb := symbolBuffers A symb @ [msg])\<rparr> else A)"

definition firstLiveUpdate ::
  "instant \<Rightarrow> string \<Rightarrow> orderbook \<Rightarrow> metrics \<Rightarrow> json \<Rightarrow> binance \<Rightarrow> (callback_call list \<times> binance) option" where
  "firstLiveUpdate t symb b m jsonMsg A =
     (let m1 = m\<lparr>liveReady := True\<rparr>; A1 = putMetrics symb m1 A
      in case bind_res (const_at jsonMsg ''E'') get_ll of
           None \<Rightarrow> None
         | Some (Inl _) \<Rightarrow> Some ([], A1)
         | Some (Inr eventTime) \<Rightarrow> do {
             lag \<leftarrow> ll (wall t - eventTime);
             let m2 = m1\<lparr>lastEventLagMs := lag\<rparr>;
             let A2 = putMetrics symb m2 A1;
             (case applyUpdateJson b jsonMsg Genuine of
                None \<Rightarrow> None
              | Some (Inl _) \<Rightarrow> Some ([], A2)
              | Some (Inr (r, b')) \<Rightarrow> Some (finishUpdate t symb eventTime r b' m2 A2))
           })"

definition slowPath ::
  "instant \<Rightarrow> string \<Rightarrow> orderbook \<Rightarrow> metrics \<Rightarrow> json option \<Rightarrow> binance \<Rightarrow> (callback_call list \<times> binance) option" where
  "slowPath t symb b m msg A =
     (case Option.bind msg outerData of
        None \<Rightarrow> Some ([], A)
      | Some jsonMsg \<Rightarrow>
          if \<not> snapshotApplied b then Some ([], bufferMessage symb jsonMsg A)
          else firstLiveUpdate t symb b m jsonMsg A)"

section \<open>The fast path\<close>

text \<open>The accessors of simdjson: every failure throws.\<close>

definition sjField :: "json \<Rightarrow> string \<Rightarrow> exn + json" where
  "sjField j k = (case json_field j k of Some v \<Rightarrow> Inr v | None \<Rightarrow> Inl type_error)"

definition sjString :: "json \<Rightarrow> exn + string" where
  "sjString j = (case j of JString s \<Rightarrow> Inr s | _ \<Rightarrow> Inl type_error)"

definition sjInt64 :: "json \<Rightarrow> exn + int" where
  "sjInt64 j = (case j of JInt i \<Rightarrow> (if in_ll i then Inr i else Inl type_error) | _ \<Rightarrow> Inl type_error)"

definition sjArray :: "json \<Rightarrow> exn + json list" where
  "sjArray j = (case j of JArray xs \<Rightarrow> Inr xs | _ \<Rightarrow> Inl type_error)"

text \<open>A level of the message; an array of fewer than two elements is skipped.\<close>

definition sjLevel :: "json \<Rightarrow> exn + level list" where
  "sjLevel l = bind_exn (sjArray l) (\<lambda>arr.
     case arr of
       [] \<Rightarrow> Inr []
     | x # rest \<Rightarrow> bind_exn (sjString x) (\<lambda>price_sv.
         case rest of
           [] \<Rightarrow> Inr []
         | y # _ \<Rightarrow> bind_exn (sjString y) (\<lambda>qty_sv.
             bind_exn (parseDecimal price_sv) (\<lambda>p. bind_exn (parseDecimal qty_sv) (\<lambda>q. Inr [(p, q)])))))"

definition sjLevels :: "json \<Rightarrow> exn + level list" where
  "sjLevels j = bind_exn (sjArray j) (\<lambda>ls. bind_exn (map_exn sjLevel ls) (\<lambda>xs. Inr (concat xs)))"

definition sjUpdate :: "json \<Rightarrow> exn + (int \<times> int \<times> int \<times> level list \<times> level list)" where
  "sjUpdate doc =
     bind_exn (sjField doc ''data'') (\<lambda>d. if \<not> is_object d then Inl type_error else
     bind_exn (bind_exn (sjField d ''E'') sjInt64) (\<lambda>eventTime.
     bind_exn (bind_exn (sjField d ''U'') sjInt64) (\<lambda>firstId.
     bind_exn (bind_exn (sjField d ''u'') sjInt64) (\<lambda>lastId.
     bind_exn (bind_exn (sjField d ''b'') sjLevels) (\<lambda>bids.
     bind_exn (bind_exn (sjField d ''a'') sjLevels) (\<lambda>asks.
       Inr (eventTime, firstId, lastId, asks, bids)))))))"

definition fastPath ::
  "instant \<Rightarrow> string \<Rightarrow> orderbook \<Rightarrow> metrics \<Rightarrow> json \<Rightarrow> binance \<Rightarrow> (callback_call list \<times> binance) option" where
  "fastPath t symb b m doc A =
     (case sjUpdate doc of
        Inl _ \<Rightarrow> Some ([], A)
      | Inr (eventTime, firstId, lastId, asks, bids) \<Rightarrow> do {
          lag \<leftarrow> ll (wall t - eventTime);
          let m1 = m\<lparr>lastEventLagMs := lag\<rparr>;
          (r, b') \<leftarrow> applyUpdateCore b firstId lastId asks bids Genuine;
          Some (finishUpdate t symb eventTime r b' m1 (putMetrics symb m1 A))
        })"

section \<open>The handler\<close>

definition routeMessage :: "json option \<Rightarrow> binance \<Rightarrow> (json \<times> string \<times> orderbook \<times> metrics) option" where
  "routeMessage sj A =
     (case sj of
        None \<Rightarrow> None
      | Some doc \<Rightarrow>
          (case bind_exn (sjField doc ''stream'') sjString of
             Inl _ \<Rightarrow> None
           | Inr stream \<Rightarrow> do {
               symb \<leftarrow> bin_canonical A (streamToSymbol stream);
               b \<leftarrow> bin_books A symb;
               m \<leftarrow> bin_metrics A symb;
               Some (doc, symb, b, m)
             }))"

definition handleMessage ::
  "instant \<Rightarrow> json option \<Rightarrow> json option \<Rightarrow> binance \<Rightarrow> (callback_call list \<times> binance) option" where
  "handleMessage t sj nl A =
     (case routeMessage sj A of
        None \<Rightarrow> Some ([], A)
      | Some (doc, symb, b, m) \<Rightarrow>
          if \<not> liveReady m then slowPath t symb b m nl A else fastPath t symb b m doc A)"

definition handleWsMessage :: "instant \<Rightarrow> ws_event \<Rightarrow> binance \<Rightarrow> (callback_call list \<times> binance) option" where
  "handleWsMessage t ev A =
     (case ev of
        WsOpen \<Rightarrow> Some ([], onOpen (A\<lparr>lastActivity := steady t\<rparr>))
      | WsMessage sj nl \<Rightarrow> handleMessage t sj nl (A\<lparr>lastActivity := steady t\<rparr>)
      | _ \<Rightarrow> Some ([], A))"

end
