(* ===== verification/Watchdog.thy ===== *)
theory Watchdog
  imports Main
begin

text \<open>
  The watchdog of both adapters, as an interface: a tick reads the clock and the time of the
  last traffic (0: none yet) and says whether the socket is stopped and started again. What
  it does in silence, without any event of the socket, follows from that alone.
\<close>

text \<open>The restarts of a series of ticks with no traffic, and the time it leaves.\<close>

fun ticks :: "(int \<Rightarrow> int \<Rightarrow> bool \<times> int) \<Rightarrow> int list \<Rightarrow> int \<Rightarrow> bool list \<times> int" where
  "ticks tick [] seen = ([], seen)"
| "ticks tick (now # nows) seen =
     (let (restart, seen') = tick now seen; (rs, seen'') = ticks tick nows seen' in (restart # rs, seen''))"

definition restarts :: "(int \<Rightarrow> int \<Rightarrow> bool \<times> int) \<Rightarrow> int list \<Rightarrow> int \<Rightarrow> nat" where
  "restarts tick nows seen = length (filter id (fst (ticks tick nows seen)))"

lemma restarts_simps [simp]:
  "restarts tick [] seen = 0"
  "restarts tick (now # nows) seen = (if fst (tick now seen) then 1 else 0) + restarts tick nows (snd (tick now seen))"
  by (simp_all add: restarts_def split_def Let_def)

locale watchdog =
  fixes tick :: "int \<Rightarrow> int \<Rightarrow> bool \<times> int"
    and threshold :: int
  assumes silent: "tick now 0 = (False, 0)"
    and waits: "seen \<noteq> 0 \<Longrightarrow> now - seen \<le> threshold \<Longrightarrow> tick now seen = (False, seen)"
    and fires: "seen \<noteq> 0 \<Longrightarrow> threshold < now - seen \<Longrightarrow> tick now seen = (True, 0)"
begin

lemma never_again: "restarts tick nows 0 = 0"
  by (induction nows) (simp_all add: silent)

lemma one_restart:
  "restarts tick nows seen = (if seen \<noteq> 0 \<and> (\<exists>now \<in> set nows. threshold < now - seen) then 1 else 0)"
proof (induction nows)
  case (Cons now nows)
  show ?case
  proof (cases "seen = 0")
    case True
    then show ?thesis using never_again [of "now # nows"] by simp
  next
    case False
    then show ?thesis using Cons.IH waits [of seen now] fires [of seen now] never_again [of nows]
      by (cases "threshold < now - seen") auto
  qed
qed simp

end

end
