(* ===== verification/Binance_System.thy ===== *)
theory Binance_System
  imports Binance_Adapter Watchdog
begin

text \<open>
  The threads of the Binance adapter: \<open>start\<close> with its sequential snapshot fetches, the
  resync worker and the watchdog, each as steps between the points where it waits, and the
  step relation that interleaves them with the events of the web socket.
\<close>

section \<open>start\<close>

definition binanceName :: "normalizer \<Rightarrow> string \<Rightarrow> string" where
  "binanceName N canonical = (case fromCanonical N ''binance'' canonical of Some s \<Rightarrow> s | None \<Rightarrow> canonical)"

fun registerSymbols ::
  "normalizer \<Rightarrow> (string \<rightharpoonup> orderbook) \<Rightarrow> (string \<rightharpoonup> metrics) \<Rightarrow> string list \<Rightarrow> (string \<rightharpoonup> string) \<Rightarrow> bool \<times> (string \<rightharpoonup> string)" where
  "registerSymbols N bs ms [] M = (True, M)"
| "registerSymbols N bs ms (c # cs) M =
     (if bs c = None \<or> ms c = None then (False, M)
      else registerSymbols N bs ms cs (M(binanceName N c \<mapsto> c)))"

definition startMetrics :: "(string \<rightharpoonup> metrics) \<Rightarrow> string \<Rightarrow> (string \<rightharpoonup> metrics)" where
  "startMetrics ms s = (case ms s of None \<Rightarrow> ms | Some m \<Rightarrow> ms(s \<mapsto> m\<lparr>lastUpdateTimeMs := 0, liveReady := False\<rparr>))"

definition prepareStart ::
  "string list \<Rightarrow> (string \<rightharpoonup> orderbook) \<Rightarrow> (string \<rightharpoonup> metrics) \<Rightarrow> int \<Rightarrow> binance \<Rightarrow> bool \<times> binance" where
  "prepareStart symbols bs ms depth A =
     (let (ok, M) = registerSymbols (bin_normalizer A) bs ms symbols Map.empty
      in if \<not> ok then (False, A\<lparr>bin_canonical := M\<rparr>)
         else (True, A\<lparr>bin_canonical := M, bin_books := map_option book_clear \<circ> bs,
                bin_metrics := foldl startMetrics ms symbols, bin_depth := depth, bin_symbols := symbols,
                lastActivity := 0, symbolBuffers := (\<lambda>_. []), wsConnected := False\<rparr>))"

definition to_lower :: "char \<Rightarrow> char" where
  "to_lower c = (let n = (of_char c :: nat) in if 65 \<le> n \<and> n \<le> 90 then char_of (n + 32) else c)"

definition streamName :: "binance \<Rightarrow> string \<Rightarrow> string" where
  "streamName A canonical = map to_lower (binanceName (bin_normalizer A) canonical) @ ''@depth@'' @
     to_string (nat (updateIntervalMs A)) @ ''ms''"

fun joinStreams :: "string list \<Rightarrow> string" where
  "joinStreams [] = []"
| "joinStreams [s] = s"
| "joinStreams (s # ss) = s @ ''/'' @ joinStreams ss"

definition streamUrl :: "binance \<Rightarrow> string" where
  "streamUrl A = ''wss://stream.binance.com:9443/stream?streams='' @ joinStreams (map (streamName A) (bin_symbols A))"

text \<open>
  The position of the thread in \<open>start\<close>: not called, fetching (the symbols that are left,
  the attempt for the first of them, whether all before succeeded), or returned.
\<close>

datatype starter =
    NotStarted
  | Fetching "string list" int bool
  | Started bool

definition nextSymbol :: "string list \<Rightarrow> bool \<Rightarrow> starter" where
  "nextSymbol ss allOk = (if ss = [] then Started allOk else Fetching ss 1 allOk)"

text \<open>
  After \<open>prepareStart\<close>: the socket is started when it is closed, and the connection must be
  there within 30 seconds.
\<close>

definition connectStart :: "string list \<Rightarrow> bool \<Rightarrow> binance \<Rightarrow> starter" where
  "connectStart symbols readyClosed A =
     (if readyClosed \<and> \<not> wsConnected A then Started False else nextSymbol symbols True)"

text \<open>
  One attempt of the loop: \<open>stopBefore\<close> and \<open>stopAfter\<close> are the stop requests seen before
  the first attempt for a symbol and after a failed one.
\<close>

definition startAttempt ::
  "int \<Rightarrow> (string \<Rightarrow> http_response) \<Rightarrow> bool \<Rightarrow> bool \<Rightarrow> string \<Rightarrow> string list \<Rightarrow> int \<Rightarrow> bool \<Rightarrow> binance \<Rightarrow> (starter \<times> binance) option" where
  "startAttempt maxRetries http stopBefore stopAfter canonical ss attempt allOk A =
     (if attempt = 1 \<and> stopBefore then Some (Started False, A)
      else if maxRetries < attempt then Some (nextSymbol ss False, A)
      else do {
        (ok, A') \<leftarrow> fetchAndApplySnapshot http (binanceName (bin_normalizer A) canonical) canonical A;
        Some (if ok then nextSymbol ss allOk
              else if stopAfter \<or> attempt = maxRetries then nextSymbol ss False
              else Fetching (canonical # ss) (attempt + 1) allOk, A')
      })"

section \<open>The resync worker\<close>

datatype worker =
    Waiting
  | Trying string int
  | Stopped

datatype bin_out =
    Callback string "level_delta list" int
  | GaveUp string

definition takeSymbol :: "binance \<Rightarrow> (worker \<times> binance) option" where
  "takeSymbol A = (case resyncQueue A of [] \<Rightarrow> None | s # q \<Rightarrow> Some (Trying s 1, A\<lparr>resyncQueue := q\<rparr>))"

definition endSymbol :: "string \<Rightarrow> bool \<Rightarrow> binance \<Rightarrow> (bin_out list \<times> worker) option" where
  "endSymbol s stop A = (case bin_books A s of
       None \<Rightarrow> None
     | Some b \<Rightarrow> Some (if \<not> snapshotApplied b then [GaveUp s] else [], if stop then Stopped else Waiting))"

definition workerAttempt ::
  "int \<Rightarrow> (string \<Rightarrow> http_response) \<Rightarrow> bool \<Rightarrow> string \<Rightarrow> int \<Rightarrow> binance \<Rightarrow> (bin_out list \<times> worker \<times> binance) option" where
  "workerAttempt maxRetries http stop s attempt A =
     (if maxRetries < attempt then do { (out, w) \<leftarrow> endSymbol s stop A; Some (out, w, A) }
      else do {
        (ok, A') \<leftarrow> fetchAndApplySnapshot http (binanceName (bin_normalizer A) s) s A;
        if ok then do { (out, w) \<leftarrow> endSymbol s stop A'; Some (out, w, A') }
        else if stop then Some ([], Stopped, A')
        else if attempt < maxRetries then Some ([], Trying s (attempt + 1), A')
        else do { (out, w) \<leftarrow> endSymbol s stop A'; Some (out, w, A') }
      })"

section \<open>The watchdog\<close>

definition kStaleThresholdMs :: int where
  "kStaleThresholdMs = 2000"

text \<open>One tick; the result says whether the socket is stopped and started again.\<close>

definition watchdogTick :: "int \<Rightarrow> int \<Rightarrow> bool \<times> int" where
  "watchdogTick now seen = (if seen = 0 then (False, seen)
     else if kStaleThresholdMs < now - seen then (True, 0) else (False, seen))"

interpretation binance_dog: watchdog watchdogTick kStaleThresholdMs
  by unfold_locales (simp_all add: watchdogTick_def)

section \<open>The adapter as a machine\<close>

record bin_sys =
  adp :: binance
  resyncer :: worker
  starting :: starter

text \<open>\<open>stop\<close> joins the threads.\<close>

definition stopAdapter :: "bin_sys \<Rightarrow> bin_sys" where
  "stopAdapter S = S\<lparr>resyncer := Stopped\<rparr>"

text \<open>
  The events: one of the web socket, the end of the wait for the connection in \<open>start\<close>, an
  attempt of \<open>start\<close>, the worker taking a symbol or making an attempt, a tick of the
  watchdog. The REST service of an attempt is the one at that moment.
\<close>

datatype bin_event =
    Ws instant ws_event
  | Connect bool
  | StartFetch "string \<Rightarrow> http_response" bool bool
  | Take
  | Attempt "string \<Rightarrow> http_response" bool
  | Tick int

inductive bin_step :: "int \<Rightarrow> bin_sys \<Rightarrow> bin_event \<Rightarrow> bin_out list \<Rightarrow> bin_sys \<Rightarrow> bool" for maxRetries where
  ws: "handleWsMessage t ev (adp S) = Some (calls, A) \<Longrightarrow>
    bin_step maxRetries S (Ws t ev) (map (\<lambda>(s, ds, ts). Callback s ds ts) calls) (S\<lparr>adp := A\<rparr>)"
| connect_ok: "starting S = NotStarted \<Longrightarrow> p = connectStart (bin_symbols (adp S)) readyClosed (adp S) \<Longrightarrow>
    p \<noteq> Started False \<Longrightarrow>
    bin_step maxRetries S (Connect readyClosed) [] (S\<lparr>starting := p, resyncer := Waiting\<rparr>)"
| connect_fails: "starting S = NotStarted \<Longrightarrow>
    connectStart (bin_symbols (adp S)) readyClosed (adp S) = Started False \<Longrightarrow>
    bin_step maxRetries S (Connect readyClosed) [] (S\<lparr>starting := Started False\<rparr>)"
| start_fetch: "starting S = Fetching (s # ss) k allOk \<Longrightarrow>
    startAttempt maxRetries http stopBefore stopAfter s ss k allOk (adp S) = Some (p, A) \<Longrightarrow> p \<noteq> Started False \<Longrightarrow>
    bin_step maxRetries S (StartFetch http stopBefore stopAfter) [] (S\<lparr>adp := A, starting := p\<rparr>)"
| start_fails: "starting S = Fetching (s # ss) k allOk \<Longrightarrow>
    startAttempt maxRetries http stopBefore stopAfter s ss k allOk (adp S) = Some (Started False, A) \<Longrightarrow>
    bin_step maxRetries S (StartFetch http stopBefore stopAfter) [] (stopAdapter (S\<lparr>adp := A, starting := Started False\<rparr>))"
| take_symbol: "resyncer S = Waiting \<Longrightarrow> takeSymbol (adp S) = Some (w, A) \<Longrightarrow>
    bin_step maxRetries S Take [] (S\<lparr>adp := A, resyncer := w\<rparr>)"
| attempt: "resyncer S = Trying s k \<Longrightarrow> workerAttempt maxRetries http stop s k (adp S) = Some (out, w, A) \<Longrightarrow>
    bin_step maxRetries S (Attempt http stop) out (S\<lparr>adp := A, resyncer := w\<rparr>)"
| tick: "starting S = Started True \<Longrightarrow> watchdogTick now (lastActivity (adp S)) = (restart, l) \<Longrightarrow>
    bin_step maxRetries S (Tick now) [] (S\<lparr>adp := (adp S)\<lparr>lastActivity := l\<rparr>\<rparr>)"

inductive bin_run :: "int \<Rightarrow> bin_sys \<Rightarrow> bin_event list \<Rightarrow> bin_out list \<Rightarrow> bin_sys \<Rightarrow> bool" for maxRetries where
  nothing: "bin_run maxRetries S [] [] S"
| more: "bin_step maxRetries S e out S1 \<Longrightarrow> bin_run maxRetries S1 es outs S2 \<Longrightarrow>
    bin_run maxRetries S (e # es) (out @ outs) S2"

inductive_cases bin_stepE: "bin_step maxRetries S e out S'"
inductive_simps bin_run_Nil [simp]: "bin_run maxRetries S [] out S'"
inductive_simps bin_run_Cons: "bin_run maxRetries S (e # es) out S'"

text \<open>The system after a successful \<open>prepareStart\<close>, before the connection.\<close>

definition prepared :: "binance \<Rightarrow> bin_sys" where
  "prepared A = \<lparr>adp = A, resyncer = Stopped, starting = NotStarted\<rparr>"

end
