(* ===== verification/Binance_Laws.thy ===== *)
theory Binance_Laws
  imports Binance_System
begin

text \<open>
  What every handler of the Binance adapter keeps: the invariant \<open>bin_ok\<close>, on messages and
  answers that do no harm (\<open>ws_safe\<close>, \<open>http_safe\<close>), and what it changes.
\<close>

section \<open>The invariant\<close>

definition has_book :: "binance \<Rightarrow> string \<Rightarrow> bool" where
  "has_book A s \<longleftrightarrow> (\<exists>b. bin_books A s = Some b \<and> snapshotApplied b)"

definition is_live :: "binance \<Rightarrow> string \<Rightarrow> bool" where
  "is_live A s \<longleftrightarrow> (\<exists>m. bin_metrics A s = Some m \<and> liveReady m)"

definition bin_ok :: "binance \<Rightarrow> bool" where
  "bin_ok A \<longleftrightarrow>
     (\<forall>s \<in> set (bin_symbols A). s \<in> dom (bin_books A) \<and> s \<in> dom (bin_metrics A)) \<and>
     ran (bin_canonical A) \<subseteq> set (bin_symbols A) \<and> set (resyncQueue A) \<subseteq> set (bin_symbols A) \<and>
     (\<forall>s b. bin_books A s = Some b \<longrightarrow> book_ok b) \<and>
     (\<forall>s m. bin_metrics A s = Some m \<longrightarrow> length (processingBuckets m) = 11) \<and>
     (\<forall>s. length (symbolBuffers A s) \<le> kMaxBufferedMsgsPerSymbol \<and> (\<forall>j \<in> set (symbolBuffers A s). update_safe j)) \<and>
     (\<forall>s. is_live A s \<longrightarrow> s \<in> dom (bin_books A) \<longrightarrow> has_book A s)"

definition lag_ok :: "instant \<Rightarrow> json \<Rightarrow> bool" where
  "lag_ok t d \<longleftrightarrow> (case bind_res (const_at d ''E'') get_ll of
      None \<Rightarrow> False | Some (Inl _) \<Rightarrow> True | Some (Inr e) \<Rightarrow> in_ll (wall t - e))"

definition fast_safe :: "instant \<Rightarrow> json \<Rightarrow> bool" where
  "fast_safe t doc \<longleftrightarrow> (case sjUpdate doc of
      Inl _ \<Rightarrow> True
    | Inr (e, U, u, asks, bids) \<Rightarrow> in_ll (wall t - e) \<and> in_ll u \<and> (\<forall>l \<in> set asks \<union> set bids. feed_ok l))"

definition ws_safe :: "instant \<Rightarrow> ws_event \<Rightarrow> bool" where
  "ws_safe t ev \<longleftrightarrow> (case ev of
      WsMessage sj nl \<Rightarrow>
        (\<forall>doc. sj = Some doc \<longrightarrow> fast_safe t doc) \<and>
        (\<forall>d. Option.bind nl outerData = Some d \<longrightarrow> update_safe d \<and> lag_ok t d)
    | _ \<Rightarrow> True)"

definition http_safe :: "(string \<Rightarrow> http_response) \<Rightarrow> bool" where
  "http_safe http \<longleftrightarrow> (\<forall>url j. httpBody (http url) = Some j \<longrightarrow> snapshot_safe j)"

lemma bin_okD:
  assumes "bin_ok A"
  shows "s \<in> set (bin_symbols A) \<Longrightarrow> \<exists>b. bin_books A s = Some b" "s \<in> set (bin_symbols A) \<Longrightarrow> \<exists>m. bin_metrics A s = Some m"
    "bin_canonical A x = Some s \<Longrightarrow> s \<in> set (bin_symbols A)" "s \<in> set (resyncQueue A) \<Longrightarrow> s \<in> set (bin_symbols A)"
    "bin_books A s = Some b \<Longrightarrow> book_ok b" "bin_metrics A s = Some m \<Longrightarrow> length (processingBuckets m) = 11"
    "length (symbolBuffers A s) \<le> kMaxBufferedMsgsPerSymbol" "j \<in> set (symbolBuffers A s) \<Longrightarrow> update_safe j"
    "bin_books A s = Some b \<Longrightarrow> bin_metrics A s = Some m \<Longrightarrow> liveReady m \<Longrightarrow> snapshotApplied b"
  using assms by (auto simp: bin_ok_def is_live_def has_book_def ran_def)

text \<open>What no handler changes.\<close>

definition same_setup :: "binance \<Rightarrow> binance \<Rightarrow> bool" where
  "same_setup A A' \<longleftrightarrow> bin_symbols A' = bin_symbols A \<and> bin_canonical A' = bin_canonical A \<and>
     bin_normalizer A' = bin_normalizer A \<and> bin_depth A' = bin_depth A \<and> hasCallback A' = hasCallback A \<and>
     updateIntervalMs A' = updateIntervalMs A \<and> dom (bin_books A') = dom (bin_books A) \<and>
     dom (bin_metrics A') = dom (bin_metrics A)"

lemma same_setup_refl [simp]: "same_setup A A"
  by (simp add: same_setup_def)

lemma same_setup_trans [trans]: "same_setup A B \<Longrightarrow> same_setup B C \<Longrightarrow> same_setup A C"
  by (simp add: same_setup_def)

text \<open>
  The rule for a handler that writes the entries of one symbol: the new entries have to be
  good, and the queue and the buffer.
\<close>

lemma bin_ok_update:
  assumes A: "bin_ok A" and b: "book_ok b" and m: "length (processingBuckets m) = 11"
    and live: "liveReady m \<Longrightarrow> snapshotApplied b"
    and buf: "length ms \<le> kMaxBufferedMsgsPerSymbol" "\<forall>j \<in> set ms. update_safe j"
    and q: "set q \<subseteq> set (bin_symbols A)"
    and A': "bin_symbols A' = bin_symbols A" "bin_canonical A' = bin_canonical A"
      "bin_books A' = (bin_books A)(s \<mapsto> b)" "bin_metrics A' = (bin_metrics A)(s \<mapsto> m)"
      "symbolBuffers A' = (symbolBuffers A)(s := ms)" "resyncQueue A' = q"
  shows "bin_ok A'"
  using assms unfolding bin_ok_def has_book_def is_live_def A' by auto

section \<open>Replaying the buffer\<close>

lemma replayBuffer_safe:
  assumes "book_ok b" "\<forall>j \<in> set msgs. update_safe j"
  shows "\<exists>r b'. replayBuffer b msgs = Some (r, b') \<and> book_ok b' \<and> snapshotApplied b' = snapshotApplied b"
  using assms
proof (induction msgs arbitrary: b)
  case (Cons j msgs)
  have j: "update_safe j" using Cons.prems(2) by simp
  from applyUpdateJson_safe [OF Cons.prems(1) j, of Backfill] show ?case
  proof (elim disjE exE conjE)
    fix r b'
    assume u: "applyUpdateJson b j Backfill = Some (Inr (r, b'))" "book_ok b'" "snapshotApplied b' = snapshotApplied b"
    with Cons.IH [OF u(2)] Cons.prems(2) show ?thesis by auto
  qed (use Cons.prems(1) in simp)
qed simp

text \<open>
  The ids of the buffered messages follow those of a book at id \<open>i\<close>: each is old, or
  starts no later than the id after the one reached.
\<close>

fun connects :: "int \<Rightarrow> json list \<Rightarrow> bool" where
  "connects i [] = True"
| "connects i (j # js) =
     (case decodeUpdate j of
        Some (Inr (firstId, lastId, _, _)) \<Rightarrow>
          (if lastId \<le> i then connects i js else firstId \<le> i + 1 \<and> connects lastId js)
      | _ \<Rightarrow> False)"

lemma replayBuffer_connects:
  assumes "book_ok b" "\<forall>j \<in> set msgs. update_safe j"
  shows "fst (the (replayBuffer b msgs)) = Inr True \<longleftrightarrow> connects (lastUpdateId b) msgs"
  using assms
proof (induction msgs arbitrary: b)
  case (Cons j msgs)
  have j: "update_safe j" using Cons.prems(2) by simp
  from applyUpdateJson_safe [OF Cons.prems(1) j, of Backfill] show ?case
  proof (elim disjE exE conjE)
    fix e
    assume e: "applyUpdateJson b j Backfill = Some (Inl e)"
    then have "decodeUpdate j = Some (Inl e)"
      by (auto simp: applyUpdateJson_def bind_res_def split: option.splits sum.splits)
    then show ?thesis using e by simp
  next
    fix r b'
    assume u: "applyUpdateJson b j Backfill = Some (Inr (r, b'))" "book_ok b'"
    then obtain f l as bs where d: "decodeUpdate j = Some (Inr (f, l, as, bs))" "applyUpdateCore b f l as bs Backfill = Some (r, b')"
      by (auto simp: applyUpdateJson_def bind_res_ret)
    note frame = applyUpdateCore_frame [OF d(2)]
    show ?thesis using Cons.IH [OF u(2)] Cons.prems(2) frame d(1) u(1)
      by (auto simp: stale_def gap_def split: if_splits)
  qed
qed simp

section \<open>Snapshots\<close>

text \<open>
  What an attempt to fetch a snapshot does: it never faults; it changes one symbol only;
  no book loses its snapshot; on success the symbol has its book and is live, and its
  buffer is empty.
\<close>

definition fetched :: "string \<Rightarrow> bool \<Rightarrow> binance \<Rightarrow> binance \<Rightarrow> bool" where
  "fetched s ok A A' \<longleftrightarrow> bin_ok A' \<and> same_setup A A' \<and> resyncQueue A' = resyncQueue A \<and>
     wsConnected A' = wsConnected A \<and> lastActivity A' = lastActivity A \<and>
     (\<forall>x. x \<noteq> s \<longrightarrow> bin_books A' x = bin_books A x \<and> bin_metrics A' x = bin_metrics A x \<and> symbolBuffers A' x = symbolBuffers A x) \<and>
     (\<forall>x. has_book A x \<longrightarrow> has_book A' x) \<and>
     (ok \<longrightarrow> has_book A' s \<and> symbolBuffers A' s = [] \<and> (s \<in> dom (bin_metrics A) \<longrightarrow> is_live A' s))"

lemma fetched_refl: "bin_ok A \<Longrightarrow> fetched s False A A"
  by (simp add: fetched_def)

lemma installSnapshot_law:
  assumes A: "bin_ok A" and b: "bin_books A s = Some b" and j: "snapshot_safe j"
  shows "\<exists>ok A'. installSnapshot j s b A = Some (ok, A') \<and> fetched s ok A A' \<and>
    (ok \<longleftrightarrow> (\<exists>i asks bids. decodeSnapshot j = Some (Inr (i, asks, bids)) \<and> connects i (symbolBuffers A s)))"
proof -
  have bok: "book_ok b" by (rule bin_okD(5) [OF A b])
  from applySnapshotJson_safe [OF bok j] show ?thesis
  proof (elim disjE exE conjE)
    fix e
    assume "applySnapshotJson b j = Some (Inl e)" "decodeSnapshot j = Some (Inl e)"
    then show ?thesis using fetched_refl [OF A] by (auto simp: installSnapshot_def)
  next
    fix i asks bids b1
    assume b1: "applySnapshotJson b j = Some (Inr b1)" "book_ok b1" "snapshotApplied b1"
      and d: "decodeSnapshot j = Some (Inr (i, asks, bids))" and i: "lastUpdateId b1 = i"
    obtain r b2 where r: "replayBuffer b1 (symbolBuffers A s) = Some (r, b2)" "book_ok b2" "snapshotApplied b2"
      using replayBuffer_safe [OF b1(2), of "symbolBuffers A s"] bin_okD(8) [OF A] b1(3) by auto
    define A1 where "A1 = putBook s b2 A"
    define A2 where "A2 = A1\<lparr>symbolBuffers := (symbolBuffers A)(s := [])\<rparr>"
    define A3 where "A3 = A2\<lparr>bin_metrics := (case bin_metrics A s of None \<Rightarrow> bin_metrics A
      | Some m \<Rightarrow> (bin_metrics A)(s \<mapsto> m\<lparr>liveReady := True\<rparr>))\<rparr>"
    have run: "installSnapshot j s b A = Some (case r of Inl _ \<Rightarrow> (False, A1) | Inr False \<Rightarrow> (False, A2) | Inr True \<Rightarrow> (True, A3))"
      by (auto simp: installSnapshot_def b1(1) r(1) A1_def A2_def A3_def split: sum.split bool.split)
    have dom: "insert s (dom (bin_books A)) = dom (bin_books A)" using b by auto
    have 1: "fetched s False A A1"
      using A b r(2,3) unfolding fetched_def bin_ok_def same_setup_def has_book_def is_live_def A1_def by (auto simp: dom)
    have 2: "fetched s False A A2"
      using A b r(2,3) unfolding fetched_def bin_ok_def same_setup_def has_book_def is_live_def A1_def A2_def by (auto simp: dom)
    have 3: "fetched s True A A3"
      using A b r(2,3) unfolding fetched_def bin_ok_def same_setup_def has_book_def is_live_def A1_def A2_def A3_def
      by (cases "bin_metrics A s") (auto simp: dom)
    have "r = Inr True \<longleftrightarrow> connects i (symbolBuffers A s)"
      using replayBuffer_connects [OF b1(2), of "symbolBuffers A s"] bin_okD(8) [OF A] r(1) by (simp add: i)
    then show ?thesis using 1 2 3 unfolding run d by (cases r) (auto split: bool.split)
  qed
qed

text \<open>The answer of the REST service that an attempt needs.\<close>

definition answered :: "(string \<Rightarrow> http_response) \<Rightarrow> string \<Rightarrow> json list \<Rightarrow> bool" where
  "answered http url js \<longleftrightarrow> statusCode (http url) = 200 \<and>
     (\<exists>j i asks bids. httpBody (http url) = Some j \<and> decodeSnapshot j = Some (Inr (i, asks, bids)) \<and> connects i js)"

lemma fetch_exact:
  assumes A: "bin_ok A" and s: "s \<in> set (bin_symbols A)" and h: "http_safe http"
  obtains ok A' where "fetchAndApplySnapshot http x s A = Some (ok, A')" "fetched s ok A A'"
    "ok \<longleftrightarrow> answered http (snapshotUrl x A) (symbolBuffers A s)"
proof -
  obtain b where b: "bin_books A s = Some b" using bin_okD(1) [OF A s] by blast
  have inst: "\<exists>ok A'. installSnapshot j s b A = Some (ok, A') \<and> fetched s ok A A' \<and>
      (ok \<longleftrightarrow> (\<exists>i asks bids. decodeSnapshot j = Some (Inr (i, asks, bids)) \<and> connects i (symbolBuffers A s)))"
    if "httpBody (http (snapshotUrl x A)) = Some j" for j
    using installSnapshot_law [OF A b] h that by (simp add: http_safe_def)
  have code: "statusCode r = 200 \<Longrightarrow> rateLimitWait r = None" for r by (simp add: rateLimitWait_def)
  have "\<exists>ok A'. fetchAndApplySnapshot http x s A = Some (ok, A') \<and> fetched s ok A A' \<and>
      (ok \<longleftrightarrow> answered http (snapshotUrl x A) (symbolBuffers A s))"
    using inst fetched_refl [OF A] code [of "http (snapshotUrl x A)"]
    by (cases "httpBody (http (snapshotUrl x A))"; cases "statusCode (http (snapshotUrl x A)) = 200")
      (auto simp: fetchAndApplySnapshot_def Let_def b answered_def)
  with that show thesis by blast
qed

lemma fetch_law:
  assumes "bin_ok A" "s \<in> set (bin_symbols A)" "http_safe http"
  obtains ok A' where "fetchAndApplySnapshot http x s A = Some (ok, A')" "fetched s ok A A'"
  by (rule fetch_exact [OF assms])

section \<open>Web socket events\<close>

text \<open>
  What an event of the web socket does: it never faults; a book that loses its snapshot is
  queued; a callback is for a subscribed symbol and carries no \<open>Backfill\<close> delta.
\<close>

definition ws_handled :: "callback_call list \<Rightarrow> binance \<Rightarrow> binance \<Rightarrow> bool" where
  "ws_handled calls A A' \<longleftrightarrow> bin_ok A' \<and> same_setup A A' \<and> set (resyncQueue A) \<subseteq> set (resyncQueue A') \<and>
     (\<forall>x. has_book A x \<longrightarrow> has_book A' x \<or> x \<in> set (resyncQueue A')) \<and>
     (\<forall>(s, ds, ts) \<in> set calls. s \<in> set (bin_symbols A) \<and> (\<forall>d \<in> set ds. d_kind d \<noteq> Backfill))"

lemma ws_handled_refl: "bin_ok A \<Longrightarrow> ws_handled [] A A"
  by (simp add: ws_handled_def)

lemma recordUpdate_length: "length (processingBuckets m) = 11 \<Longrightarrow> length (processingBuckets (recordUpdate t m)) = 11"
  using recordProcessingUs_bucket(1) [of m 0] by (simp add: recordUpdate_def Let_def)

lemma recordUpdate_live [simp]: "liveReady (recordUpdate t m) = liveReady m"
  by (simp add: recordUpdate_def recordProcessingUs_def Let_def)

lemma book_clear_ok: "book_ok b \<Longrightarrow> book_ok (book_clear b)"
  by (simp add: book_ok_def book_clear_small) (simp add: book_clear_def in_ll_def int_limits)

lemma finish_law:
  assumes A: "bin_ok A" and s: "s \<in> set (bin_symbols A)" "bin_books A s = Some b0" "bin_metrics A s = Some m0"
    and b: "book_ok b" "snapshotApplied b" and m: "length (processingBuckets m) = 11"
    and k: "\<forall>d \<in> set (deltas r). d_kind d \<noteq> Backfill"
    and fin: "finishUpdate t s e r b m (putMetrics s m' A) = (calls, A')"
  shows "ws_handled calls A A'"
proof (cases "success r")
  case True
  let ?A = "putMetrics s (recordUpdate t m) (putBook s b (putMetrics s m' A))"
  have A': "A' = ?A" "calls = (if hasCallback A then [(s, deltas r, e)] else [])" using fin True by (auto simp: finishUpdate_def)
  have ok: "bin_ok ?A"
    by (rule bin_ok_update [OF A b(1) recordUpdate_length [OF m, of t] _ bin_okD(7) [OF A, of s] _ _])
      (use b(2) bin_okD(4,8) [OF A] in auto)
  have "same_setup A ?A" using s(2,3) by (auto simp: same_setup_def)
  then show ?thesis using ok s b(2) k unfolding ws_handled_def A' by (auto simp: has_book_def)
next
  case False
  let ?A = "requeueSymbol s b m (putMetrics s m' A)"
  have A': "A' = ?A" "calls = []" using fin False by (auto simp: finishUpdate_def)
  have ok: "bin_ok ?A"
    by (rule bin_ok_update [OF A book_clear_ok [OF b(1)], of "m\<lparr>lastUpdateTimeMs := 0, ofiAccumulator := 0, liveReady := False\<rparr>" "[]" "resyncQueue A @ [s]" _ s])
      (use m s(1) bin_okD(4) [OF A] in \<open>auto simp: requeueSymbol_def\<close>)
  have "same_setup A ?A" using s(2,3) by (auto simp: same_setup_def requeueSymbol_def)
  then show ?thesis using ok unfolding ws_handled_def A' by (auto simp: has_book_def requeueSymbol_def)
qed

lemma metrics_law:
  assumes A: "bin_ok A" and s: "s \<in> set (bin_symbols A)" "bin_books A s = Some b" "bin_metrics A s = Some m0"
    and b: "snapshotApplied b" and m: "length (processingBuckets m) = 11"
  shows "ws_handled [] A (putMetrics s m A)"
proof -
  have "bin_ok (putMetrics s m A)"
    by (rule bin_ok_update [OF A bin_okD(5) [OF A s(2)] m _ bin_okD(7) [OF A, of s], of "resyncQueue A" _ s])
      (use b s(2) bin_okD(4,8) [OF A] in auto)
  then show ?thesis using s(3) by (auto simp: ws_handled_def same_setup_def has_book_def)
qed

lemma put_again: "putMetrics s m (putMetrics s m' A) = putMetrics s m A"
  by simp

lemma slow_law:
  assumes A: "bin_ok A" and s: "s \<in> set (bin_symbols A)" "bin_books A s = Some b" "bin_metrics A s = Some m"
    and d: "\<And>d. Option.bind nl outerData = Some d \<Longrightarrow> update_safe d \<and> lag_ok t d"
  shows "\<exists>calls A'. slowPath t s b m nl A = Some (calls, A') \<and> ws_handled calls A A'"
proof (cases "Option.bind nl outerData")
  case None
  then show ?thesis using ws_handled_refl [OF A] by (simp add: slowPath_def)
next
  case (Some j)
  note safe = d [OF Some]
  have bok: "book_ok b" by (rule bin_okD(5) [OF A s(2)])
  note m11 = bin_okD(6) [OF A s(3)]
  show ?thesis
  proof (cases "snapshotApplied b")
    case False
    have "bin_ok (bufferMessage s j A)"
      by (cases "length (symbolBuffers A s) < kMaxBufferedMsgsPerSymbol",
          rule bin_ok_update [OF A bok m11, of "symbolBuffers A s @ [j]" "resyncQueue A" _ s])
        (use A s safe bin_okD(4,8,9) [OF A] in \<open>auto simp: bufferMessage_def\<close>)
    then show ?thesis using False
      by (auto simp: slowPath_def Some ws_handled_def same_setup_def bufferMessage_def has_book_def)
  next
    case True
    let ?m1 = "m\<lparr>liveReady := True\<rparr>"
    have 1: "ws_handled [] A (putMetrics s ?m1 A)" by (rule metrics_law [OF A s True]) (use m11 in simp)
    show ?thesis
    proof (cases "bind_res (const_at j ''E'') get_ll")
      case None
      then show ?thesis using safe by (simp add: lag_ok_def)
    next
      case (Some r)
      show ?thesis
      proof (cases r)
        case (Inl e)
        then show ?thesis using True 1 Some \<open>Option.bind nl outerData = Some j\<close>
          by (simp add: slowPath_def firstLiveUpdate_def Let_def)
      next
        case (Inr e)
        let ?m2 = "?m1\<lparr>lastEventLagMs := wall t - e\<rparr>"
        have lag: "in_ll (wall t - e)" using safe by (simp add: lag_ok_def Some Inr)
        have 2: "ws_handled [] A (putMetrics s ?m2 A)" by (rule metrics_law [OF A s True]) (use m11 in simp)
        have start: "slowPath t s b m nl A = (case applyUpdateJson b j Genuine of None \<Rightarrow> None
            | Some (Inl _) \<Rightarrow> Some ([], putMetrics s ?m2 A)
            | Some (Inr (r, b')) \<Rightarrow> Some (finishUpdate t s e r b' ?m2 (putMetrics s ?m2 A)))"
          using True Some lag \<open>Option.bind nl outerData = Some j\<close>
          by (simp add: slowPath_def firstLiveUpdate_def Let_def Inr ll_Some split: option.split sum.split)
        from applyUpdateJson_safe [OF bok conjunct1 [OF safe], of Genuine] show ?thesis
        proof (elim disjE exE conjE)
          fix x
          assume "applyUpdateJson b j Genuine = Some (Inl x)"
          then show ?thesis using 2 unfolding start by simp
        next
          fix u b'
          assume u: "applyUpdateJson b j Genuine = Some (Inr (u, b'))" "book_ok b'" "snapshotApplied b' = snapshotApplied b"
          have k: "\<forall>d \<in> set (deltas u). d_kind d \<noteq> Backfill"
            using u(1) applyUpdateCore_kinds by (fastforce simp: applyUpdateJson_def bind_res_ret secondaryKind_def)
          obtain calls A' where fin: "finishUpdate t s e u b' ?m2 (putMetrics s ?m2 A) = (calls, A')" by (metis surj_pair)
          have "ws_handled calls A A'" by (rule finish_law [OF A s u(2) _ _ k fin]) (use u(3) True m11 in simp_all)
          then show ?thesis unfolding start by (simp add: u(1) fin)
        qed
      qed
    qed
  qed
qed

lemma fast_law:
  assumes A: "bin_ok A" and s: "s \<in> set (bin_symbols A)" "bin_books A s = Some b" "bin_metrics A s = Some m"
    and live: "liveReady m" and safe: "fast_safe t doc"
  shows "\<exists>calls A'. fastPath t s b m doc A = Some (calls, A') \<and> ws_handled calls A A'"
proof (cases "sjUpdate doc")
  case (Inl e)
  then show ?thesis using ws_handled_refl [OF A] by (simp add: fastPath_def)
next
  case (Inr x)
  obtain e U u asks bids where x: "x = (e, U, u, asks, bids)" by (cases x) auto
  have ok: "in_ll (wall t - e)" "in_ll u" "\<forall>l \<in> set asks \<union> set bids. feed_ok l"
    using safe by (simp_all add: fast_safe_def Inr x)
  have bok: "book_ok b" by (rule bin_okD(5) [OF A s(2)])
  have applied: "snapshotApplied b" by (rule bin_okD(9) [OF A s(2,3) live])
  obtain r b' where core: "applyUpdateCore b U u asks bids Genuine = Some (r, b')" "book_small b'" "in_ll (lastUpdateId b')"
    using applyUpdateCore_total [OF _ _ ok(2,3), of b U Genuine] bok by (auto simp: book_ok_def)
  have k: "\<forall>d \<in> set (deltas r). d_kind d \<noteq> Backfill"
    using applyUpdateCore_kinds [OF core(1)] by (auto simp: secondaryKind_def)
  let ?m = "m\<lparr>lastEventLagMs := wall t - e\<rparr>"
  obtain calls A' where fin: "finishUpdate t s e r b' ?m (putMetrics s ?m A) = (calls, A')" by (metis surj_pair)
  have "ws_handled calls A A'"
    by (rule finish_law [OF A s _ _ _ k fin])
      (use core applyUpdateCore_frame [OF core(1)] applied bin_okD(6) [OF A s(3)] in \<open>simp_all add: book_ok_def\<close>)
  then show ?thesis by (simp add: fastPath_def Inr x ll_Some [OF ok(1)] core(1) fin)
qed

section \<open>Reconnecting\<close>

text \<open>A symbol after the discarding of a reconnect.\<close>

definition discarded :: "binance \<Rightarrow> string \<Rightarrow> bool" where
  "discarded A s \<longleftrightarrow> symbolBuffers A s = [] \<and> \<not> has_book A s \<and>
     (\<forall>b. bin_books A s = Some b \<longrightarrow> (\<exists>b0. b = book_clear b0))"

definition silenced :: "binance \<Rightarrow> string \<Rightarrow> bool" where
  "silenced A s \<longleftrightarrow> (\<forall>m. bin_metrics A s = Some m \<longrightarrow> lastUpdateTimeMs m = 0 \<and> ofiAccumulator m = 0 \<and> \<not> liveReady m)"

definition books_ok :: "binance \<Rightarrow> bool" where
  "books_ok A \<longleftrightarrow>
     (\<forall>s b. bin_books A s = Some b \<longrightarrow> book_ok b) \<and>
     (\<forall>s m. bin_metrics A s = Some m \<longrightarrow> length (processingBuckets m) = 11) \<and>
     (\<forall>s. length (symbolBuffers A s) \<le> kMaxBufferedMsgsPerSymbol \<and> (\<forall>j \<in> set (symbolBuffers A s). update_safe j))"

lemma clearSymbols_law:
  assumes "books_ok A"
  shows "books_ok (foldl clearSymbol A ss) \<and> same_setup A (foldl clearSymbol A ss) \<and>
    resyncQueue (foldl clearSymbol A ss) = resyncQueue A \<and> bin_metrics (foldl clearSymbol A ss) = bin_metrics A \<and>
    (\<forall>s \<in> set ss. discarded (foldl clearSymbol A ss) s) \<and>
    (\<forall>s. s \<notin> set ss \<longrightarrow> bin_books (foldl clearSymbol A ss) s = bin_books A s)"
proof (induction ss rule: rev_induct)
  case (snoc s ss)
  let ?B = "foldl clearSymbol A ss"
  have 1: "books_ok (clearSymbol ?B s)"
    using conjunct1 [OF snoc.IH] book_clear_ok unfolding books_ok_def clearSymbol_def [of ?B s] by (auto split: option.splits)
  have 2: "same_setup ?B (clearSymbol ?B s)"
    by (auto simp: same_setup_def clearSymbol_def split: option.splits)
  have 3: "discarded (clearSymbol ?B s) s"
    by (auto simp: discarded_def clearSymbol_def has_book_def book_clear_def split: option.splits)
  have 4: "discarded (clearSymbol ?B s) x" if "discarded ?B x" "x \<noteq> s" for x
    using that by (auto simp: discarded_def clearSymbol_def has_book_def split: option.splits)
  have 5: "bin_books (clearSymbol ?B s) x = bin_books ?B x" if "x \<noteq> s" for x
    using that by (auto simp: clearSymbol_def split: option.splits)
  have 6: "resyncQueue (clearSymbol ?B s) = resyncQueue ?B" "bin_metrics (clearSymbol ?B s) = bin_metrics ?B"
    by (simp_all add: clearSymbol_def)
  from snoc.IH have "same_setup A (clearSymbol ?B s)" using same_setup_trans [OF _ 2] by blast
  moreover have "discarded (clearSymbol ?B s) x" if "x \<in> set (ss @ [s])" for x
    using that 3 4 snoc.IH by (cases "x = s") auto
  ultimately show ?case using 1 5 6 snoc.IH by simp
qed (use assms in simp)

lemma resetMetrics_law:
  assumes "books_ok A"
  shows "books_ok (foldl resetMetrics A ss) \<and> same_setup A (foldl resetMetrics A ss) \<and>
    resyncQueue (foldl resetMetrics A ss) = resyncQueue A \<and> bin_books (foldl resetMetrics A ss) = bin_books A \<and>
    symbolBuffers (foldl resetMetrics A ss) = symbolBuffers A \<and>
    (\<forall>s \<in> set ss. silenced (foldl resetMetrics A ss) s) \<and>
    (\<forall>s. s \<notin> set ss \<longrightarrow> bin_metrics (foldl resetMetrics A ss) s = bin_metrics A s)"
proof (induction ss rule: rev_induct)
  case (snoc s ss)
  let ?B = "foldl resetMetrics A ss"
  have 1: "books_ok (resetMetrics ?B s)"
    using conjunct1 [OF snoc.IH] unfolding books_ok_def resetMetrics_def [of ?B s] by (auto split: option.splits)
  have 2: "same_setup ?B (resetMetrics ?B s)"
    by (auto simp: same_setup_def resetMetrics_def split: option.splits)
  have 3: "silenced (resetMetrics ?B s) x" if "x = s \<or> silenced ?B x" for x
    using that by (auto simp: silenced_def resetMetrics_def split: option.splits)
  have 4: "bin_metrics (resetMetrics ?B s) x = bin_metrics ?B x" if "x \<noteq> s" for x
    using that by (auto simp: resetMetrics_def split: option.splits)
  have 5: "resyncQueue (resetMetrics ?B s) = resyncQueue ?B" "bin_books (resetMetrics ?B s) = bin_books ?B"
    "symbolBuffers (resetMetrics ?B s) = symbolBuffers ?B"
    by (simp_all add: resetMetrics_def)
  from snoc.IH have "same_setup A (resetMetrics ?B s)" using same_setup_trans [OF _ 2] by blast
  moreover have "silenced (resetMetrics ?B s) x" if "x \<in> set (ss @ [s])" for x
    using that 3 snoc.IH by (cases "x = s") auto
  ultimately show ?case using 1 4 5 snoc.IH by simp
qed (use assms in simp)

lemma bin_ok_parts:
  "bin_ok A \<longleftrightarrow> books_ok A \<and>
     (\<forall>s \<in> set (bin_symbols A). s \<in> dom (bin_books A) \<and> s \<in> dom (bin_metrics A)) \<and>
     ran (bin_canonical A) \<subseteq> set (bin_symbols A) \<and> set (resyncQueue A) \<subseteq> set (bin_symbols A) \<and>
     (\<forall>s. is_live A s \<longrightarrow> s \<in> dom (bin_books A) \<longrightarrow> has_book A s)"
  by (auto simp: bin_ok_def books_ok_def)

lemma reconnect_law:
  assumes A: "bin_ok A" and c: "wsConnected A"
  shows "ws_handled [] A (onOpen A)" "wsConnected (onOpen A)"
    "s \<in> set (bin_symbols A) \<Longrightarrow> discarded (onOpen A) s \<and> silenced (onOpen A) s \<and> s \<in> set (resyncQueue (onOpen A))"
proof -
  let ?B = "foldl clearSymbol A (bin_symbols A)" and ?C = "foldl resetMetrics (foldl clearSymbol A (bin_symbols A)) (bin_symbols A)"
  have opened: "onOpen A = ?C\<lparr>resyncQueue := resyncQueue ?C @ bin_symbols A\<rparr>"
    using c by (simp add: onOpen_def Let_def)
  have conn: "wsConnected (foldl clearSymbol A ss) = wsConnected A" "wsConnected (foldl resetMetrics A ss) = wsConnected A" for A ss
    by (induction ss arbitrary: A) (simp_all add: clearSymbol_def resetMetrics_def)
  have ok: "books_ok A" using A by (simp add: bin_ok_parts)
  note B = clearSymbols_law [OF ok, of "bin_symbols A"]
  note C = resetMetrics_law [OF conjunct1 [OF B], of "bin_symbols A"]
  have frame: "same_setup A ?C" using B C same_setup_trans by blast
  have gone: "discarded ?C s" "silenced ?C s" if "s \<in> set (bin_symbols A)" for s
    using B C that by (auto simp: discarded_def has_book_def)
  have live: "is_live ?C s \<longrightarrow> s \<in> dom (bin_books ?C) \<longrightarrow> has_book ?C s" for s
  proof (cases "s \<in> set (bin_symbols A)")
    case True
    then show ?thesis using gone(2) by (auto simp: silenced_def is_live_def)
  next
    case False
    then have "bin_books ?C s = bin_books A s" "bin_metrics ?C s = bin_metrics A s" using B C by auto
    then show ?thesis using bin_okD(9) [OF A] by (auto simp: is_live_def has_book_def domIff)
  qed
  have open_ok: "bin_ok (onOpen A)"
    using A B C frame live unfolding bin_ok_parts opened by (auto simp: books_ok_def same_setup_def is_live_def has_book_def)
  have keep: "has_book (onOpen A) x \<or> x \<in> set (resyncQueue (onOpen A))" if "has_book A x" for x
    using that B C by (cases "x \<in> set (bin_symbols A)") (auto simp: opened has_book_def)
  show "ws_handled [] A (onOpen A)"
    using open_ok keep frame B C unfolding ws_handled_def by (auto simp: opened same_setup_def)
  show "wsConnected (onOpen A)" using c by (simp add: opened conn)
  show "discarded (onOpen A) s \<and> silenced (onOpen A) s \<and> s \<in> set (resyncQueue (onOpen A))" if "s \<in> set (bin_symbols A)"
    using gone [OF that] that by (auto simp: opened discarded_def silenced_def has_book_def)
qed

lemma first_open_law:
  assumes "bin_ok A" "\<not> wsConnected A"
  shows "ws_handled [] A (onOpen A)" "wsConnected (onOpen A)"
  using assms by (simp_all add: onOpen_def ws_handled_def bin_ok_def same_setup_def has_book_def is_live_def)

section \<open>The handler\<close>

lemma routeMessage_law:
  assumes "bin_ok A" "routeMessage sj A = Some (doc, s, b, m)"
  shows "sj = Some doc" "s \<in> set (bin_symbols A)" "bin_books A s = Some b" "bin_metrics A s = Some m"
  using assms(2) bin_okD(3) [OF assms(1)]
  by (auto simp: routeMessage_def split: option.splits sum.splits Option.bind_splits)

lemma activity_law: "ws_handled calls (A\<lparr>lastActivity := x\<rparr>) A' = ws_handled calls A A'"
  by (simp add: ws_handled_def same_setup_def has_book_def)

lemma bin_ok_activity [simp]: "bin_ok (A\<lparr>lastActivity := x\<rparr>) = bin_ok A"
  by (simp add: bin_ok_def has_book_def is_live_def)

lemma handle_law:
  assumes A: "bin_ok A" and safe: "ws_safe t ev"
  obtains calls A' where "handleWsMessage t ev A = Some (calls, A')" "ws_handled calls A A'"
proof -
  let ?A = "A\<lparr>lastActivity := steady t\<rparr>"
  have ok: "bin_ok ?A" using A by simp
  have "\<exists>calls A'. handleWsMessage t ev A = Some (calls, A') \<and> ws_handled calls A A'"
  proof (cases ev)
    case WsOpen
    then show ?thesis using reconnect_law(1) [OF ok] first_open_law(1) [OF ok]
      by (cases "wsConnected ?A") (auto simp: handleWsMessage_def activity_law)
  next
    case (WsMessage sj nl)
    have "\<exists>calls A'. handleMessage t sj nl ?A = Some (calls, A') \<and> ws_handled calls ?A A'"
    proof (cases "routeMessage sj ?A")
      case None
      then show ?thesis using ws_handled_refl [OF ok] by (simp add: handleMessage_def)
    next
      case (Some x)
      obtain doc s b m where x: "x = (doc, s, b, m)" by (cases x) auto
      note r = routeMessage_law [OF ok Some [unfolded x]]
      show ?thesis
      proof (cases "liveReady m")
        case True
        have "fast_safe t doc" using safe r(1) by (simp add: ws_safe_def WsMessage)
        from fast_law [OF ok r(2-4) True this] show ?thesis using True Some x by (simp add: handleMessage_def)
      next
        case False
        have "update_safe d \<and> lag_ok t d" if "Option.bind nl outerData = Some d" for d
          using safe that by (simp add: ws_safe_def WsMessage)
        from slow_law [OF ok r(2-4) this] show ?thesis using False Some x by (simp add: handleMessage_def)
      qed
    qed
    then show ?thesis by (simp add: handleWsMessage_def WsMessage activity_law)
  qed (use ws_handled_refl [OF A] in \<open>simp_all add: handleWsMessage_def\<close>)
  with that show thesis by blast
qed

end
