(* ===== verification/Binance_Run.thy ===== *)
theory Binance_Run
  imports Binance_Laws
begin

text \<open>
  Runs of the Binance adapter: the invariant of all its threads, that no symbol is ever
  forgotten, and the resync worker on its own, which comes to rest.
\<close>

section \<open>Steps\<close>

definition sys_ok :: "bin_sys \<Rightarrow> bool" where
  "sys_ok S \<longleftrightarrow> bin_ok (adp S) \<and>
     (\<forall>s k. resyncer S = Trying s k \<longrightarrow> s \<in> set (bin_symbols (adp S))) \<and>
     (\<forall>ss k ok. starting S = Fetching ss k ok \<longrightarrow> ss \<noteq> [] \<and> set ss \<subseteq> set (bin_symbols (adp S)))"

definition event_safe :: "bin_event \<Rightarrow> bool" where
  "event_safe e \<longleftrightarrow> (case e of
      Ws t ev \<Rightarrow> ws_safe t ev
    | StartFetch http _ _ \<Rightarrow> http_safe http
    | Attempt http _ \<Rightarrow> http_safe http
    | _ \<Rightarrow> True)"

text \<open>The events the threads of a state wait for.\<close>

definition enabled :: "bin_sys \<Rightarrow> bin_event \<Rightarrow> bool" where
  "enabled S e \<longleftrightarrow> (case e of
      Ws _ _ \<Rightarrow> True
    | Connect _ \<Rightarrow> starting S = NotStarted
    | StartFetch _ _ _ \<Rightarrow> (\<exists>ss k ok. starting S = Fetching ss k ok)
    | Take \<Rightarrow> resyncer S = Waiting \<and> resyncQueue (adp S) \<noteq> []
    | Attempt _ _ \<Rightarrow> (\<exists>s k. resyncer S = Trying s k)
    | Tick _ \<Rightarrow> starting S = Started True)"

lemma nextSymbol_simps [simp]:
  "nextSymbol [] ok = Started ok" "nextSymbol (s # ss) ok = Fetching (s # ss) 1 ok"
  by (simp_all add: nextSymbol_def)

text \<open>The attempts, by what \<open>fetched\<close> says.\<close>

lemma startAttempt_law:
  assumes A: "bin_ok A" and s: "s \<in> set (bin_symbols A)" and h: "http_safe http"
  obtains ok p A' where "startAttempt n http sb sa s ss k allOk A = Some (p, A')" "fetched s ok A A'"
    "p = nextSymbol ss allOk \<and> ok \<or> p = nextSymbol ss False \<or> p = Fetching (s # ss) (k + 1) allOk \<and> k \<noteq> n \<or> p = Started False"
proof -
  obtain ok A' where f: "fetchAndApplySnapshot http (binanceName (bin_normalizer A) s) s A = Some (ok, A')" "fetched s ok A A'"
    by (rule fetch_law [OF A s h])
  consider "k = 1 \<and> sb" | "\<not> (k = 1 \<and> sb)" "n < k" | "\<not> (k = 1 \<and> sb)" "\<not> n < k" by blast
  then show thesis
  proof cases
    case 1
    then show thesis by (intro that [of "Started False" A False]) (simp_all add: startAttempt_def fetched_refl [OF A])
  next
    case 2
    then show thesis by (intro that [of "nextSymbol ss False" A False]) (auto simp: startAttempt_def fetched_refl [OF A])
  next
    case 3
    then show thesis
      by (intro that [of "if ok then nextSymbol ss allOk else if sa \<or> k = n then nextSymbol ss False
          else Fetching (s # ss) (k + 1) allOk" A' ok]) (auto simp: startAttempt_def f)
  qed
qed

definition no_snapshot :: "binance \<Rightarrow> string \<Rightarrow> bin_out list" where
  "no_snapshot A s = (if has_book A s then [] else [GaveUp s])"

lemma endSymbol_law:
  assumes "bin_ok A" "s \<in> set (bin_symbols A)"
  shows "endSymbol s stop A = Some (no_snapshot A s, if stop then Stopped else Waiting)"
  using bin_okD(1) [OF assms] by (auto simp: endSymbol_def no_snapshot_def has_book_def)

lemma workerAttempt_law:
  assumes A: "bin_ok A" and s: "s \<in> set (bin_symbols A)" and h: "http_safe http"
  obtains ok out w A' where "workerAttempt n http stop s k A = Some (out, w, A')" "fetched s ok A A'"
    "out = no_snapshot A' s \<and> w = (if stop then Stopped else Waiting) \<or>
     \<not> ok \<and> out = [] \<and> (if stop then w = Stopped else w = Trying s (k + 1) \<and> k < n)"
proof (cases "n < k")
  case True
  then show thesis
    by (intro that [of "no_snapshot A s" _ A False]) (auto simp: workerAttempt_def endSymbol_law [OF A s] fetched_refl [OF A])
next
  case False
  obtain ok A' where f: "fetchAndApplySnapshot http (binanceName (bin_normalizer A) s) s A = Some (ok, A')" "fetched s ok A A'"
    by (rule fetch_law [OF A s h])
  have "bin_ok A'" "s \<in> set (bin_symbols A')" using f(2) s by (simp_all add: fetched_def same_setup_def)
  note e = endSymbol_law [OF this]
  show thesis
  proof (cases "ok \<or> \<not> stop \<and> \<not> k < n")
    case True
    with False show thesis
      by (intro that [of "no_snapshot A' s" "if stop then Stopped else Waiting" A' ok]) (auto simp: workerAttempt_def f e)
  next
    case False
    with \<open>\<not> n < k\<close> show thesis using f
      by (intro that [of "[]" "if stop then Stopped else Trying s (k + 1)" A' ok]) (auto simp: workerAttempt_def)
  qed
qed

text \<open>Every enabled event is handled.\<close>

lemma step_total:
  assumes S: "sys_ok S" and safe: "event_safe e" and en: "enabled S e"
  shows "\<exists>out S'. bin_step n S e out S'"
proof -
  have A: "bin_ok (adp S)" using S by (simp add: sys_ok_def)
  show ?thesis
  proof (cases e)
    case (Ws t ev)
    obtain calls A' where "handleWsMessage t ev (adp S) = Some (calls, A')"
      using handle_law [OF A, of t ev] safe unfolding event_safe_def Ws bin_event.case by metis
    then show ?thesis unfolding Ws by (blast intro: bin_step.ws)
  next
    case (Connect c)
    then show ?thesis using en bin_step.connect_ok bin_step.connect_fails by (fastforce simp: enabled_def)
  next
    case (StartFetch http sb sa)
    then obtain ss k ok where f: "starting S = Fetching ss k ok" using en by (auto simp: enabled_def)
    then obtain s ss' where ss: "ss = s # ss'" "s \<in> set (bin_symbols (adp S))"
      using S by (cases ss) (auto simp: sys_ok_def)
    have "http_safe http" using safe by (simp add: event_safe_def StartFetch)
    then obtain p A' where "startAttempt n http sb sa s ss' k ok (adp S) = Some (p, A')"
      using startAttempt_law [OF A ss(2), of http n sb sa ss' k ok] by metis
    moreover have "starting S = Fetching (s # ss') k ok" using f ss(1) by simp
    ultimately show ?thesis using bin_step.start_fetch [of S s ss' k ok n http sb sa p A'] bin_step.start_fails [of S s ss' k ok n http sb sa A']
      unfolding StartFetch by blast
  next
    case Take
    then show ?thesis using en bin_step.take_symbol [of S] by (cases "resyncQueue (adp S)") (auto simp: enabled_def takeSymbol_def)
  next
    case (Attempt http stop)
    then obtain s k where w: "resyncer S = Trying s k" using en by (auto simp: enabled_def)
    then have "s \<in> set (bin_symbols (adp S))" "http_safe http" using S safe by (simp_all add: sys_ok_def event_safe_def Attempt)
    then obtain out w' A' where "workerAttempt n http stop s k (adp S) = Some (out, w', A')"
      using workerAttempt_law [OF A, of s http n stop k] by metis
    with w show ?thesis unfolding Attempt by (blast intro: bin_step.attempt)
  next
    case (Tick now)
    then show ?thesis using en bin_step.tick [of S now] by (cases "watchdogTick now (lastActivity (adp S))") (auto simp: enabled_def)
  qed
qed

section \<open>No symbol is forgotten\<close>

text \<open>
  A symbol without a snapshot is awaited: it is in the queue, the worker is at it, \<open>start\<close>
  still has it to fetch, or \<open>start\<close> fails as a whole.
\<close>

definition awaited :: "bin_sys \<Rightarrow> string \<Rightarrow> bool" where
  "awaited S s \<longleftrightarrow> s \<in> set (resyncQueue (adp S)) \<or> (\<exists>k. resyncer S = Trying s k) \<or>
     (case starting S of NotStarted \<Rightarrow> True | Fetching ss _ ok \<Rightarrow> s \<in> set ss \<or> \<not> ok | Started ok \<Rightarrow> \<not> ok)"

definition remembered :: "bin_out list \<Rightarrow> bin_sys \<Rightarrow> bool" where
  "remembered out S \<longleftrightarrow> (\<forall>s \<in> set (bin_symbols (adp S)). has_book (adp S) s \<or> awaited S s \<or> GaveUp s \<in> set out)"

definition no_stop :: "bin_event \<Rightarrow> bool" where
  "no_stop e \<longleftrightarrow> (case e of StartFetch _ sb sa \<Rightarrow> \<not> sb \<and> \<not> sa | Attempt _ stop \<Rightarrow> \<not> stop | _ \<Rightarrow> True)"

definition good_calls :: "bin_sys \<Rightarrow> bin_out list \<Rightarrow> bool" where
  "good_calls S out \<longleftrightarrow> (\<forall>s ds ts. Callback s ds ts \<in> set out \<longrightarrow>
     s \<in> set (bin_symbols (adp S)) \<and> (\<forall>d \<in> set ds. d_kind d \<noteq> Backfill))"

lemma has_book_activity [simp]: "has_book (A\<lparr>lastActivity := x\<rparr>) s = has_book A s"
  by (simp add: has_book_def)

lemma fetched_has_book: "fetched s ok A A' \<Longrightarrow> has_book A x \<Longrightarrow> has_book A' x"
  "fetched s ok A A' \<Longrightarrow> ok \<Longrightarrow> has_book A' s"
  by (simp_all add: fetched_def)

lemma step_law:
  assumes S: "sys_ok S" and safe: "event_safe e" and st: "bin_step n S e out S'"
  shows "sys_ok S' \<and> same_setup (adp S) (adp S') \<and> good_calls S out \<and>
    (no_stop e \<longrightarrow> remembered out0 S \<longrightarrow> remembered (out0 @ out) S')"
  using st
proof cases
  case (ws t ev calls A)
  have "ws_safe t ev" using safe ws(1) by (simp add: event_safe_def)
  then obtain calls' A' where h: "handleWsMessage t ev (adp S) = Some (calls', A')" "ws_handled calls' (adp S) A'"
    using handle_law [of "adp S" t ev] S by (metis sys_ok_def)
  then have w: "ws_handled calls (adp S) A" using ws by simp
  then have "good_calls S out" using ws by (fastforce simp: good_calls_def ws_handled_def)
  moreover have "remembered (out0 @ out) S'" if "remembered out0 S"
    using that w unfolding remembered_def awaited_def ws by (fastforce simp: ws_handled_def same_setup_def)
  ultimately show ?thesis using S w ws by (auto simp: sys_ok_def ws_handled_def same_setup_def)
next
  case (connect_ok p closed)
  then show ?thesis using S
    by (cases "bin_symbols (adp S)")
      (auto simp: sys_ok_def remembered_def awaited_def good_calls_def connectStart_def split: if_splits)
next
  case (connect_fails closed)
  then show ?thesis using S by (auto simp: sys_ok_def remembered_def awaited_def good_calls_def)
next
  case (start_fetch s ss k allOk http sb sa p A)
  have s: "s \<in> set (bin_symbols (adp S))" "set ss \<subseteq> set (bin_symbols (adp S))" "bin_ok (adp S)" "http_safe http"
    using S safe start_fetch by (auto simp: sys_ok_def event_safe_def)
  obtain ok p' A' where f: "startAttempt n http sb sa s ss k allOk (adp S) = Some (p', A')" "fetched s ok (adp S) A'"
    "p' = nextSymbol ss allOk \<and> ok \<or> p' = nextSymbol ss False \<or> p' = Fetching (s # ss) (k + 1) allOk \<and> k \<noteq> n \<or> p' = Started False"
    by (rule startAttempt_law [OF s(3,1,4)])
  have p: "p = p'" "A = A'" using f(1) start_fetch by auto
  have fr: "bin_symbols A = bin_symbols (adp S)" "resyncQueue A = resyncQueue (adp S)" "bin_ok A" "same_setup (adp S) A"
    using f(2) p by (auto simp: fetched_def same_setup_def)
  have "sys_ok S'" using S fr f(3) s start_fetch p by (cases ss) (auto simp: sys_ok_def)
  moreover have "remembered (out0 @ out) S'" if "remembered out0 S"
    using that fetched_has_book [OF f(2)] f(3) start_fetch p fr unfolding remembered_def awaited_def
    by (cases ss) auto
  ultimately show ?thesis using start_fetch fr by (simp add: good_calls_def)
next
  case (start_fails s ss k allOk http sb sa A)
  have s: "s \<in> set (bin_symbols (adp S))" "bin_ok (adp S)" "http_safe http"
    using S safe start_fails by (auto simp: sys_ok_def event_safe_def)
  obtain ok p' A' where f: "startAttempt n http sb sa s ss k allOk (adp S) = Some (p', A')" "fetched s ok (adp S) A'"
    by (rule startAttempt_law [OF s(2,1,3)])
  then have "bin_ok A" "same_setup (adp S) A" using start_fails by (auto simp: fetched_def)
  then show ?thesis using start_fails
    by (simp add: sys_ok_def stopAdapter_def good_calls_def remembered_def awaited_def)
next
  case (take_symbol w A)
  then obtain s q where q: "resyncQueue (adp S) = s # q" "w = Trying s 1" "A = (adp S)\<lparr>resyncQueue := q\<rparr>"
    by (auto simp: takeSymbol_def split: list.splits)
  have ok: "bin_ok (adp S)" "s \<in> set (bin_symbols (adp S))" using S bin_okD(4) [of "adp S" s] q(1) by (auto simp: sys_ok_def)
  have "bin_ok A" using ok(1) q(1) by (simp add: bin_ok_def q(3) has_book_def is_live_def)
  moreover have "remembered (out0 @ out) S'" if "remembered out0 S"
    using that take_symbol q unfolding remembered_def awaited_def by (auto simp: has_book_def)
  ultimately show ?thesis using S take_symbol q ok by (simp add: sys_ok_def good_calls_def same_setup_def)
next
  case (attempt s k http stop w A)
  have s: "s \<in> set (bin_symbols (adp S))" "bin_ok (adp S)" "http_safe http"
    using S safe attempt by (auto simp: sys_ok_def event_safe_def)
  obtain ok out' w' A' where f: "workerAttempt n http stop s k (adp S) = Some (out', w', A')" "fetched s ok (adp S) A'"
    "out' = no_snapshot A' s \<and> w' = (if stop then Stopped else Waiting) \<or>
     \<not> ok \<and> out' = [] \<and> (if stop then w' = Stopped else w' = Trying s (k + 1) \<and> k < n)"
    by (rule workerAttempt_law [OF s(2,1,3)])
  have p: "out = out'" "w = w'" "A = A'" using f(1) attempt by auto
  have fr: "bin_symbols A = bin_symbols (adp S)" "resyncQueue A = resyncQueue (adp S)" "bin_ok A" "same_setup (adp S) A"
    using f(2) p by (auto simp: fetched_def same_setup_def)
  have "sys_ok S'" using S fr f(3) s attempt p by (auto simp: sys_ok_def split: if_splits)
  moreover have "remembered (out0 @ out) S'" if "remembered out0 S" "\<not> stop"
    using that fetched_has_book [OF f(2)] f(3) attempt p fr unfolding remembered_def awaited_def
    by (auto simp: no_snapshot_def)
  moreover have "good_calls S out" using f(3) p by (auto simp: good_calls_def no_snapshot_def split: if_splits)
  ultimately show ?thesis using attempt fr by (simp add: no_stop_def)
next
  case (tick now restart l)
  then show ?thesis using S by (auto simp: sys_ok_def remembered_def awaited_def good_calls_def same_setup_def)
qed

lemma run_law:
  assumes "bin_run n S es out S'" "sys_ok S" "\<forall>e \<in> set es. event_safe e"
  shows "sys_ok S' \<and> same_setup (adp S) (adp S') \<and> good_calls S out \<and>
    ((\<forall>e \<in> set es. no_stop e) \<longrightarrow> remembered out0 S \<longrightarrow> remembered (out0 @ out) S')"
  using assms
proof (induction arbitrary: out0 rule: bin_run.induct)
  case (nothing S)
  then show ?case by (simp add: good_calls_def)
next
  case (more S e out S1 es outs S2)
  have safe: "event_safe e" using more.prems(2) by simp
  note step = step_law [OF more.prems(1) safe more.hyps(1)]
  have rest: "sys_ok S2 \<and> same_setup (adp S1) (adp S2) \<and> good_calls S1 outs \<and>
     ((\<forall>e \<in> set es. no_stop e) \<longrightarrow> remembered (out0 @ out) S1 \<longrightarrow> remembered ((out0 @ out) @ outs) S2)"
    using more.IH [of "out0 @ out"] step more.prems(2) by simp
  have symbols: "bin_symbols (adp S1) = bin_symbols (adp S)" using step by (simp add: same_setup_def)
  have "good_calls S out" "good_calls S1 outs" using step rest by blast+
  then have "good_calls S (out @ outs)" unfolding good_calls_def symbols set_append by blast
  moreover have "same_setup (adp S) (adp S2)" using step rest same_setup_trans by blast
  ultimately show ?case using rest step [of out0] by simp
qed

end
