(* ===== verification/Binance_Recovery.thy ===== *)
theory Binance_Recovery
  imports Binance_Run
begin

text \<open>
  The resync worker on its own: the loop of \<open>runResyncWorker\<close> until it waits on an empty
  queue, with the REST service of each attempt. It is a total function, so the loop comes
  to rest; how many attempts it makes and what it leaves is proved of it.
\<close>

section \<open>The worker loop\<close>

lemma installSnapshot_queue: "installSnapshot j s b A = Some (ok, A') \<Longrightarrow> resyncQueue A' = resyncQueue A"
  by (auto simp: installSnapshot_def split: option.splits sum.splits bool.splits)

lemma fetch_queue: "fetchAndApplySnapshot http x s A = Some (ok, A') \<Longrightarrow> resyncQueue A' = resyncQueue A"
  by (auto simp: fetchAndApplySnapshot_def Let_def split: option.splits if_splits dest: installSnapshot_queue)

lemma workerAttempt_queue:
  assumes "workerAttempt n http stop s k A = Some (out, w, A')"
  shows "resyncQueue A' = resyncQueue A" "w = Waiting \<or> stop \<and> w = Stopped \<or> w = Trying s (k + 1) \<and> k < n"
  using assms by (auto simp: workerAttempt_def endSymbol_def split: if_splits option.splits Option.bind_splits dest: fetch_queue)

lemma takeSymbol_cases: "takeSymbol A = Some (w, A') \<longleftrightarrow> (\<exists>s q. resyncQueue A = s # q \<and> w = Trying s 1 \<and> A' = A\<lparr>resyncQueue := q\<rparr>)"
  by (auto simp: takeSymbol_def split: list.splits)

lemma takeSymbol_None: "takeSymbol A = None \<longleftrightarrow> resyncQueue A = []"
  by (simp add: takeSymbol_def split: list.splits)

text \<open>Bounds on what is left to do: attempts, and steps of the loop.\<close>

definition tries :: "int \<Rightarrow> nat" where
  "tries n = nat (max 1 n)"

fun tries_left :: "int \<Rightarrow> worker \<Rightarrow> nat" where
  "tries_left n (Trying s k) = nat (max 1 (n - k + 1))"
| "tries_left n w = 0"

fun steps_left :: "int \<Rightarrow> worker \<Rightarrow> nat" where
  "steps_left n (Trying s k) = nat (n - k) + 2"
| "steps_left n Waiting = 1"
| "steps_left n Stopped = 0"

function workerRun ::
  "int \<Rightarrow> (nat \<Rightarrow> string \<Rightarrow> http_response) \<Rightarrow> nat \<Rightarrow> worker \<Rightarrow> binance \<Rightarrow> (bin_out list \<times> nat \<times> worker \<times> binance) option" where
  "workerRun n https i Stopped A = Some ([], i, Stopped, A)"
| "workerRun n https i Waiting A =
     (case takeSymbol A of None \<Rightarrow> Some ([], i, Waiting, A) | Some (w, A') \<Rightarrow> workerRun n https i w A')"
| "workerRun n https i (Trying s k) A =
     (case workerAttempt n (https i) False s k A of
        None \<Rightarrow> None
      | Some (out, w, A') \<Rightarrow>
          map_option (\<lambda>(outs, r). (out @ outs, r)) (workerRun n https (Suc i) w A'))"
  by pat_completeness auto

termination
proof (relation "measure (\<lambda>(n, https, i, w, A). (nat n + 3) * length (resyncQueue A) + steps_left n w)", goal_cases)
  case 1
  show ?case by simp
next
  case (2 n https i A x w A')
  then show ?case by (auto simp: takeSymbol_cases)
next
  case (3 n https i s k A x out y w A')
  then have "workerAttempt n (https i) False s k A = Some (out, w, A')" by simp
  from workerAttempt_queue [OF this] show ?case by auto
qed

text \<open>The loop only ends on an empty queue, after at most \<open>maxRetries\<close> attempts per symbol.\<close>

lemma workerRun_rest:
  "workerRun n https i w A = Some (out, i', w', A') \<Longrightarrow> w \<noteq> Stopped \<Longrightarrow>
     w' = Waiting \<and> resyncQueue A' = [] \<and> i \<le> i' \<and> i' \<le> i + tries_left n w + length (resyncQueue A) * tries n"
proof (induction n https i w A arbitrary: out rule: workerRun.induct)
  case (2 n https i A)
  show ?case
  proof (cases "takeSymbol A")
    case None
    then show ?thesis using 2(2) takeSymbol_None [of A] by simp
  next
    case (Some x)
    obtain s q where q: "resyncQueue A = s # q" "x = (Trying s 1, A\<lparr>resyncQueue := q\<rparr>)"
      using Some by (cases x) (auto simp: takeSymbol_cases)
    have r: "workerRun n https i (Trying s 1) (A\<lparr>resyncQueue := q\<rparr>) = Some (out, i', w', A')"
      using 2(2) Some q by (simp del: workerRun.simps(3))
    from 2(1) [OF Some q(2) [symmetric] r] show ?thesis by (simp add: q(1) tries_def)
  qed
next
  case (3 n https i s k A)
  obtain o1 w1 A1 where w1: "workerAttempt n (https i) False s k A = Some (o1, w1, A1)"
    using 3(2) by (auto split: option.splits)
  then obtain outs where r: "workerRun n https (Suc i) w1 A1 = Some (outs, i', w', A')"
    using 3(2) by (auto split: option.splits)
  note q = workerAttempt_queue [OF w1]
  have "w1 \<noteq> Stopped" using q(2) by auto
  from 3(1) [OF w1 _ _ r this] have "w' = Waiting \<and> resyncQueue A' = [] \<and>
     Suc i \<le> i' \<and> i' \<le> Suc i + tries_left n w1 + length (resyncQueue A1) * tries n" by simp
  then show ?case using q by auto
qed simp

section \<open>What it leaves\<close>

text \<open>
  The states the worker alone reaches from \<open>A0\<close>: the buffers are those of \<open>A0\<close> or empty,
  live symbols stay live.
\<close>

definition since :: "binance \<Rightarrow> binance \<Rightarrow> bool" where
  "since A0 A \<longleftrightarrow> bin_ok A \<and> same_setup A0 A \<and>
     (\<forall>x. symbolBuffers A x = symbolBuffers A0 x \<or> symbolBuffers A x = [])"

definition good_answer :: "binance \<Rightarrow> (string \<Rightarrow> http_response) \<Rightarrow> string \<Rightarrow> bool" where
  "good_answer A http s \<longleftrightarrow> answered http (snapshotUrl (binanceName (bin_normalizer A) s) A) (symbolBuffers A s)"

lemma answered_Nil: "answered http url js \<Longrightarrow> answered http url []"
  by (auto simp: answered_def)

lemma installSnapshot_buffers:
  assumes "installSnapshot j s b A = Some (ok, A')"
  shows "symbolBuffers A' x = symbolBuffers A x \<or> symbolBuffers A' x = []" "is_live A x \<Longrightarrow> is_live A' x"
  using assms by (auto simp: installSnapshot_def is_live_def split: option.splits sum.splits bool.splits)

lemma fetch_buffers:
  assumes "fetchAndApplySnapshot http y s A = Some (ok, A')"
  shows "symbolBuffers A' x = symbolBuffers A x \<or> symbolBuffers A' x = []" "is_live A x \<Longrightarrow> is_live A' x"
  using assms installSnapshot_buffers [of _ s _ A ok A' x]
  by (auto simp: fetchAndApplySnapshot_def Let_def split: option.splits if_splits)

lemma attempt_since:
  assumes A: "since A0 A" and s: "s \<in> set (bin_symbols A0)" and h: "http_safe http"
  obtains out w A' ok where "workerAttempt n http False s k A = Some (out, w, A')" "since A0 A'"
    "resyncQueue A' = resyncQueue A" "\<forall>x. is_live A x \<longrightarrow> is_live A' x"
    "k \<le> n \<longrightarrow> good_answer A0 http s \<longrightarrow> ok" "ok \<longrightarrow> is_live A' s"
    "w = (if ok \<or> \<not> k < n then Waiting else Trying s (k + 1))"
proof (cases "n < k")
  case True
  have ok: "bin_ok A" "s \<in> set (bin_symbols A)" using A s by (simp_all add: since_def same_setup_def)
  show thesis
    using True A by (intro that [of "no_snapshot A s" Waiting A False])
      (auto simp: workerAttempt_def endSymbol_law [OF ok])
next
  case False
  have ok: "bin_ok A" "s \<in> set (bin_symbols A)" using A s by (simp_all add: since_def same_setup_def)
  obtain r A' where f: "fetchAndApplySnapshot http (binanceName (bin_normalizer A) s) s A = Some (r, A')" "fetched s r A A'"
    "r \<longleftrightarrow> answered http (snapshotUrl (binanceName (bin_normalizer A) s) A) (symbolBuffers A s)"
    by (rule fetch_exact [OF ok h])
  have same: "bin_normalizer A = bin_normalizer A0" "snapshotUrl x A = snapshotUrl x A0" for x
    using A by (simp_all add: since_def same_setup_def snapshotUrl_def)
  have buf: "symbolBuffers A s = symbolBuffers A0 s \<or> symbolBuffers A s = []" using A by (simp add: since_def)
  have good: "good_answer A0 http s \<Longrightarrow> r"
    using f(3) buf answered_Nil unfolding good_answer_def same by metis
  have A': "since A0 A'"
    using A f(2) fetch_buffers(1) [OF f(1)] same_setup_trans unfolding since_def fetched_def by metis
  have live: "r \<Longrightarrow> is_live A' s" using f(2) bin_okD(2) [OF ok] by (auto simp: fetched_def)
  have e: "endSymbol s False A' = Some (no_snapshot A' s, Waiting)"
    using f(2) ok(2) by (subst endSymbol_law) (simp_all add: fetched_def same_setup_def)
  note keep = fetch_queue [OF f(1)] fetch_buffers(2) [OF f(1)]
  show thesis
  proof (cases "r \<or> \<not> k < n")
    case True
    with False show thesis using A' keep good live
      by (intro that [of "no_snapshot A' s" Waiting A' r]) (auto simp: workerAttempt_def f(1) e)
  next
    case False
    with \<open>\<not> n < k\<close> show thesis using A' keep good live
      by (intro that [of "[]" "Trying s (k + 1)" A' r]) (auto simp: workerAttempt_def f(1))
  qed
qed

lemma take_since: "since A0 A \<Longrightarrow> resyncQueue A = s # q \<Longrightarrow> since A0 (A\<lparr>resyncQueue := q\<rparr>)"
  by (auto simp: since_def bin_ok_def same_setup_def has_book_def is_live_def)

text \<open>
  Every symbol in the queue is live at the end, when every \<open>n\<close> consecutive attempts for it
  meet at least one good answer.
\<close>

lemma workerRun_live:
  assumes "\<And>j. http_safe (https j)" and "1 \<le> n"
    and "\<And>x j. x \<in> Q \<Longrightarrow> \<exists>d < nat n. good_answer A0 (https (j + d)) x"
  shows "since A0 A \<Longrightarrow> set (resyncQueue A) \<subseteq> Q \<Longrightarrow> Q \<subseteq> set (bin_symbols A0) \<Longrightarrow> w \<noteq> Stopped \<Longrightarrow>
    (\<forall>s k. w = Trying s k \<longrightarrow> s \<in> Q \<and> (\<exists>d. int d \<le> n - k \<and> good_answer A0 (https (i + d)) s)) \<Longrightarrow>
    \<exists>out i' A'. workerRun n https i w A = Some (out, i', Waiting, A') \<and> since A0 A' \<and>
      (\<forall>x. is_live A x \<or> x \<in> set (resyncQueue A) \<or> (\<exists>k. w = Trying x k) \<longrightarrow> is_live A' x)"
proof (induction n' == n https' == https i w A rule: workerRun.induct)
  case (2 i A)
  show ?case
  proof (cases "takeSymbol A")
    case None
    then show ?thesis using 2(2) takeSymbol_None [of A] by auto
  next
    case (Some x)
    obtain s q where q: "resyncQueue A = s # q" "x = (Trying s 1, A\<lparr>resyncQueue := q\<rparr>)"
      using Some by (cases x) (auto simp: takeSymbol_cases)
    obtain d where "d < nat n" "good_answer A0 (https (i + d)) s" using assms(3) [of s i] 2 q(1) by auto
    then have pre: "\<forall>s' k'. Trying s 1 = Trying s' k' \<longrightarrow> s' \<in> Q \<and> (\<exists>d. int d \<le> n - k' \<and> good_answer A0 (https (i + d)) s')"
      using 2(3) q(1) by (auto intro!: exI [of _ d])
    define A1 where "A1 = A\<lparr>resyncQueue := q\<rparr>"
    have A1: "since A0 A1" "set (resyncQueue A1) \<subseteq> Q" "is_live A1 x = is_live A x" for x
      using take_since [OF 2(2) q(1)] 2(3) q(1) by (simp_all add: A1_def is_live_def)
    have x: "(Trying s 1, A1) = x" by (simp add: q(2) A1_def)
    from 2(1) [OF Some x A1(1,2) 2(4) _ pre]
    obtain out i' A' where r: "workerRun n https i (Trying s 1) A1 = Some (out, i', Waiting, A')" "since A0 A'"
      "\<forall>x. is_live A x \<or> x \<in> set q \<or> x = s \<longrightarrow> is_live A' x"
      by (simp add: A1(3) del: workerRun.simps(3)) (auto simp: A1_def)
    then show ?thesis using Some by (simp add: q A1_def del: workerRun.simps(3))
  qed
next
  case (3 i s k A)
  have s: "s \<in> Q" and "\<exists>d. int d \<le> n - k \<and> good_answer A0 (https (i + d)) s" using 3(6) by simp_all
  then obtain d where d: "int d \<le> n - k" "good_answer A0 (https (i + d)) s" by blast
  have sym: "s \<in> set (bin_symbols A0)" using s 3(4) by blast
  obtain o1 w1 A1 r where a: "workerAttempt n (https i) False s k A = Some (o1, w1, A1)" "since A0 A1"
    "resyncQueue A1 = resyncQueue A" "\<forall>x. is_live A x \<longrightarrow> is_live A1 x"
    "k \<le> n \<longrightarrow> good_answer A0 (https i) s \<longrightarrow> r" "r \<longrightarrow> is_live A1 s"
    "w1 = (if r \<or> \<not> k < n then Waiting else Trying s (k + 1))"
    by (rule attempt_since [OF 3(2) sym assms(1) [of i], of n k])
  have next_ok: "\<forall>s' k'. w1 = Trying s' k' \<longrightarrow> s' \<in> Q \<and> (\<exists>d. int d \<le> n - k' \<and> good_answer A0 (https (Suc i + d)) s')"
  proof (cases "w1 = Waiting")
    case False
    with a(7) have w1: "w1 = Trying s (k + 1)" "k < n" "\<not> r" by (auto split: if_splits)
    have "d \<noteq> 0"
    proof
      assume "d = 0"
      then show False using w1 a(5) d by simp
    qed
    then obtain d' where "d = Suc d'" by (cases d) auto
    with d s show ?thesis unfolding w1(1) by (auto intro!: exI [of _ d'])
  qed simp
  have "w1 \<noteq> Stopped" using a(7) by (auto split: if_splits)
  moreover have "set (resyncQueue A1) \<subseteq> Q" using 3(3) a(3) by simp
  ultimately obtain out i' A' where r: "workerRun n https (Suc i) w1 A1 = Some (out, i', Waiting, A')" "since A0 A'"
    "\<forall>x. is_live A1 x \<or> x \<in> set (resyncQueue A1) \<or> (\<exists>k. w1 = Trying x k) \<longrightarrow> is_live A' x"
    using 3(1) [OF a(1) refl refl a(2) _ 3(4) _ next_ok] by blast
  have settled: "is_live A1 s \<or> w1 = Trying s (k + 1)"
  proof (cases "r \<or> k < n")
    case False
    then have "int d = 0" "k \<le> n" using d(1) by linarith+
    with a(5) d(2) False show ?thesis by simp
  qed (use a(6,7) in auto)
  then show ?case using a r by auto
qed simp

text \<open>With any answers that do no harm the loop runs to its end without a fault.\<close>

lemma workerRun_total:
  assumes "\<And>j. http_safe (https j)"
  shows "since A0 A \<Longrightarrow> set (resyncQueue A) \<subseteq> set (bin_symbols A0) \<Longrightarrow> (\<forall>s k. w = Trying s k \<longrightarrow> s \<in> set (bin_symbols A0)) \<Longrightarrow>
    \<exists>out i' w' A'. workerRun n https i w A = Some (out, i', w', A') \<and> since A0 A'"
proof (induction n' == n https' == https i w A rule: workerRun.induct)
  case (2 i A)
  show ?case
  proof (cases "takeSymbol A")
    case (Some x)
    obtain s q where q: "resyncQueue A = s # q" "x = (Trying s 1, A\<lparr>resyncQueue := q\<rparr>)"
      using Some by (cases x) (auto simp: takeSymbol_cases)
    from 2(1) [OF Some q(2) [symmetric] take_since [OF 2(2) q(1)]] 2(3) q(1)
    have "\<exists>out i' w' A'. workerRun n https i (Trying s 1) (A\<lparr>resyncQueue := q\<rparr>) = Some (out, i', w', A') \<and> since A0 A'"
      by (simp del: workerRun.simps(3))
    then show ?thesis using Some by (simp add: q del: workerRun.simps(3))
  qed (use 2(2) in simp)
next
  case (3 i s k A)
  have s: "s \<in> set (bin_symbols A0)" using 3(4) by simp
  obtain o1 w1 A1 r where a: "workerAttempt n (https i) False s k A = Some (o1, w1, A1)" "since A0 A1"
    "resyncQueue A1 = resyncQueue A" "\<forall>x. is_live A x \<longrightarrow> is_live A1 x"
    "k \<le> n \<longrightarrow> good_answer A0 (https i) s \<longrightarrow> r" "r \<longrightarrow> is_live A1 s"
    "w1 = (if r \<or> \<not> k < n then Waiting else Trying s (k + 1))"
    by (rule attempt_since [OF 3(2) s assms(1) [of i], of n k])
  have "set (resyncQueue A1) \<subseteq> set (bin_symbols A0)" "\<forall>s' k'. w1 = Trying s' k' \<longrightarrow> s' \<in> set (bin_symbols A0)"
    using 3(3) a(3,7) s by (auto split: if_splits)
  from 3(1) [OF a(1) refl refl a(2) this] show ?case using a(1) by auto
qed simp

lemma since_refl: "bin_ok A \<Longrightarrow> since A A"
  by (simp add: since_def)

end
