(* ===== verification/Binance_Start.thy ===== *)
theory Binance_Start
  imports Binance_Recovery
begin

text \<open>
  What \<open>start\<close> of the Binance adapter sets up: the invariant, and the way from the streams
  it subscribes to back to the symbols.
\<close>

section \<open>Registration\<close>

lemma registerSymbols_ok:
  "registerSymbols N bs ms cs M = (True, M') \<Longrightarrow>
     (\<forall>c \<in> set cs. c \<in> dom bs \<and> c \<in> dom ms) \<and> M' = M ++ map_of (rev (map (\<lambda>c. (binanceName N c, c)) cs))"
proof (induction N bs ms cs M rule: registerSymbols.induct)
  case (2 N bs ms c cs M)
  then have ok: "bs c \<noteq> None" "ms c \<noteq> None" "registerSymbols N bs ms cs (M(binanceName N c \<mapsto> c)) = (True, M')"
    by (auto split: if_splits)
  then have "\<not> (bs c = None \<or> ms c = None)" by simp
  from 2(1) [OF this ok(3)] have "(\<forall>c \<in> set cs. c \<in> dom bs \<and> c \<in> dom ms) \<and>
      M' = M(binanceName N c \<mapsto> c) ++ map_of (rev (map (\<lambda>c. (binanceName N c, c)) cs))"
    unfolding fun_upd_def .
  with ok(1,2) show ?case by (auto simp: domIff)
qed simp

lemma registerSymbols_ran: "registerSymbols N bs ms cs Map.empty = (True, M') \<Longrightarrow> ran M' \<subseteq> set cs"
proof -
  assume "registerSymbols N bs ms cs Map.empty = (True, M')"
  then have M': "M' = map_of (rev (map (\<lambda>c. (binanceName N c, c)) cs))"
    using registerSymbols_ok [of N bs ms cs Map.empty M'] by simp
  have "ran (map_of xs) \<subseteq> snd ` set xs" for xs :: "(string \<times> string) list"
    by (force simp: ran_def dest: map_of_SomeD)
  from this [of "rev (map (\<lambda>c. (binanceName N c, c)) cs)"] show "ran M' \<subseteq> set cs" unfolding M' by auto
qed

lemma registerSymbols_get:
  assumes "registerSymbols N bs ms cs Map.empty = (True, M')" "distinct (map (binanceName N) cs)" "c \<in> set cs"
  shows "M' (binanceName N c) = Some c"
proof -
  let ?xs = "rev (map (\<lambda>c. (binanceName N c, c)) cs)"
  have M': "M' = map_of ?xs" using registerSymbols_ok [OF assms(1)] by simp
  have "distinct (map fst ?xs)" using assms(2) by (simp add: rev_map [symmetric] comp_def)
  then show ?thesis unfolding M' using assms(3) by (intro map_of_is_SomeI) auto
qed

section \<open>The invariant\<close>

lemma startMetrics_fold:
  "dom (foldl startMetrics ms ss) = dom ms \<and>
   (\<forall>s m. foldl startMetrics ms ss s = Some m \<longrightarrow>
      (\<exists>m0. ms s = Some m0 \<and> processingBuckets m = processingBuckets m0) \<and> (s \<in> set ss \<longrightarrow> \<not> liveReady m \<and> lastUpdateTimeMs m = 0))"
proof (induction ss rule: rev_induct)
  case (snoc s ss)
  let ?M = "foldl startMetrics ms ss"
  have 1: "dom (startMetrics ?M s) = dom ?M" by (auto simp: startMetrics_def split: option.splits)
  have 2: "\<exists>m'. ?M x = Some m' \<and> processingBuckets m = processingBuckets m' \<and>
      (x = s \<longrightarrow> \<not> liveReady m \<and> lastUpdateTimeMs m = 0) \<and> (x \<noteq> s \<longrightarrow> m = m')" if "startMetrics ?M s x = Some m" for x m
    using that by (auto simp: startMetrics_def split: option.splits if_splits)
  show ?case using snoc 1 2 by (simp; metis)
qed simp

text \<open>Books, metrics and a queue as \<open>main\<close> passes them to the first \<open>start\<close>.\<close>

definition fresh :: "string list \<Rightarrow> (string \<rightharpoonup> orderbook) \<Rightarrow> (string \<rightharpoonup> metrics) \<Rightarrow> binance \<Rightarrow> bool" where
  "fresh symbols bs ms A \<longleftrightarrow> resyncQueue A = [] \<and> (\<forall>b \<in> ran bs. book_small b) \<and>
     (\<forall>m \<in> ran ms. length (processingBuckets m) = 11) \<and> dom ms \<subseteq> set symbols"

lemma start_law:
  assumes p: "prepareStart symbols bs ms depth A = (True, A')" and f: "fresh symbols bs ms A"
  shows "sys_ok (prepared A')" "bin_symbols A' = symbols" "bin_normalizer A' = bin_normalizer A" "remembered [] (prepared A')"
    "\<And>s. \<not> has_book A' s" "\<And>s. \<not> is_live A' s"
proof -
  have q: "resyncQueue A = []" using f by (simp add: fresh_def)
  have bs: "book_small b" if "bs s = Some b" for s b using f that by (auto simp: fresh_def intro: ranI)
  have ms: "length (processingBuckets m) = 11 \<and> s \<in> set symbols" if "ms s = Some m" for s m
    using f that by (auto simp: fresh_def intro: ranI)
  obtain M where reg: "registerSymbols (bin_normalizer A) bs ms symbols Map.empty = (True, M)"
    and A': "A' = A\<lparr>bin_canonical := M, bin_books := map_option book_clear \<circ> bs, bin_metrics := foldl startMetrics ms symbols,
       bin_depth := depth, bin_symbols := symbols, lastActivity := 0, symbolBuffers := (\<lambda>_. []), wsConnected := False\<rparr>"
    using p by (auto simp: prepareStart_def Let_def split: prod.splits if_splits)
  note reg' = registerSymbols_ok [OF reg] registerSymbols_ran [OF reg]
  note M = startMetrics_fold [of ms symbols]
  have clear: "book_ok (book_clear b)" if "book_small b" for b
    using book_clear_small [OF that] by (simp add: book_ok_def) (simp add: book_clear_def in_ll_def int_limits)
  show nobook: "\<not> has_book A' s" for s by (auto simp: has_book_def A' book_clear_def)
  show nolive: "\<not> is_live A' s" for s using M ms by (fastforce simp: is_live_def A')
  have "books_ok A'"
    using bs clear M ms unfolding books_ok_def A' by (fastforce simp: A')
  moreover have "\<forall>s \<in> set symbols. s \<in> dom (bin_books A') \<and> s \<in> dom (bin_metrics A')"
    using reg'(1) M by (auto simp: A' dom_def)
  ultimately have "bin_ok A'" using reg'(2) q nolive unfolding bin_ok_parts by (simp add: A')
  then show "sys_ok (prepared A')" by (simp add: sys_ok_def prepared_def)
  show "bin_symbols A' = symbols" "bin_normalizer A' = bin_normalizer A" by (simp_all add: A')
  show "remembered [] (prepared A')" by (simp add: remembered_def awaited_def prepared_def)
qed

section \<open>Stream names\<close>

lemma to_lower_upper_case:
  assumes "65 \<le> (of_char c :: nat)" "of_char c \<le> (90 :: nat)"
  shows "of_char (to_lower c) = (of_char c + 32 :: nat)"
  using assms by (simp add: to_lower_def Let_def)

lemma to_lower_other: "\<not> (65 \<le> (of_char c :: nat) \<and> of_char c \<le> (90 :: nat)) \<Longrightarrow> to_lower c = c"
  by (auto simp: to_lower_def Let_def)

lemma to_upper_lower: "to_upper (to_lower c) = to_upper c"
proof (cases "65 \<le> (of_char c :: nat) \<and> of_char c \<le> (90 :: nat)")
  case True
  then have "to_upper (to_lower c) = char_of (of_char c :: nat)" "to_upper c = c"
    by (simp_all add: to_upper_def to_lower_upper_case Let_def)
  then show ?thesis by simp
qed (simp add: to_lower_other)

lemma to_lower_at: "to_lower c = CHR ''@'' \<longleftrightarrow> c = CHR ''@''"
proof (cases "65 \<le> (of_char c :: nat) \<and> of_char c \<le> (90 :: nat)")
  case True
  have at: "of_char (CHR ''@'') = (64 :: nat)" by simp
  have "(of_char (to_lower c) :: nat) \<noteq> 64" using True by (simp add: to_lower_upper_case)
  then have "to_lower c \<noteq> CHR ''@''" using at by metis
  moreover have "c \<noteq> CHR ''@''" using True at by auto
  ultimately show ?thesis by simp
qed (simp add: to_lower_other)

lemma streamToSymbol_name:
  assumes "CHR ''@'' \<notin> set name"
  shows "streamToSymbol (map to_lower name @ ''@depth@'' @ rest) = map to_upper name"
proof -
  have "takeWhile (\<lambda>c. c \<noteq> CHR ''@'') (map to_lower name @ CHR ''@'' # r) = map to_lower name" for r
    using assms by (subst takeWhile_append2) (auto simp: to_lower_at)
  then show ?thesis by (simp add: streamToSymbol_def to_upper_lower)
qed

section \<open>The two ways to read an update\<close>

lemma sjLevel_pair: "sjLevel (JArray [JString p, JString q]) = bind_exn (parseLevel (p, q)) (\<lambda>l. Inr [l])"
  by (cases "parseDecimal p"; cases "parseDecimal q") (simp_all add: sjLevel_def sjArray_def sjString_def parseLevel_def)

lemma map_exn_singletons:
  "map_exn (\<lambda>x. bind_exn (f x) (\<lambda>l. Inr [l])) xs = bind_exn (map_exn f xs) (\<lambda>ls. Inr (map (\<lambda>l. [l]) ls))"
proof (induction xs)
  case (Cons x xs)
  then show ?case by (cases "f x"; cases "map_exn f xs") simp_all
qed simp

lemma map_exn_comp: "map_exn f (map g xs) = map_exn (\<lambda>x. f (g x)) xs"
  by (induction xs) simp_all

lemma sjLevels_pairs: "sjLevels (levelsJson ls) = map_exn parseLevel ls"
proof -
  have "map_exn sjLevel (map (\<lambda>(p, q). JArray [JString p, JString q]) ls)
      = map_exn (\<lambda>x. bind_exn (parseLevel x) (\<lambda>l. Inr [l])) ls"
    unfolding map_exn_comp by (rule arg_cong [of _ _ "\<lambda>f. map_exn f ls"]) (auto simp: fun_eq_iff sjLevel_pair)
  then show ?thesis
    by (cases "map_exn parseLevel ls") (simp_all add: sjLevels_def levelsJson_def sjArray_def map_exn_singletons comp_def)
qed

text \<open>A message of the combined stream.\<close>

definition streamMessage :: "string \<Rightarrow> int \<Rightarrow> update_msg \<Rightarrow> json" where
  "streamMessage stream e msg = JObject [(''stream'', JString stream), (''data'', updateJson e msg)]"

lemma sjUpdate_message:
  assumes "in_ll e" "in_ll (m_U msg)" "in_ll (m_u msg)"
    and "map_exn parseLevel (m_a msg) = Inr asks" "map_exn parseLevel (m_b msg) = Inr bids"
  shows "sjUpdate (streamMessage stream e msg) = Inr (e, m_U msg, m_u msg, asks, bids)"
  using assms by (simp add: sjUpdate_def streamMessage_def updateJson_def sjField_def json_access sjInt64_def sjLevels_pairs)

lemma outerData_message: "outerData (streamMessage stream e msg) = Some (updateJson e msg)"
  by (simp add: outerData_def streamMessage_def)

lemma paths_same:
  assumes ids: "in_ll e" "in_ll (m_U msg)" "in_ll (m_u msg)"
    and texts: "map_exn parseLevel (m_a msg) = Inr asks" "map_exn parseLevel (m_b msg) = Inr bids"
    and b: "snapshotApplied b"
  shows "slowPath t s b m (Some (streamMessage stream e msg)) A
    = fastPath t s b (m\<lparr>liveReady := True\<rparr>) (streamMessage stream e msg) (putMetrics s (m\<lparr>liveReady := True\<rparr>) A)"
proof -
  have E: "bind_res (const_at (updateJson e msg) ''E'') get_ll = Some (Inr e)"
    using ids(1) by (simp add: updateJson_def json_access wrap64_id ret_def)
  have u: "applyUpdateJson b (updateJson e msg) Genuine
      = map_option Inr (applyUpdateCore b (m_U msg) (m_u msg) asks bids Genuine)"
    using applyUpdateJson_msg [OF ids(2,3)] texts by (simp add: applyUpdate_def map_conv_bind_option comp_def)
  show ?thesis
    using b by (auto simp: slowPath_def outerData_message firstLiveUpdate_def Let_def E u fastPath_def
        sjUpdate_message [OF ids texts] ll_def split: Option.bind_split option.split)
qed

end
