(* ===== verification/Timestamps.thy ===== *)
theory Timestamps
  imports Decimal
begin

text \<open>
  \<open>isoTimestampToMs\<close> of \<open>src/kraken_utils.hpp\<close>: \<open>sscanf\<close> and \<open>timegm\<close> of the C library, and
  what a timestamp means: the days counted one by one through the calendar.
\<close>

section \<open>Scanning\<close>

text \<open>The items of a \<open>sscanf\<close> format: an integer with an optional width, a character.\<close>

datatype scan_item =
    ScanInt "nat option"
  | ScanChar char

definition is_blank :: "char \<Rightarrow> bool" where
  "is_blank c \<longleftrightarrow> c \<in> {CHR '' '', CHR 0x09, CHR 0x0A, CHR 0x0B, CHR 0x0C, CHR 0x0D}"

text \<open>A decimal integer of at most \<open>w\<close> characters, its sign included, after blanks.\<close>

definition scanInt :: "nat option \<Rightarrow> string \<Rightarrow> (int \<times> string) option" where
  "scanInt w s =
     (let s1 = dropWhile is_blank s;
          field = (case w of None \<Rightarrow> s1 | Some n \<Rightarrow> take n s1);
          sgn = (if take 1 field = ''-'' \<or> take 1 field = ''+'' then 1 else 0);
          ds = takeWhile is_digit (drop sgn field);
          v = digits_value ds
      in if ds = [] then None
         else Some (if take 1 field = ''-'' then - v else v, drop (sgn + length ds) s1))"

text \<open>
  The values assigned until the text stops matching; a value that is no \<open>int\<close> has no
  defined outcome.
\<close>

fun sscanf :: "scan_item list \<Rightarrow> string \<Rightarrow> int list option" where
  "sscanf [] s = Some []"
| "sscanf (ScanChar c # fs) s = (case s of [] \<Rightarrow> Some [] | x # s' \<Rightarrow> if x = c then sscanf fs s' else Some [])"
| "sscanf (ScanInt w # fs) s =
     (case scanInt w s of
        None \<Rightarrow> Some []
      | Some (v, s') \<Rightarrow>
          if v < - 2147483648 \<or> INT_MAX < v then None
          else do { vs \<leftarrow> sscanf fs s'; Some (v # vs) })"

definition isoFormat :: "scan_item list" where
  "isoFormat = [ScanInt (Some 4), ScanChar (CHR ''-''), ScanInt (Some 2), ScanChar (CHR ''-''), ScanInt (Some 2),
     ScanChar (CHR ''T''), ScanInt (Some 2), ScanChar (CHR '':''), ScanInt (Some 2), ScanChar (CHR '':''),
     ScanInt (Some 2), ScanChar (CHR ''.''), ScanInt None, ScanChar (CHR ''Z'')]"

section \<open>The calendar\<close>

definition leap :: "int \<Rightarrow> bool" where
  "leap y \<longleftrightarrow> 4 dvd y \<and> (\<not> 100 dvd y \<or> 400 dvd y)"

text \<open>The days before a year (from year 1), before a month (0 to 11), and since 1970.\<close>

definition yearDays :: "int \<Rightarrow> int" where
  "yearDays y = 365 * (y - 1) + (y - 1) div 4 - (y - 1) div 100 + (y - 1) div 400"

definition monthDays :: "int \<Rightarrow> int \<Rightarrow> int" where
  "monthDays y m = [0, 31, 59, 90, 120, 151, 181, 212, 243, 273, 304, 334] ! nat m + (if leap y \<and> 2 \<le> m then 1 else 0)"

definition epochDays :: "int \<Rightarrow> int \<Rightarrow> int \<Rightarrow> int" where
  "epochDays y m d = yearDays y + monthDays y m + d - 1 - 719162"

text \<open>\<open>timegm\<close>: every field may be out of its range.\<close>

definition timegm :: "int \<Rightarrow> int \<Rightarrow> int \<Rightarrow> int \<Rightarrow> int \<Rightarrow> int \<Rightarrow> int" where
  "timegm tm_year tm_mon tm_mday tm_hour tm_min tm_sec =
     ((epochDays (tm_year + 1900 + tm_mon div 12) (tm_mon mod 12) tm_mday * 24 + tm_hour) * 60 + tm_min) * 60 + tm_sec"

text \<open>The fields start at 0; those that were not assigned keep it.\<close>

definition isoTimestampToMs :: "string \<Rightarrow> int option" where
  "isoTimestampToMs stamp =
     (if length stamp < 19 then Some 0
      else do {
        vs \<leftarrow> sscanf isoFormat (takeWhile (\<lambda>c. c \<noteq> CHR 0x00) stamp);
        let f = vs @ replicate (7 - length vs) 0;
        let t = timegm (f ! 0 - 1900) (f ! 1 - 1) (f ! 2) (f ! 3) (f ! 4) (f ! 5);
        Some (if t = - 1 then 0 else t * 1000 + (f ! 6) sdiv 1000)
      })"

section \<open>Counting days\<close>

definition month_length :: "int \<Rightarrow> int \<Rightarrow> int" where
  "month_length y m = (if m = 2 then (if leap y then 29 else 28) else if m \<in> {4, 6, 9, 11} then 30 else 31)"

text \<open>A date, with months and days from 1, and the day after it.\<close>

fun next_day :: "int \<times> int \<times> int \<Rightarrow> int \<times> int \<times> int" where
  "next_day (y, m, d) =
     (if d < month_length y m then (y, m, d + 1) else if m < 12 then (y, m + 1, 1) else (y + 1, 1, 1))"

definition valid_date :: "int \<times> int \<times> int \<Rightarrow> bool" where
  "valid_date = (\<lambda>(y, m, d). 1 \<le> m \<and> m \<le> 12 \<and> 1 \<le> d \<and> d \<le> month_length y m)"

lemma div_step: "0 < (n::int) \<Longrightarrow> (y + 1) div n = y div n + (if n dvd y + 1 then 1 else 0)"
proof -
  assume n: "0 < n"
  have b: "0 \<le> y mod n" "y mod n < n" using n by simp_all
  show ?thesis
  proof (cases "y mod n = n - 1")
    case True
    then have "y div n * n = y - (n - 1)" using minus_mod_eq_div_mult [of y n] by simp
    then have "y + 1 = (y div n + 1) * n" by (simp add: distrib_right)
    then show ?thesis using n by simp
  next
    case False
    have y: "y + 1 = n * (y div n) + (y mod n + 1)" by simp
    have r: "0 \<le> y mod n + 1" "y mod n + 1 < n" using False b by simp_all
    have "(y + 1) div n = y div n" by (rule int_div_pos_eq [OF y r])
    moreover have "(y + 1) mod n = y mod n + 1" by (rule int_mod_pos_eq [OF y r])
    ultimately show ?thesis using b by (auto simp: dvd_eq_mod_eq_0)
  qed
qed

lemma yearDays_step: "yearDays (y + 1) = yearDays y + (if leap y then 366 else 365)"
proof -
  have d: "(400::int) dvd y \<Longrightarrow> 100 dvd y" "(100::int) dvd y \<Longrightarrow> 4 dvd y"
    by (erule dvd_trans [rotated], simp)+
  have "(y - 1 + 1) div 4 = (y - 1) div 4 + (if 4 dvd y - 1 + 1 then 1 else 0)"
    "(y - 1 + 1) div 100 = (y - 1) div 100 + (if 100 dvd y - 1 + 1 then 1 else 0)"
    "(y - 1 + 1) div 400 = (y - 1) div 400 + (if 400 dvd y - 1 + 1 then 1 else 0)"
    by (rule div_step, simp)+
  then have "yearDays (y + 1) = yearDays y + 365 + (if 4 dvd y then 1 else 0) - (if 100 dvd y then 1 else 0) + (if 400 dvd y then 1 else 0)"
    unfolding yearDays_def diff_add_cancel add_diff_cancel_right' by (simp only: right_diff_distrib)
  then show ?thesis using d unfolding leap_def by (cases "400 dvd y"; cases "100 dvd y"; cases "4 dvd y") simp_all
qed

lemma monthDays_step:
  assumes "1 \<le> m" "m < 12"
  shows "monthDays y m = monthDays y (m - 1) + month_length y m"
proof -
  have "m = 1 \<or> m = 2 \<or> m = 3 \<or> m = 4 \<or> m = 5 \<or> m = 6 \<or> m = 7 \<or> m = 8 \<or> m = 9 \<or> m = 10 \<or> m = 11"
    using assms by presburger
  then show ?thesis by (elim disjE) (simp_all add: monthDays_def month_length_def)
qed

lemma next_day_epoch:
  assumes "valid_date (y, m, d)" "next_day (y, m, d) = (y', m', d')"
  shows "valid_date (y', m', d') \<and> epochDays y' (m' - 1) d' = epochDays y (m - 1) d + 1"
proof (cases "d < month_length y m")
  case True
  then show ?thesis using assms by (auto simp: valid_date_def epochDays_def)
next
  case False
  then have d: "d = month_length y m" "1 \<le> m" using assms(1) by (simp_all add: valid_date_def)
  show ?thesis
  proof (cases "m < 12")
    case True
    then have "y' = y" "m' = m + 1" "d' = 1" using assms(2) False by simp_all
    moreover have "1 \<le> month_length y (m + 1)" by (simp add: month_length_def)
    ultimately show ?thesis using monthDays_step [OF d(2) True, of y] d True by (simp add: valid_date_def epochDays_def)
  next
    case False
    then have m: "m = 12" using assms(1) by (simp add: valid_date_def)
    then have "y' = y + 1" "m' = 1" "d' = 1" using assms(2) d by simp_all
    then show ?thesis using yearDays_step [of y] d m
      by (simp add: valid_date_def epochDays_def monthDays_def month_length_def)
  qed
qed

lemma days_since_epoch:
  "(next_day ^^ n) (1970, 1, 1) = (y, m, d) \<Longrightarrow> valid_date (y, m, d) \<and> epochDays y (m - 1) d = int n"
proof (induction n arbitrary: y m d)
  case 0
  then show ?case by (auto simp: valid_date_def month_length_def epochDays_def yearDays_def monthDays_def)
next
  case (Suc n)
  obtain a where a: "(next_day ^^ n) (1970, 1, 1) = a" "next_day a = (y, m, d)" using Suc.prems by simp
  obtain y0 m0 d0 where e: "a = (y0, m0, d0)" by (cases a)
  have "valid_date (y0, m0, d0)" "epochDays y0 (m0 - 1) d0 = int n" using Suc.IH a(1) e by simp_all
  then show ?case using next_day_epoch a(2) e by simp
qed

section \<open>Timestamps as text\<close>

text \<open>A number in at least \<open>k\<close> digits, and the text of a moment.\<close>

definition padded :: "nat \<Rightarrow> nat \<Rightarrow> string" where
  "padded k n = replicate (k - length (to_string n)) (CHR ''0'') @ to_string n"

definition isoText :: "nat \<Rightarrow> nat \<Rightarrow> nat \<Rightarrow> nat \<Rightarrow> nat \<Rightarrow> nat \<Rightarrow> nat \<Rightarrow> string" where
  "isoText y m d h mi s us =
     padded 4 y @ ''-'' @ padded 2 m @ ''-'' @ padded 2 d @ ''T'' @ padded 2 h @ '':'' @ padded 2 mi @ '':'' @
     padded 2 s @ ''.'' @ padded 6 us @ ''Z''"

lemma padded_digits: "all_digits (padded k n)" "digits_value (padded k n) = int n" "padded k n \<noteq> []"
  by (simp_all add: padded_def to_string_digits digits_value_append)

lemma padded_length: "n < 10 ^ k \<Longrightarrow> 0 < k \<Longrightarrow> length (padded k n) = k"
  using to_string_length [of n k] by (simp add: padded_def)

lemma digit_not_special: "is_digit c \<Longrightarrow> \<not> is_blank c \<and> c \<noteq> CHR ''-'' \<and> c \<noteq> CHR ''+'' \<and> c \<noteq> CHR 0x00"
  by (auto simp: is_digit_def is_blank_def)

lemma scanInt_digits:
  assumes ds: "all_digits ds" "ds \<noteq> []" and w: "w = None \<or> w = Some (length ds)" and rest: "rest = [] \<or> \<not> is_digit (hd rest)"
  shows "scanInt w (ds @ rest) = Some (digits_value ds, rest)"
proof -
  obtain c cs where c: "ds = c # cs" using ds(2) by (cases ds) auto
  then have dig: "is_digit c" using ds(1) by simp
  note sp = digit_not_special [OF dig]
  have "takeWhile is_digit (ds @ rest) = ds"
    using ds(1) rest takeWhile_all_digits [of ds] by (cases rest) (simp_all add: takeWhile_append all_digits_def list_all_iff)
  moreover have "takeWhile is_digit ds = ds" using ds(1) takeWhile_all_digits by blast
  ultimately have "takeWhile is_digit (case w of None \<Rightarrow> ds @ rest | Some n \<Rightarrow> take n (ds @ rest)) = ds" using w by auto
  moreover have "take 1 (case w of None \<Rightarrow> ds @ rest | Some n \<Rightarrow> take n (ds @ rest)) = [c]" using w c by auto
  moreover have "dropWhile is_blank (ds @ rest) = ds @ rest" using sp by (simp add: c)
  ultimately show ?thesis using sp ds(2) by (simp add: scanInt_def Let_def)
qed

lemma sscanf_padded:
  assumes "w = None \<or> w = Some k" "n < 10 ^ k" "0 < k" "int n \<le> INT_MAX" "rest = [] \<or> \<not> is_digit (hd rest)"
  shows "sscanf (ScanInt w # fs) (padded k n @ rest) = do { vs \<leftarrow> sscanf fs rest; Some (int n # vs) }"
proof -
  have "w = None \<or> w = Some (length (padded k n))" using assms(1) padded_length [OF assms(2,3)] by auto
  then have "scanInt w (padded k n @ rest) = Some (int n, rest)"
    using scanInt_digits [OF padded_digits(1,3) _ assms(5)] by (simp add: padded_digits)
  moreover have "\<not> int n < - 2147483648" by simp
  ultimately show ?thesis using assms(4) by simp
qed

lemma separators: "\<not> is_digit (CHR ''T'')" "\<not> is_digit (CHR '':'')" "\<not> is_digit (CHR ''Z'')"
  by (simp_all add: is_digit_def)

lemma sscanf_isoText:
  assumes "y < 10 ^ 4" "m < 10 ^ 2" "d < 10 ^ 2" "h < 10 ^ 2" "mi < 10 ^ 2" "s < 10 ^ 2" "us < 10 ^ 6"
  shows "sscanf isoFormat (isoText y m d h mi s us) = Some [int y, int m, int d, int h, int mi, int s, int us]"
  using assms by (simp add: isoFormat_def isoText_def sscanf_padded separators int_limits del: sscanf.simps(3))

lemma isoTimestampToMs_text:
  assumes "y < 10 ^ 4" "m < 10 ^ 2" "d < 10 ^ 2" "h < 10 ^ 2" "mi < 10 ^ 2" "s < 10 ^ 2" "us < 10 ^ 6"
    "1 \<le> m" "m \<le> 12" "0 \<le> epochDays (int y) (int m - 1) (int d)"
  shows "isoTimestampToMs (isoText y m d h mi s us) =
    Some ((((epochDays (int y) (int m - 1) (int d) * 24 + int h) * 60 + int mi) * 60 + int s) * 1000 + int us div 1000)"
proof -
  have len: "\<not> length (isoText y m d h mi s us) < 19"
    using assms(1-7) by (simp add: isoText_def padded_length)
  have "\<forall>c \<in> set (padded k n). c \<noteq> CHR 0x00" for k n
    using padded_digits(1) [of k n] digit_not_special by (auto simp: all_digits_def list_all_iff)
  then have nul: "takeWhile (\<lambda>c. c \<noteq> CHR 0x00) (isoText y m d h mi s us) = isoText y m d h mi s us"
    unfolding isoText_def takeWhile_eq_all_conv by (simp add: ball_Un)
  let ?t = "timegm (int y - 1900) (int m - 1) (int d) (int h) (int mi) (int s)"
  have t: "?t = ((epochDays (int y) (int m - 1) (int d) * 24 + int h) * 60 + int mi) * 60 + int s"
    using assms(8,9) by (simp add: timegm_def)
  then have "?t \<noteq> - 1" using assms(10) by simp
  then show ?thesis
    by (simp add: isoTimestampToMs_def len nul sscanf_isoText [OF assms(1-7)] t Let_def sdiv_nonneg)
qed

end
