(* ===== verification/Kraken_Adapter.thy ===== *)
theory Kraken_Adapter
  imports Binance_Adapter Doubles Timestamps Watchdog
begin

text \<open>
  \<open>src/kraken_adapter.cpp\<close> with the conversions of \<open>src/kraken_utils.hpp\<close>: the Kraken feed,
  one definition per handler, and \<open>start\<close> as steps between its waits. A message is the value
  nlohmann::json parses (\<open>None\<close> where it throws). The type of web socket events is that of
  the Binance adapter, whose first text (that of simdjson) is not read here.
\<close>

section \<open>Levels\<close>

text \<open>\<open>get<double>\<close>.\<close>

definition get_double :: "json \<Rightarrow> rat res" where
  "get_double j = (case j of
       JInt i \<Rightarrow> ret (to_double (of_int i))
     | JFloat r \<Rightarrow> ret r
     | _ \<Rightarrow> throw type_error)"

definition levelToStringPair :: "json \<Rightarrow> json res" where
  "levelToStringPair level =
     bind_res (bind_res (json_at level ''price'') get_double) (\<lambda>p.
     bind_res (bind_res (json_at level ''qty'') get_double) (\<lambda>q.
       ret (JArray [JString (doubleToString p), JString (doubleToString q)])))"

definition levelsToStringPairs :: "json \<Rightarrow> json res" where
  "levelsToStringPairs krakenLevels = bind_res (map_res levelToStringPair (items krakenLevels)) (\<lambda>arr. ret (JArray arr))"

section \<open>State\<close>

record kraken =
  kr_normalizer :: normalizer
  kr_books :: "string \<rightharpoonup> orderbook"
  kr_metrics :: "string \<rightharpoonup> metrics"
  kr_connected :: bool
  pendingSnapshots :: "string set"
  kr_depth :: int
  subscribeError :: bool
  krakenSymbols :: "string list"
  kr_symbols :: "string list"
  kr_activity :: int
  kr_callback :: bool

definition newKraken :: kraken where
  "newKraken = \<lparr>kr_normalizer = defaultNormalizer, kr_books = Map.empty, kr_metrics = Map.empty, kr_connected = False,
     pendingSnapshots = {}, kr_depth = 1000, subscribeError = False, krakenSymbols = [], kr_symbols = [],
     kr_activity = 0, kr_callback = False\<rparr>"

abbreviation kr_putBook :: "string \<Rightarrow> orderbook \<Rightarrow> kraken \<Rightarrow> kraken" where
  "kr_putBook s b K \<equiv> K\<lparr>kr_books := (kr_books K)(s \<mapsto> b)\<rparr>"

abbreviation kr_putMetrics :: "string \<Rightarrow> metrics \<Rightarrow> kraken \<Rightarrow> kraken" where
  "kr_putMetrics s m K \<equiv> K\<lparr>kr_metrics := (kr_metrics K)(s \<mapsto> m)\<rparr>"

section \<open>Snapshots and updates\<close>

definition krakenSnapshot :: "json \<Rightarrow> json \<Rightarrow> json" where
  "krakenSnapshot bids asks = JObject [(''asks'', asks), (''bids'', bids), (''lastUpdateId'', JInt 0)]"

definition handleBookSnapshot :: "instant \<Rightarrow> json \<Rightarrow> kraken \<Rightarrow> kraken res" where
  "handleBookSnapshot t data K =
     bind_res (bind_res (const_at data ''symbol'') get_string) (\<lambda>krakenSym.
       case toCanonical (kr_normalizer K) ''kraken'' krakenSym of
         None \<Rightarrow> ret K
       | Some canonical \<Rightarrow>
           (case kr_books K canonical of
              None \<Rightarrow> ret K
            | Some b \<Rightarrow>
                bind_res (bind_res (const_at data ''bids'') levelsToStringPairs) (\<lambda>bids.
                bind_res (bind_res (const_at data ''asks'') levelsToStringPairs) (\<lambda>asks.
                bind_res (applySnapshotJson b (krakenSnapshot bids asks)) (\<lambda>b'.
                  ret (K\<lparr>kr_books := (kr_books K)(canonical \<mapsto> b'),
                         kr_metrics := (case kr_metrics K canonical of
                             None \<Rightarrow> kr_metrics K
                           | Some m \<Rightarrow> (kr_metrics K)(canonical \<mapsto> m\<lparr>lastUpdateTimeMs := steady t\<rparr>)),
                         pendingSnapshots := pendingSnapshots K - {canonical}\<rparr>))))))"

definition eventMsOf :: "json \<Rightarrow> int option" where
  "eventMsOf data = (case json_field data ''timestamp'' of Some (JString s) \<Rightarrow> isoTimestampToMs s | _ \<Rightarrow> Some 0)"

definition handleBookUpdate :: "instant \<Rightarrow> json \<Rightarrow> kraken \<Rightarrow> (callback_call list \<times> kraken) res" where
  "handleBookUpdate t data K =
     bind_res (bind_res (const_at data ''symbol'') get_string) (\<lambda>krakenSym.
       case toCanonical (kr_normalizer K) ''kraken'' krakenSym of
         None \<Rightarrow> ret ([], K)
       | Some canonical \<Rightarrow>
           (case (kr_books K canonical, kr_metrics K canonical) of
              (Some b, Some m) \<Rightarrow>
                if \<not> snapshotApplied b then ret ([], K)
                else
                  bind_res (bind_res (const_at data ''bids'') levelsToStringPairs) (\<lambda>bids.
                  bind_res (bind_res (const_at data ''asks'') levelsToStringPairs) (\<lambda>asks.
                  bind_res (applyDeltaJson b bids asks Genuine) (\<lambda>(ds, b').
                  bind_res (map_option Inr (eventMsOf data)) (\<lambda>eventMs.
                  bind_res (map_option Inr (if 0 < eventMs
                      then do { lag \<leftarrow> ll (wall t - eventMs); Some (m\<lparr>lastEventLagMs := lag\<rparr>) } else Some m)) (\<lambda>m1.
                    ret (if kr_callback K then [(canonical, ds, eventMs)] else [],
                         kr_putMetrics canonical (recordUpdate t m1) (kr_putBook canonical b' K)))))))
            | _ \<Rightarrow> ret ([], K)))"

section \<open>Messages\<close>

text \<open>
  The refusal of a subscription: only the symbol it names, or all, are no longer awaited.
\<close>

definition isSubscribeAck :: "json \<Rightarrow> bool" where
  "isSubscribeAck j \<longleftrightarrow> json_field j ''method'' = Some (JString ''subscribe'')"

definition refusedSymbol :: "json \<Rightarrow> kraken \<Rightarrow> string option res" where
  "refusedSymbol j K =
     (case Option.bind (json_field j ''result'') (\<lambda>r. json_field r ''symbol'') of
        None \<Rightarrow> ret None
      | Some v \<Rightarrow> bind_res (get_string v) (\<lambda>failedKrakenSym. ret (toCanonical (kr_normalizer K) ''kraken'' failedKrakenSym)))"

definition handleSubscribeAck :: "json \<Rightarrow> kraken \<Rightarrow> kraken res" where
  "handleSubscribeAck j K =
     bind_res (case json_field j ''success'' of None \<Rightarrow> ret True | Some v \<Rightarrow> get_bool v) (\<lambda>success.
       if success then ret K
       else
         bind_res (case json_field j ''error'' of None \<Rightarrow> ret ''unknown error'' | Some v \<Rightarrow> get_string v) (\<lambda>errMsg.
         bind_res (refusedSymbol j K) (\<lambda>failed.
           ret (case failed of
                  Some canonical \<Rightarrow> K\<lparr>pendingSnapshots := pendingSnapshots K - {canonical}\<rparr>
                | None \<Rightarrow> K\<lparr>subscribeError := True, pendingSnapshots := {}\<rparr>))))"

text \<open>One element of the data; and all of them, up to the first that throws.\<close>

definition handleItem :: "instant \<Rightarrow> string \<Rightarrow> json \<Rightarrow> kraken \<Rightarrow> (callback_call list \<times> kraken) res" where
  "handleItem t typ item K =
     (if typ = ''snapshot'' then bind_res (handleBookSnapshot t item K) (\<lambda>K'. ret ([], K'))
      else if typ = ''update'' then handleBookUpdate t item K
      else ret ([], K))"

fun handleItems :: "instant \<Rightarrow> string \<Rightarrow> json list \<Rightarrow> kraken \<Rightarrow> (callback_call list \<times> kraken) option" where
  "handleItems t typ [] K = Some ([], K)"
| "handleItems t typ (item # rest) K =
     (case handleItem t typ item K of
        None \<Rightarrow> None
      | Some (Inl _) \<Rightarrow> Some ([], K)
      | Some (Inr (calls, K')) \<Rightarrow> do { (calls', K'') \<leftarrow> handleItems t typ rest K'; Some (calls @ calls', K'') })"

definition bookData :: "json \<Rightarrow> (string \<times> json list) option" where
  "bookData j =
     (case json_field j ''channel'' of
        Some (JString c) \<Rightarrow>
          if c \<noteq> ''book'' then None
          else (case json_field j ''type'' of
                  Some (JString typ) \<Rightarrow>
                    (case json_field j ''data'' of Some (JArray xs) \<Rightarrow> Some (typ, xs) | _ \<Rightarrow> None)
                | _ \<Rightarrow> None)
      | _ \<Rightarrow> None)"

definition kr_message :: "instant \<Rightarrow> json option \<Rightarrow> kraken \<Rightarrow> (callback_call list \<times> kraken) option" where
  "kr_message t msg K =
     (case msg of
        None \<Rightarrow> Some ([], K)
      | Some j \<Rightarrow>
          if isSubscribeAck j
          then (case handleSubscribeAck j K of
                  None \<Rightarrow> None | Some (Inl _) \<Rightarrow> Some ([], K) | Some (Inr K') \<Rightarrow> Some ([], K'))
          else (case bookData j of
                  None \<Rightarrow> Some ([], K)
                | Some (typ, xs) \<Rightarrow> handleItems t typ xs K))"

section \<open>Connecting\<close>

definition subscribeMsg :: "kraken \<Rightarrow> json" where
  "subscribeMsg K = JObject [(''method'', JString ''subscribe''),
     (''params'', JObject [(''channel'', JString ''book''), (''depth'', JInt (kr_depth K)),
        (''symbol'', JArray (map JString (krakenSymbols K)))])]"

definition kr_clearSymbol :: "kraken \<Rightarrow> string \<Rightarrow> kraken" where
  "kr_clearSymbol K s = K\<lparr>
     kr_books := (case kr_books K s of None \<Rightarrow> kr_books K | Some b \<Rightarrow> (kr_books K)(s \<mapsto> book_clear b)),
     kr_metrics := (case kr_metrics K s of None \<Rightarrow> kr_metrics K
                    | Some m \<Rightarrow> (kr_metrics K)(s \<mapsto> m\<lparr>lastUpdateTimeMs := 0\<rparr>))\<rparr>"

datatype kr_out =
    KrCallback string "level_delta list" int
  | Send json

definition kr_open :: "kraken \<Rightarrow> kr_out list \<times> kraken" where
  "kr_open K =
     (if \<not> kr_connected K then ([], K\<lparr>kr_connected := True\<rparr>)
      else
        (let K1 = foldl kr_clearSymbol K (kr_symbols K);
             K2 = K1\<lparr>subscribeError := False, pendingSnapshots := set (kr_symbols K)\<rparr>
         in ([Send (subscribeMsg K2)], K2)))"

definition kr_handleWsMessage :: "instant \<Rightarrow> ws_event \<Rightarrow> kraken \<Rightarrow> (kr_out list \<times> kraken) option" where
  "kr_handleWsMessage t ev K =
     (case ev of
        WsOpen \<Rightarrow> Some (kr_open (K\<lparr>kr_activity := steady t\<rparr>))
      | WsMessage _ msg \<Rightarrow> do {
          (calls, K') \<leftarrow> kr_message t msg (K\<lparr>kr_activity := steady t\<rparr>);
          Some (map (\<lambda>(s, ds, ts). KrCallback s ds ts) calls, K')
        }
      | _ \<Rightarrow> Some ([], K))"

section \<open>start\<close>

text \<open>The symbols of the exchange, when every symbol has one, a book and metrics.\<close>

fun validateSymbols ::
  "normalizer \<Rightarrow> (string \<rightharpoonup> orderbook) \<Rightarrow> (string \<rightharpoonup> metrics) \<Rightarrow> string list \<Rightarrow> string list option" where
  "validateSymbols N bs ms [] = Some []"
| "validateSymbols N bs ms (c # cs) =
     (case fromCanonical N ''kraken'' c of
        None \<Rightarrow> None
      | Some krSym \<Rightarrow>
          if bs c = None \<or> ms c = None then None
          else do { ks \<leftarrow> validateSymbols N bs ms cs; Some (krSym # ks) })"

definition kr_startMetrics :: "(string \<rightharpoonup> metrics) \<Rightarrow> string \<Rightarrow> (string \<rightharpoonup> metrics)" where
  "kr_startMetrics ms s = (case ms s of None \<Rightarrow> ms | Some m \<Rightarrow> ms(s \<mapsto> m\<lparr>lastUpdateTimeMs := 0\<rparr>))"

definition kr_prepare ::
  "string list \<Rightarrow> (string \<rightharpoonup> orderbook) \<Rightarrow> (string \<rightharpoonup> metrics) \<Rightarrow> int \<Rightarrow> kraken \<Rightarrow> bool \<times> kraken" where
  "kr_prepare symbols bs ms depth K =
     (case validateSymbols (kr_normalizer K) bs ms symbols of
        None \<Rightarrow> (False, K)
      | Some ks \<Rightarrow> (True, K\<lparr>kr_books := map_option book_clear \<circ> bs, kr_metrics := foldl kr_startMetrics ms symbols,
          kr_depth := clampBookDepth depth, kr_connected := False, subscribeError := False,
          pendingSnapshots := set symbols, krakenSymbols := ks, kr_symbols := symbols, kr_activity := 0\<rparr>))"

text \<open>
  \<open>start\<close> waits for the connection, then for the snapshots. A wait ends when its condition
  holds, or after 30 seconds.
\<close>

datatype kr_phase =
    Connecting
  | Subscribed
  | Returned bool

definition kr_wake :: "kr_phase \<Rightarrow> kraken \<Rightarrow> kr_out list \<times> kr_phase" where
  "kr_wake p K =
     (case p of
        Connecting \<Rightarrow> if kr_connected K then ([Send (subscribeMsg K)], Subscribed) else ([], Returned False)
      | Subscribed \<Rightarrow>
          ([], if pendingSnapshots K \<noteq> {} then Returned False
               else if subscribeError K then Returned False else Returned True)
      | Returned r \<Rightarrow> ([], Returned r))"

text \<open>One tick of the watchdog; the result says whether the socket is stopped and started again.\<close>

definition kr_kStaleThresholdMs :: int where
  "kr_kStaleThresholdMs = 2000"

definition kr_watchdogTick :: "int \<Rightarrow> int \<Rightarrow> bool \<times> int" where
  "kr_watchdogTick now seen = (if seen = 0 then (False, seen)
     else if kr_kStaleThresholdMs < now - seen then (True, 0) else (False, seen))"

interpretation kraken_dog: watchdog kr_watchdogTick kr_kStaleThresholdMs
  by unfold_locales (simp_all add: kr_watchdogTick_def)

section \<open>The adapter as a machine\<close>

record kr_sys =
  kr :: kraken
  phase :: kr_phase

datatype kr_event =
    KrWs instant ws_event
  | KrWake
  | KrTick int

inductive kr_step :: "kr_sys \<Rightarrow> kr_event \<Rightarrow> kr_out list \<Rightarrow> kr_sys \<Rightarrow> bool" where
  kr_ws: "kr_handleWsMessage t ev (kr S) = Some (out, K) \<Longrightarrow> kr_step S (KrWs t ev) out (S\<lparr>kr := K\<rparr>)"
| kr_wakes: "phase S = Connecting \<or> phase S = Subscribed \<Longrightarrow> kr_wake (phase S) (kr S) = (out, p) \<Longrightarrow>
    kr_step S KrWake out (S\<lparr>phase := p\<rparr>)"
| kr_tick: "phase S = Returned True \<Longrightarrow> kr_watchdogTick now (kr_activity (kr S)) = (restart, l) \<Longrightarrow>
    kr_step S (KrTick now) [] (S\<lparr>kr := (kr S)\<lparr>kr_activity := l\<rparr>\<rparr>)"

inductive kr_run :: "kr_sys \<Rightarrow> kr_event list \<Rightarrow> kr_out list \<Rightarrow> kr_sys \<Rightarrow> bool" where
  kr_nothing: "kr_run S [] [] S"
| kr_more: "kr_run S es outs S1 \<Longrightarrow> kr_step S1 e out S2 \<Longrightarrow> kr_run S (es @ [e]) (outs @ out) S2"

inductive_cases kr_stepE: "kr_step S e out S'"

end
