(* ===== verification/Kraken_Laws.thy ===== *)
theory Kraken_Laws
  imports Kraken_Adapter Binance_Laws
begin

text \<open>
  What the handlers of the Kraken adapter keep: the invariant \<open>kr_ok\<close>, on messages that do no
  harm, and that every symbol without a snapshot is awaited.
\<close>

section \<open>The invariant\<close>

definition kr_ok :: "kraken \<Rightarrow> bool" where
  "kr_ok K \<longleftrightarrow>
     (\<forall>s \<in> set (kr_symbols K). s \<in> dom (kr_books K) \<and> s \<in> dom (kr_metrics K)) \<and>
     (\<forall>s b. kr_books K s = Some b \<longrightarrow> book_ok b) \<and>
     (\<forall>s m. kr_metrics K s = Some m \<longrightarrow> length (processingBuckets m) = 11)"

definition kr_has :: "kraken \<Rightarrow> string \<Rightarrow> bool" where
  "kr_has K s \<longleftrightarrow> (\<exists>b. kr_books K s = Some b \<and> snapshotApplied b)"

definition kr_setup :: "kraken \<Rightarrow> kraken \<Rightarrow> bool" where
  "kr_setup K K' \<longleftrightarrow> kr_symbols K' = kr_symbols K \<and> krakenSymbols K' = krakenSymbols K \<and>
     kr_normalizer K' = kr_normalizer K \<and> kr_depth K' = kr_depth K \<and> kr_callback K' = kr_callback K \<and>
     dom (kr_books K') = dom (kr_books K) \<and> dom (kr_metrics K') = dom (kr_metrics K)"

lemma kr_setup_refl [simp]: "kr_setup K K"
  by (simp add: kr_setup_def)

lemma kr_setup_trans [trans]: "kr_setup A B \<Longrightarrow> kr_setup B C \<Longrightarrow> kr_setup A C"
  by (simp add: kr_setup_def)

text \<open>An element of the data that does no harm: its keys are there, its levels are those of a feed.\<close>

definition side_of :: "json \<Rightarrow> string \<Rightarrow> json res" where
  "side_of item k = bind_res (const_at item k) levelsToStringPairs"

definition item_safe :: "instant \<Rightarrow> json \<Rightarrow> bool" where
  "item_safe t item \<longleftrightarrow> const_at item ''symbol'' \<noteq> None \<and>
     levels_safe (bind_res (side_of item ''bids'') jsonLevels) \<and> levels_safe (bind_res (side_of item ''asks'') jsonLevels) \<and>
     (\<exists>e. eventMsOf item = Some e \<and> (0 < e \<longrightarrow> in_ll (wall t - e)))"

definition kr_safe :: "instant \<Rightarrow> ws_event \<Rightarrow> bool" where
  "kr_safe t ev \<longleftrightarrow> (case ev of
      WsMessage _ (Some j) \<Rightarrow> (\<forall>typ xs item. bookData j = Some (typ, xs) \<longrightarrow> item \<in> set xs \<longrightarrow> item_safe t item)
    | _ \<Rightarrow> True)"

section \<open>Levels\<close>

lemma levels_safe_bind:
  assumes "levels_safe (bind_res m f)"
  shows "(\<exists>e. m = Some (Inl e)) \<or> (\<exists>x. m = Some (Inr x) \<and> levels_safe (f x))"
proof (cases m)
  case None
  then show ?thesis using assms by (simp add: levels_safe_def)
next
  case (Some r)
  then show ?thesis using assms by (cases r) simp_all
qed

lemma get_string_total: "(\<exists>e. get_string v = Some (Inl e)) \<or> (\<exists>s. get_string v = Some (Inr s))"
  by (cases v) (simp_all add: get_string_def ret_def throw_def)

lemma get_bool_total: "v = JBool True \<or> v = JBool False \<or> (\<exists>e. get_bool v = Some (Inl e))"
  by (cases v) (auto simp: get_bool_def throw_def)

lemma symbol_read:
  assumes "item_safe t item"
  shows "(\<exists>e. bind_res (const_at item ''symbol'') get_string = Some (Inl e)) \<or>
    (\<exists>s. bind_res (const_at item ''symbol'') get_string = Some (Inr s))"
proof -
  obtain r where r: "const_at item ''symbol'' = Some r" using assms by (auto simp: item_safe_def)
  then show ?thesis using get_string_total by (cases r) simp_all
qed

lemma applyDeltaJson_safe:
  assumes "book_ok b" "levels_safe (jsonLevels bids)" "levels_safe (jsonLevels asks)"
  shows "(\<exists>e. applyDeltaJson b bids asks Genuine = Some (Inl e)) \<or>
    (\<exists>ds b'. applyDeltaJson b bids asks Genuine = Some (Inr (ds, b')) \<and> book_ok b' \<and>
       snapshotApplied b' = snapshotApplied b \<and> (\<forall>d \<in> set ds. d_kind d \<noteq> Backfill))"
proof -
  consider e where "jsonLevels bids = Some (Inl e)" | xs e where "jsonLevels bids = Some (Inr xs)" "jsonLevels asks = Some (Inl e)"
    | xs ys where "jsonLevels bids = Some (Inr xs)" "jsonLevels asks = Some (Inr ys)" "\<forall>l \<in> set xs \<union> set ys. feed_ok l"
    using assms(2,3) unfolding levels_safe_def by (auto split: option.splits sum.splits)
  then show ?thesis
  proof cases
    case (3 xs ys)
    have small: "book_small b" using assms(1) by (simp add: book_ok_def)
    obtain ds b' where run: "do { s1 \<leftarrow> foldM (applyLevelChange Genuine True) ([], b) xs; foldM (applyLevelChange Genuine False) s1 ys } = Some (ds, b')"
      "book_small b'"
      using both_sides_total [OF small 3(3), of Genuine True False] by blast
    then obtain d1 b1 where r: "foldM (applyLevelChange Genuine True) ([], b) xs = Some (d1, b1)"
      "foldM (applyLevelChange Genuine False) (d1, b1) ys = Some (ds, b')"
      by (auto split: Option.bind_splits)
    have "snapshotApplied b' = snapshotApplied b" "lastUpdateId b' = lastUpdateId b"
      using run_frame [OF r(1)] run_frame [OF r(2)] by simp_all
    moreover have "\<forall>d \<in> set ds. d_kind d \<noteq> Backfill" using both_kinds [OF r] by (auto simp: secondaryKind_def)
    ultimately show ?thesis using run assms(1) 3 by (simp add: applyDeltaJson_def book_ok_def)
  qed (simp_all add: applyDeltaJson_def)
qed

lemma snapshot_safe_levels:
  assumes "levels_safe (jsonLevels bids)" "levels_safe (jsonLevels asks)"
  shows "snapshot_safe (krakenSnapshot bids asks)"
  using assms unfolding snapshot_safe_def decodeSnapshot_def krakenSnapshot_def levels_safe_def
  by (auto simp: json_access wrap64_def in_ll_def int_limits bind_res_def ret_def split: option.splits sum.splits)

section \<open>Snapshots and updates\<close>

definition kr_item_law :: "callback_call list \<Rightarrow> kraken \<Rightarrow> kraken \<Rightarrow> bool" where
  "kr_item_law calls K K' \<longleftrightarrow> kr_ok K' \<and> kr_setup K K' \<and> subscribeError K' = subscribeError K \<and>
     kr_connected K' = kr_connected K \<and> kr_activity K' = kr_activity K \<and>
     (\<forall>x. kr_has K x \<longrightarrow> kr_has K' x) \<and>
     (\<forall>x. x \<in> pendingSnapshots K \<longrightarrow> x \<in> pendingSnapshots K' \<or> kr_has K' x) \<and>
     pendingSnapshots K' \<subseteq> pendingSnapshots K \<and>
     (\<forall>(s, ds, ts) \<in> set calls. kr_has K' s \<and> (\<forall>d \<in> set ds. d_kind d \<noteq> Backfill))"

lemma kr_item_refl: "kr_ok K \<Longrightarrow> kr_item_law [] K K"
  by (simp add: kr_item_law_def)

lemma handleBookSnapshot_law:
  assumes K: "kr_ok K" and safe: "item_safe t item"
  shows "(\<exists>e. handleBookSnapshot t item K = Some (Inl e)) \<or>
    (\<exists>K'. handleBookSnapshot t item K = Some (Inr K') \<and> kr_item_law [] K K')"
proof -
  consider e where "bind_res (const_at item ''symbol'') get_string = Some (Inl e)"
    | sy where "bind_res (const_at item ''symbol'') get_string = Some (Inr sy)"
    using symbol_read [OF safe] by blast
  then show ?thesis
  proof cases
    case (2 sy)
    show ?thesis
    proof (cases "toCanonical (kr_normalizer K) ''kraken'' sy")
      case None
      then show ?thesis using kr_item_refl [OF K] by (simp add: handleBookSnapshot_def 2 ret_def)
    next
      case (Some c)
      show ?thesis
      proof (cases "kr_books K c")
        case None
        then show ?thesis using kr_item_refl [OF K] by (simp add: handleBookSnapshot_def 2 Some ret_def)
      next
        case (Some b)
        have bok: "book_ok b" using K Some by (simp add: kr_ok_def)
        have start: "handleBookSnapshot t item K = bind_res (side_of item ''bids'') (\<lambda>bids. bind_res (side_of item ''asks'') (\<lambda>asks.
            bind_res (applySnapshotJson b (krakenSnapshot bids asks)) (\<lambda>b'. ret (K\<lparr>kr_books := (kr_books K)(c \<mapsto> b'),
              kr_metrics := (case kr_metrics K c of None \<Rightarrow> kr_metrics K | Some m \<Rightarrow> (kr_metrics K)(c \<mapsto> m\<lparr>lastUpdateTimeMs := steady t\<rparr>)),
              pendingSnapshots := pendingSnapshots K - {c}\<rparr>))))"
          by (simp add: handleBookSnapshot_def 2 \<open>toCanonical _ _ _ = Some c\<close> Some side_of_def)
        have ls: "levels_safe (bind_res (side_of item ''bids'') jsonLevels)" "levels_safe (bind_res (side_of item ''asks'') jsonLevels)"
          using safe by (simp_all add: item_safe_def)
        from levels_safe_bind [OF ls(1)] levels_safe_bind [OF ls(2)] show ?thesis
        proof (elim disjE exE conjE)
          fix bids asks
          assume p: "side_of item ''bids'' = Some (Inr bids)" "levels_safe (jsonLevels bids)"
            "side_of item ''asks'' = Some (Inr asks)" "levels_safe (jsonLevels asks)"
          from applySnapshotJson_safe [OF bok snapshot_safe_levels [OF p(2,4)]] show ?thesis
          proof (elim disjE exE conjE)
            fix b'
            assume b': "applySnapshotJson b (krakenSnapshot bids asks) = Some (Inr b')" "book_ok b'" "snapshotApplied b'"
            show ?thesis unfolding start p bind_res_simps b'(1) ret_def using K Some b'(2,3)
              by (auto simp: kr_item_law_def kr_ok_def kr_setup_def kr_has_def split: option.splits)
          qed (simp add: start p)
        qed (simp_all add: start)
      qed
    qed
  qed (simp add: handleBookSnapshot_def)
qed

lemma handleBookUpdate_law:
  assumes K: "kr_ok K" and safe: "item_safe t item"
  shows "(\<exists>e. handleBookUpdate t item K = Some (Inl e)) \<or>
    (\<exists>calls K'. handleBookUpdate t item K = Some (Inr (calls, K')) \<and> kr_item_law calls K K')"
proof -
  consider e where "bind_res (const_at item ''symbol'') get_string = Some (Inl e)"
    | sy where "bind_res (const_at item ''symbol'') get_string = Some (Inr sy)"
    using symbol_read [OF safe] by blast
  then show ?thesis
  proof cases
    case (2 sy)
    show ?thesis
    proof (cases "\<exists>c b m. toCanonical (kr_normalizer K) ''kraken'' sy = Some c \<and> kr_books K c = Some b \<and> kr_metrics K c = Some m \<and> snapshotApplied b")
      case False
      then have "handleBookUpdate t item K = ret ([], K)"
        by (auto simp: handleBookUpdate_def 2 split: option.splits)
      then show ?thesis using kr_item_refl [OF K] by (simp add: ret_def)
    next
      case True
      then obtain c b m where c: "toCanonical (kr_normalizer K) ''kraken'' sy = Some c" "kr_books K c = Some b"
        "kr_metrics K c = Some m" "snapshotApplied b" by blast
      have bok: "book_ok b" and m11: "length (processingBuckets m) = 11" using K c by (simp_all add: kr_ok_def)
      obtain e where e: "eventMsOf item = Some e" "0 < e \<longrightarrow> in_ll (wall t - e)" using safe by (auto simp: item_safe_def)
      define m1 where "m1 = (if 0 < e then m\<lparr>lastEventLagMs := wall t - e\<rparr> else m)"
      have start: "handleBookUpdate t item K = bind_res (side_of item ''bids'') (\<lambda>bids. bind_res (side_of item ''asks'') (\<lambda>asks.
          bind_res (applyDeltaJson b bids asks Genuine) (\<lambda>(ds, b'). ret (if kr_callback K then [(c, ds, e)] else [],
            kr_putMetrics c (recordUpdate t m1) (kr_putBook c b' K)))))"
        using c e by (auto simp: handleBookUpdate_def 2 side_of_def ll_Some m1_def split_def intro!: arg_cong2 [where f = bind_res] ext)
      have ls: "levels_safe (bind_res (side_of item ''bids'') jsonLevels)" "levels_safe (bind_res (side_of item ''asks'') jsonLevels)"
        using safe by (simp_all add: item_safe_def)
      from levels_safe_bind [OF ls(1)] levels_safe_bind [OF ls(2)] show ?thesis
      proof (elim disjE exE conjE)
        fix bids asks
        assume p: "side_of item ''bids'' = Some (Inr bids)" "levels_safe (jsonLevels bids)"
          "side_of item ''asks'' = Some (Inr asks)" "levels_safe (jsonLevels asks)"
        from applyDeltaJson_safe [OF bok p(2,4)] show ?thesis
        proof (elim disjE exE conjE)
          fix ds b'
          assume b': "applyDeltaJson b bids asks Genuine = Some (Inr (ds, b'))" "book_ok b'" "snapshotApplied b' = snapshotApplied b"
            "\<forall>d \<in> set ds. d_kind d \<noteq> Backfill"
          have "length (processingBuckets (recordUpdate t m1)) = 11" by (rule recordUpdate_length) (simp add: m1_def m11)
          then show ?thesis unfolding start p bind_res_simps b'(1) ret_def using K c b'(2-4)
            by (auto simp: kr_item_law_def kr_ok_def kr_setup_def kr_has_def)
        qed (simp add: start p)
      qed (simp_all add: start)
    qed
  qed (simp add: handleBookUpdate_def)
qed

lemma handleItem_law:
  assumes "kr_ok K" "item_safe t item"
  shows "(\<exists>e. handleItem t typ item K = Some (Inl e)) \<or>
    (\<exists>calls K'. handleItem t typ item K = Some (Inr (calls, K')) \<and> kr_item_law calls K K')"
  using handleBookSnapshot_law [OF assms] handleBookUpdate_law [OF assms] kr_item_refl [OF assms(1)]
  by (auto simp: handleItem_def ret_def)

lemma kr_item_trans:
  assumes "kr_item_law calls K K'" "kr_item_law calls' K' K''"
  shows "kr_item_law (calls @ calls') K K''"
  using assms kr_setup_trans [of K K' K''] unfolding kr_item_law_def set_append ball_Un
  by (elim conjE) (intro conjI, simp_all, blast+)

lemma handleItems_law:
  assumes "kr_ok K" "\<forall>item \<in> set xs. item_safe t item"
  shows "\<exists>calls K'. handleItems t typ xs K = Some (calls, K') \<and> kr_item_law calls K K'"
  using assms
proof (induction xs arbitrary: K)
  case (Cons item xs)
  have "item_safe t item" using Cons.prems(2) by simp
  from handleItem_law [OF Cons.prems(1) this, of "typ"] show ?case
  proof (elim disjE exE conjE)
    fix calls K'
    assume i: "handleItem t typ item K = Some (Inr (calls, K'))" "kr_item_law calls K K'"
    then have "kr_ok K'" by (simp add: kr_item_law_def)
    with Cons.IH [of K'] Cons.prems(2) i kr_item_trans show ?thesis by fastforce
  qed (use kr_item_refl [OF Cons.prems(1)] in simp)
qed (use kr_item_refl in simp)

section \<open>Events of the web socket\<close>

text \<open>The symbol whose subscription a message refuses.\<close>

definition refusal :: "normalizer \<Rightarrow> json \<Rightarrow> string \<Rightarrow> bool" where
  "refusal N j s \<longleftrightarrow> isSubscribeAck j \<and> json_field j ''success'' = Some (JBool False) \<and>
     (\<exists>r ks. json_field j ''result'' = Some r \<and> json_field r ''symbol'' = Some (JString ks) \<and> toCanonical N ''kraken'' ks = Some s)"

definition kr_handled :: "ws_event \<Rightarrow> kr_out list \<Rightarrow> kraken \<Rightarrow> kraken \<Rightarrow> bool" where
  "kr_handled ev out K K' \<longleftrightarrow> kr_ok K' \<and> kr_setup K K' \<and>
     (\<forall>x \<in> set (kr_symbols K). kr_has K x \<or> x \<in> pendingSnapshots K \<longrightarrow>
        kr_has K' x \<or> x \<in> pendingSnapshots K' \<or> subscribeError K' \<or>
        (\<exists>sj j. ev = WsMessage sj (Some j) \<and> refusal (kr_normalizer K) j x)) \<and>
     (subscribeError K \<longrightarrow> subscribeError K' \<or> (\<forall>x \<in> set (kr_symbols K). x \<in> pendingSnapshots K')) \<and>
     (\<forall>s ds ts. KrCallback s ds ts \<in> set out \<longrightarrow> kr_has K' s \<and> (\<forall>d \<in> set ds. d_kind d \<noteq> Backfill))"

lemma handleSubscribeAck_law:
  assumes K: "kr_ok K" and ack: "isSubscribeAck j"
  shows "(\<exists>e. handleSubscribeAck j K = Some (Inl e)) \<or>
    (\<exists>K'. handleSubscribeAck j K = Some (Inr K') \<and> kr_handled (WsMessage sj (Some j)) [] K K')"
proof -
  have refl: "kr_handled (WsMessage sj (Some j)) [] K K" using K by (auto simp: kr_handled_def)
  consider "json_field j ''success'' = None \<or> json_field j ''success'' = Some (JBool True)"
    | "json_field j ''success'' = Some (JBool False)"
    | v e where "json_field j ''success'' = Some v" "get_bool v = Some (Inl e)"
  proof (cases "json_field j ''success''")
    case (Some v)
    with get_bool_total [of v] that show thesis by auto
  qed (use that in simp)
  then show ?thesis
  proof cases
    case 1
    then show ?thesis using refl by (auto simp: handleSubscribeAck_def ret_def get_bool_def)
  next
    case 2
    let ?err = "case json_field j ''error'' of None \<Rightarrow> ret ''unknown error'' | Some v \<Rightarrow> get_string v"
    have err: "(\<exists>e. ?err = Some (Inl e)) \<or> (\<exists>s. ?err = Some (Inr s))"
      using get_string_total by (cases "json_field j ''error''") (simp_all add: ret_def)
    have ref: "(\<exists>e. refusedSymbol j K = Some (Inl e)) \<or> refusedSymbol j K = Some (Inr None) \<or>
      (\<exists>c. refusedSymbol j K = Some (Inr (Some c)) \<and> refusal (kr_normalizer K) j c)"
      using ack 2 unfolding refusedSymbol_def refusal_def
      by (auto simp: get_string_def ret_def throw_def split: option.splits json.splits Option.bind_splits)
    have start: "handleSubscribeAck j K = bind_res ?err (\<lambda>_. bind_res (refusedSymbol j K) (\<lambda>failed.
        ret (case failed of Some c \<Rightarrow> K\<lparr>pendingSnapshots := pendingSnapshots K - {c}\<rparr>
          | None \<Rightarrow> K\<lparr>subscribeError := True, pendingSnapshots := {}\<rparr>)))"
      by (simp add: handleSubscribeAck_def 2 get_bool_def)
    from err ref show ?thesis
    proof (elim disjE exE conjE)
      fix s
      assume "?err = Some (Inr s)" "refusedSymbol j K = Some (Inr None)"
      then show ?thesis using K by (simp add: start ret_def kr_handled_def kr_ok_def kr_setup_def)
    next
      fix s c
      assume "?err = Some (Inr s)" "refusedSymbol j K = Some (Inr (Some c))" "refusal (kr_normalizer K) j c"
      then show ?thesis using K by (auto simp: start ret_def kr_handled_def kr_ok_def kr_setup_def kr_has_def)
    qed (simp_all add: start)
  next
    case (3 v e)
    then show ?thesis by (simp add: handleSubscribeAck_def)
  qed
qed

lemma kr_item_handled:
  assumes "kr_item_law calls K K'"
  shows "kr_handled ev (map (\<lambda>(s, ds, ts). KrCallback s ds ts) calls) K K'"
  using assms unfolding kr_item_law_def kr_handled_def by fastforce

section \<open>Connecting again\<close>

lemma kr_clear_law:
  assumes "kr_ok K"
  shows "kr_ok (foldl kr_clearSymbol K ss) \<and> kr_setup K (foldl kr_clearSymbol K ss) \<and>
    (\<forall>s \<in> set ss. \<forall>b. kr_books (foldl kr_clearSymbol K ss) s = Some b \<longrightarrow> (\<exists>b0. b = book_clear b0)) \<and>
    (\<forall>s \<in> set ss. \<forall>m. kr_metrics (foldl kr_clearSymbol K ss) s = Some m \<longrightarrow> lastUpdateTimeMs m = 0)"
proof (induction ss rule: rev_induct)
  case (snoc s ss)
  let ?B = "foldl kr_clearSymbol K ss"
  have 1: "kr_ok (kr_clearSymbol ?B s)"
    using snoc.IH book_clear_ok unfolding kr_ok_def kr_clearSymbol_def [of ?B s] by (auto split: option.splits)
  have 2: "kr_setup ?B (kr_clearSymbol ?B s)"
    by (auto simp: kr_setup_def kr_clearSymbol_def split: option.splits)
  have 3: "\<exists>b0. b = book_clear b0" if "kr_books (kr_clearSymbol ?B s) x = Some b" "x \<in> set (ss @ [s])" for x b
    using that snoc.IH unfolding kr_clearSymbol_def [of ?B s] by (auto split: option.splits if_splits)
  have 4: "lastUpdateTimeMs m = 0" if "kr_metrics (kr_clearSymbol ?B s) x = Some m" "x \<in> set (ss @ [s])" for x m
    using that snoc.IH unfolding kr_clearSymbol_def [of ?B s] by (auto split: option.splits if_splits)
  show ?case using 1 2 3 4 snoc.IH kr_setup_trans [of K ?B "kr_clearSymbol ?B s"] by simp
qed (use assms in simp)

lemma kr_open_law:
  assumes "kr_ok K" "kr_open K = (out, K')"
  shows "kr_handled WsOpen out K K'"
proof (cases "kr_connected K")
  case False
  then show ?thesis using assms by (auto simp: kr_open_def kr_handled_def kr_ok_def kr_setup_def kr_has_def)
next
  case True
  note c = kr_clear_law [OF assms(1), of "kr_symbols K"]
  have "K' = (foldl kr_clearSymbol K (kr_symbols K))\<lparr>subscribeError := False, pendingSnapshots := set (kr_symbols K)\<rparr>"
    "\<exists>j. out = [Send j]"
    using assms(2) True by (auto simp: kr_open_def Let_def)
  then show ?thesis using c by (auto simp: kr_handled_def kr_ok_def kr_setup_def kr_has_def)
qed

lemma kr_activity_law:
  "kr_handled ev out (K\<lparr>kr_activity := x\<rparr>) K' = kr_handled ev out K K'" "kr_ok (K\<lparr>kr_activity := x\<rparr>) = kr_ok K"
  by (simp_all add: kr_handled_def kr_setup_def kr_has_def kr_ok_def)

lemma kr_handle_law:
  assumes K: "kr_ok K" and safe: "kr_safe t ev"
  obtains out K' where "kr_handleWsMessage t ev K = Some (out, K')" "kr_handled ev out K K'"
proof -
  let ?K = "K\<lparr>kr_activity := steady t\<rparr>"
  have ok: "kr_ok ?K" using K by (simp add: kr_activity_law)
  have refl: "kr_handled ev [] ?K ?K" using ok by (auto simp: kr_handled_def)
  have "\<exists>out K'. kr_handleWsMessage t ev K = Some (out, K') \<and> kr_handled ev out K K'"
  proof (cases ev)
    case WsOpen
    obtain out K' where o: "kr_open ?K = (out, K')" by (cases "kr_open ?K")
    then show ?thesis using kr_open_law [OF ok o] by (simp add: kr_handleWsMessage_def WsOpen kr_activity_law)
  next
    case (WsMessage sj msg)
    have "\<exists>calls K'. kr_message t msg ?K = Some (calls, K') \<and>
      kr_handled ev (map (\<lambda>(s, ds, ts). KrCallback s ds ts) calls) ?K K'"
    proof (cases msg)
      case None
      then show ?thesis using refl by (simp add: kr_message_def)
    next
      case (Some j)
      show ?thesis
      proof (cases "isSubscribeAck j")
        case True
        from handleSubscribeAck_law [OF ok True, of sj] show ?thesis
          using refl True by (auto simp: kr_message_def WsMessage Some)
      next
        case False
        show ?thesis
        proof (cases "bookData j")
          case None
          then show ?thesis using refl False by (simp add: kr_message_def Some)
        next
          case d: (Some p)
          obtain ty xs where p: "p = (ty, xs)" by (cases p)
          have "\<forall>item \<in> set xs. item_safe t item" using safe d by (auto simp: kr_safe_def WsMessage Some p)
          from handleItems_law [OF ok this, of ty] kr_item_handled [of _ ?K _ ev] False d show ?thesis
            by (auto simp: kr_message_def Some p)
        qed
      qed
    qed
    then show ?thesis by (auto simp: kr_handleWsMessage_def WsMessage kr_activity_law)
  qed (use refl in \<open>auto simp: kr_handleWsMessage_def kr_activity_law kr_handled_def kr_setup_def K\<close>)
  with that show thesis by blast
qed

end
