(* ===== verification/Kraken_Run.thy ===== *)
theory Kraken_Run
  imports Kraken_Laws
begin

text \<open>
  Runs of the Kraken adapter from \<open>start\<close> on: every symbol without a snapshot is awaited or
  was refused; and messages with levels of the exchange, as the doubles next to them.
\<close>

section \<open>Runs\<close>

definition kr_prepared :: "kraken \<Rightarrow> kr_sys" where
  "kr_prepared K = \<lparr>kr = K, phase = Connecting\<rparr>"

definition kr_event_safe :: "kr_event \<Rightarrow> bool" where
  "kr_event_safe e \<longleftrightarrow> (case e of KrWs t ev \<Rightarrow> kr_safe t ev | _ \<Rightarrow> True)"

definition kr_enabled :: "kr_sys \<Rightarrow> kr_event \<Rightarrow> bool" where
  "kr_enabled S e \<longleftrightarrow> (case e of
      KrWs _ _ \<Rightarrow> True
    | KrWake \<Rightarrow> phase S = Connecting \<or> phase S = Subscribed
    | KrTick _ \<Rightarrow> phase S = Returned True)"

text \<open>A message of the run refused the subscription of the symbol.\<close>

definition refused :: "normalizer \<Rightarrow> kr_event list \<Rightarrow> string \<Rightarrow> bool" where
  "refused N es s \<longleftrightarrow> (\<exists>t sj j. KrWs t (WsMessage sj (Some j)) \<in> set es \<and> refusal N j s)"

lemma refused_more: "refused N es s \<Longrightarrow> refused N (es @ es') s"
  by (auto simp: refused_def)

definition kr_awaited :: "kr_event list \<Rightarrow> kraken \<Rightarrow> bool" where
  "kr_awaited es K \<longleftrightarrow> (\<forall>s \<in> set (kr_symbols K).
     kr_has K s \<or> s \<in> pendingSnapshots K \<or> subscribeError K \<or> refused (kr_normalizer K) es s)"

definition kr_good :: "kraken \<Rightarrow> kr_out list \<Rightarrow> bool" where
  "kr_good K out \<longleftrightarrow> (\<forall>s ds ts. KrCallback s ds ts \<in> set out \<longrightarrow> s \<in> dom (kr_books K) \<and> (\<forall>d \<in> set ds. d_kind d \<noteq> Backfill))"

lemma kr_awaited_handled:
  assumes "kr_awaited es K" "kr_handled ev out K K'"
  shows "kr_awaited (es @ [KrWs t ev]) K'"
proof -
  have same: "kr_symbols K' = kr_symbols K" "kr_normalizer K' = kr_normalizer K"
    using assms(2) by (simp_all add: kr_handled_def kr_setup_def)
  show ?thesis unfolding kr_awaited_def same
  proof
    fix s
    assume s: "s \<in> set (kr_symbols K)"
    consider "kr_has K s \<or> s \<in> pendingSnapshots K" | "subscribeError K" | "refused (kr_normalizer K) es s"
      using assms(1) s by (auto simp: kr_awaited_def)
    then show "kr_has K' s \<or> s \<in> pendingSnapshots K' \<or> subscribeError K' \<or> refused (kr_normalizer K) (es @ [KrWs t ev]) s"
    proof cases
      case 1
      with assms(2) s consider "kr_has K' s" | "s \<in> pendingSnapshots K'" | "subscribeError K'"
        | sj j where "ev = WsMessage sj (Some j)" "refusal (kr_normalizer K) j s"
        unfolding kr_handled_def by blast
      then show ?thesis by cases (auto simp: refused_def)
    next
      case 2
      then show ?thesis using assms(2) s by (auto simp: kr_handled_def)
    next
      case 3
      then show ?thesis using refused_more by blast
    qed
  qed
qed

lemma kr_step_law:
  assumes st: "kr_step S e out S'" and ok: "kr_ok (kr S)" and aw: "kr_awaited es (kr S)" and safe: "kr_event_safe e"
  shows "kr_ok (kr S') \<and> kr_setup (kr S) (kr S') \<and> kr_awaited (es @ [e]) (kr S') \<and> kr_good (kr S) out"
  using st
proof cases
  case (kr_ws t ev K)
  have "kr_safe t ev" using safe by (simp add: kr_event_safe_def kr_ws(1))
  then obtain out' K' where h: "kr_handleWsMessage t ev (kr S) = Some (out', K')" "kr_handled ev out' (kr S) K'"
    by (rule kr_handle_law [OF ok])
  then have eq: "out = out'" "kr S' = K'" using kr_ws by simp_all
  have "kr_awaited (es @ [e]) K'" using kr_awaited_handled [OF aw h(2)] by (simp add: kr_ws(1))
  moreover have "kr_good (kr S) out'"
  proof -
    have "dom (kr_books K') = dom (kr_books (kr S))" using h(2) by (simp add: kr_handled_def kr_setup_def)
    then have "kr_has K' s \<Longrightarrow> s \<in> dom (kr_books (kr S))" for s by (auto simp: kr_has_def)
    moreover have "\<forall>s ds ts. KrCallback s ds ts \<in> set out' \<longrightarrow> kr_has K' s \<and> (\<forall>d \<in> set ds. d_kind d \<noteq> Backfill)"
      using h(2) unfolding kr_handled_def by (elim conjE)
    ultimately show ?thesis unfolding kr_good_def by blast
  qed
  ultimately show ?thesis using h(2) unfolding eq by (simp add: kr_handled_def)
next
  case (kr_wakes p)
  then have "kr_good (kr S) out" by (auto simp: kr_good_def kr_wake_def split: kr_phase.splits if_splits)
  moreover have "kr_awaited (es @ [e]) (kr S)" using aw refused_more unfolding kr_awaited_def by blast
  ultimately show ?thesis using kr_wakes ok by simp
next
  case (kr_tick now restart l)
  have "kr_awaited (es @ [e]) (kr S')" using aw refused_more kr_tick unfolding kr_awaited_def by (fastforce simp: kr_has_def)
  then show ?thesis using kr_tick ok by (simp add: kr_activity_law kr_setup_def kr_good_def)
qed

lemma kr_run_law:
  assumes "kr_run S es out S'" "kr_ok (kr S)" "kr_awaited [] (kr S)" "\<forall>e \<in> set es. kr_event_safe e"
  shows "kr_ok (kr S') \<and> kr_setup (kr S) (kr S') \<and> kr_awaited es (kr S') \<and> kr_good (kr S) out"
  using assms
proof (induction rule: kr_run.induct)
  case (kr_nothing S)
  then show ?case by (simp add: kr_good_def)
next
  case (kr_more S es outs S1 e out S2)
  have IH: "kr_ok (kr S1) \<and> kr_setup (kr S) (kr S1) \<and> kr_awaited es (kr S1) \<and> kr_good (kr S) outs"
    using kr_more by simp
  have step: "kr_ok (kr S2) \<and> kr_setup (kr S1) (kr S2) \<and> kr_awaited (es @ [e]) (kr S2) \<and> kr_good (kr S1) out"
    by (rule kr_step_law [OF kr_more.hyps(2)]) (use IH kr_more.prems in simp_all)
  have "dom (kr_books (kr S1)) = dom (kr_books (kr S))" using IH by (simp add: kr_setup_def)
  then have "kr_good (kr S) (outs @ out)" using IH step unfolding kr_good_def set_append by blast
  then show ?case using IH step kr_setup_trans by blast
qed

lemma kr_step_total:
  assumes "kr_ok (kr S)" "kr_event_safe e" "kr_enabled S e"
  shows "\<exists>out S'. kr_step S e out S'"
proof (cases e)
  case (KrWs t ev)
  then have "kr_safe t ev" using assms(2) by (simp add: kr_event_safe_def)
  then obtain out K where "kr_handleWsMessage t ev (kr S) = Some (out, K)" by (rule kr_handle_law [OF assms(1)])
  then show ?thesis unfolding KrWs by (blast intro: kr_step.kr_ws)
next
  case KrWake
  then show ?thesis using assms(3) kr_step.kr_wakes [of S] by (cases "kr_wake (phase S) (kr S)") (auto simp: kr_enabled_def)
next
  case (KrTick now)
  then show ?thesis using assms(3) kr_step.kr_tick [of S now]
    by (cases "kr_watchdogTick now (kr_activity (kr S))") (auto simp: kr_enabled_def)
qed

section \<open>start\<close>

definition kr_fresh :: "(string \<rightharpoonup> orderbook) \<Rightarrow> (string \<rightharpoonup> metrics) \<Rightarrow> bool" where
  "kr_fresh bs ms \<longleftrightarrow> (\<forall>b \<in> ran bs. book_small b) \<and> (\<forall>m \<in> ran ms. length (processingBuckets m) = 11)"

lemma validateSymbols_ok:
  "validateSymbols N bs ms symbols = Some ks \<Longrightarrow> (\<forall>s \<in> set symbols. s \<in> dom bs \<and> s \<in> dom ms) \<and>
     map (fromCanonical N ''kraken'') symbols = map Some ks"
  by (induction symbols arbitrary: ks) (auto split: option.splits if_splits Option.bind_splits)

lemma kr_startMetrics_fold:
  assumes "\<forall>m \<in> ran ms. length (processingBuckets m) = 11"
  shows "(\<forall>m \<in> ran (foldl kr_startMetrics ms ss). length (processingBuckets m) = 11) \<and> dom (foldl kr_startMetrics ms ss) = dom ms"
proof (induction ss rule: rev_induct)
  case (snoc s ss)
  let ?M = "foldl kr_startMetrics ms ss"
  show ?case
  proof (cases "?M s")
    case None
    then show ?thesis using snoc.IH by (simp add: kr_startMetrics_def [of ?M])
  next
    case (Some m)
    then have m: "length (processingBuckets m) = 11" using snoc.IH by (auto simp: ran_def)
    have eq: "foldl kr_startMetrics ms (ss @ [s]) = ?M(s \<mapsto> m\<lparr>lastUpdateTimeMs := 0\<rparr>)"
      using Some by (simp add: kr_startMetrics_def [of ?M])
    have "dom (?M(s \<mapsto> m\<lparr>lastUpdateTimeMs := 0\<rparr>)) = dom ?M" using Some by auto
    moreover have "\<forall>x \<in> ran (?M(s \<mapsto> m\<lparr>lastUpdateTimeMs := 0\<rparr>)). length (processingBuckets x) = 11"
      using snoc.IH m by (auto simp: ran_def)
    ultimately show ?thesis using snoc.IH by (simp only: eq simp_thms)
  qed
qed (use assms in simp)

lemma kr_start_law:
  assumes p: "kr_prepare symbols bs ms depth K = (True, K')" and f: "kr_fresh bs ms"
  shows "kr_ok K'" "kr_awaited [] K'" "kr_symbols K' = symbols" "kr_normalizer K' = kr_normalizer K"
proof -
  obtain ks where v: "validateSymbols (kr_normalizer K) bs ms symbols = Some ks"
    and K': "K' = K\<lparr>kr_books := map_option book_clear \<circ> bs, kr_metrics := foldl kr_startMetrics ms symbols,
          kr_depth := clampBookDepth depth, kr_connected := False, subscribeError := False,
          pendingSnapshots := set symbols, krakenSymbols := ks, kr_symbols := symbols, kr_activity := 0\<rparr>"
    using p by (auto simp: kr_prepare_def split: option.splits)
  have ms: "\<forall>m \<in> ran ms. length (processingBuckets m) = 11" using f by (simp add: kr_fresh_def)
  have clear: "book_ok (book_clear b)" if "book_small b" for b
    using book_clear_small [OF that] by (simp add: book_ok_def) (simp add: book_clear_def in_ll_def int_limits)
  show "kr_ok K'" using validateSymbols_ok [OF v] kr_startMetrics_fold [OF ms, of symbols] f clear
    by (auto simp: kr_ok_def K' kr_fresh_def ran_def)
  show "kr_awaited [] K'" "kr_symbols K' = symbols" "kr_normalizer K' = kr_normalizer K"
    by (simp_all add: kr_awaited_def K')
qed

section \<open>Levels as doubles\<close>

text \<open>The JSON of a level at a price and a quantity scaled by \<open>10^8\<close>.\<close>

definition scaled_double :: "int \<Rightarrow> rat" where
  "scaled_double p = to_double (of_int p / 100000000)"

definition levelJson :: "level \<Rightarrow> json" where
  "levelJson l = JObject [(''price'', JFloat (scaled_double (fst l))), (''qty'', JFloat (scaled_double (snd l)))]"

definition exact_level :: "level \<Rightarrow> bool" where
  "exact_level l \<longleftrightarrow> \<bar>fst l\<bar> < 2 ^ 52 \<and> \<bar>snd l\<bar> < 2 ^ 52"

lemma levelToStringPair_exact:
  "levelToStringPair (levelJson l) = ret (JArray [JString (doubleToString (scaled_double (fst l))), JString (doubleToString (scaled_double (snd l)))])"
  by (simp add: levelToStringPair_def levelJson_def json_access get_double_def)

lemma levels_exact:
  assumes "\<forall>l \<in> set ls. exact_level l"
  shows "bind_res (levelsToStringPairs (JArray (map levelJson ls))) jsonLevels = ret ls"
proof -
  let ?text = "\<lambda>l. (doubleToString (scaled_double (fst l)), doubleToString (scaled_double (snd l)))"
  have "map_res levelToStringPair (map levelJson ls) = ret (map (\<lambda>l. case ?text l of (p, q) \<Rightarrow> JArray [JString p, JString q]) ls)"
    by (induction ls) (simp_all add: levelToStringPair_exact)
  then have "levelsToStringPairs (JArray (map levelJson ls)) = ret (levelsJson (map ?text ls))"
    by (simp add: levelsToStringPairs_def json_access levelsJson_def comp_def)
  moreover have "map_exn parseLevel (map ?text ls) = Inr ls"
    using map_exn_map [of ls parseLevel ?text id] assms doubleToString_price
    by (simp add: parseLevel_def exact_level_def scaled_double_def)
  ultimately show ?thesis by (simp add: jsonLevels_pairs of_exn_def ret_def)
qed

text \<open>A message of the book channel with one element.\<close>

definition krakenItem :: "string \<Rightarrow> level list \<Rightarrow> level list \<Rightarrow> string \<Rightarrow> json" where
  "krakenItem krakenSym bids asks stamp = JObject [(''symbol'', JString krakenSym), (''bids'', JArray (map levelJson bids)),
     (''asks'', JArray (map levelJson asks)), (''timestamp'', JString stamp)]"

definition krakenMessage :: "string \<Rightarrow> json \<Rightarrow> json" where
  "krakenMessage ty item = JObject [(''channel'', JString ''book''), (''type'', JString ty), (''data'', JArray [item])]"

lemma krakenItem_fields:
  "const_at (krakenItem ks bids asks stamp) ''symbol'' = ret (JString ks)"
  "const_at (krakenItem ks bids asks stamp) ''bids'' = ret (JArray (map levelJson bids))"
  "const_at (krakenItem ks bids asks stamp) ''asks'' = ret (JArray (map levelJson asks))"
  "eventMsOf (krakenItem ks bids asks stamp) = isoTimestampToMs stamp"
  by (simp_all add: krakenItem_def json_access eventMsOf_def ret_def)

lemma krakenMessage_fields:
  "\<not> isSubscribeAck (krakenMessage ty item)" "bookData (krakenMessage ty item) = Some (ty, [item])"
  by (simp_all add: krakenMessage_def isSubscribeAck_def bookData_def json_access)

lemma side_exact:
  assumes "\<forall>l \<in> set ls. exact_level l" "const_at item k = ret (JArray (map levelJson ls))"
  obtains js where "bind_res (const_at item k) levelsToStringPairs = ret js" "jsonLevels js = ret ls"
  using levels_exact [OF assms(1)] assms(2) that unfolding ret_def by (auto simp: bind_res_ret)

lemma handleBookUpdate_exact:
  assumes ls: "\<forall>l \<in> set bids \<union> set asks. exact_level l"
    and c: "toCanonical (kr_normalizer K) ''kraken'' ks = Some c" "kr_books K c = Some b" "kr_metrics K c = Some m" "snapshotApplied b"
    and e: "isoTimestampToMs stamp = Some ms" "0 < ms" "in_ll (wall t - ms)"
    and run: "foldM (applyLevelChange Genuine True) ([], b) bids = Some (d1, b1)" "foldM (applyLevelChange Genuine False) (d1, b1) asks = Some (ds, b')"
  shows "handleBookUpdate t (krakenItem ks bids asks stamp) K = ret (if kr_callback K then [(c, ds, ms)] else [],
    kr_putMetrics c (recordUpdate t (m\<lparr>lastEventLagMs := wall t - ms\<rparr>)) (kr_putBook c b' K))"
proof -
  let ?item = "krakenItem ks bids asks stamp"
  obtain bj where bj: "bind_res (const_at ?item ''bids'') levelsToStringPairs = ret bj" "jsonLevels bj = ret bids"
    using side_exact [of bids ?item "''bids''"] ls by (auto simp: krakenItem_fields)
  obtain aj where aj: "bind_res (const_at ?item ''asks'') levelsToStringPairs = ret aj" "jsonLevels aj = ret asks"
    using side_exact [of asks ?item "''asks''"] ls by (auto simp: krakenItem_fields)
  have "applyDeltaJson b bj aj Genuine = ret (ds, b')" by (simp add: applyDeltaJson_def bj aj run ret_def)
  then show ?thesis
    by (simp add: handleBookUpdate_def krakenItem_fields(1,4) get_string_def bj aj c e ll_Some)
qed

lemma kr_update_handled:
  assumes "\<forall>l \<in> set bids \<union> set asks. exact_level l"
    and "toCanonical (kr_normalizer K) ''kraken'' ks = Some c" "kr_books K c = Some b" "kr_metrics K c = Some m" "snapshotApplied b"
    and "isoTimestampToMs stamp = Some ms" "0 < ms" "in_ll (wall t - ms)"
    and "foldM (applyLevelChange Genuine True) ([], b) bids = Some (d1, b1)" "foldM (applyLevelChange Genuine False) (d1, b1) asks = Some (ds, b')" "kr_callback K"
  shows "kr_handleWsMessage t (WsMessage sj (Some (krakenMessage ''update'' (krakenItem ks bids asks stamp)))) K = Some ([KrCallback c ds ms],
    K\<lparr>kr_activity := steady t, kr_books := (kr_books K)(c \<mapsto> b'),
      kr_metrics := (kr_metrics K)(c \<mapsto> recordUpdate t (m\<lparr>lastEventLagMs := wall t - ms\<rparr>))\<rparr>)"
proof -
  let ?K = "K\<lparr>kr_activity := steady t\<rparr>"
  have "handleBookUpdate t (krakenItem ks bids asks stamp) ?K = ret ([(c, ds, ms)],
      kr_putMetrics c (recordUpdate t (m\<lparr>lastEventLagMs := wall t - ms\<rparr>)) (kr_putBook c b' ?K))"
    using handleBookUpdate_exact [of bids asks ?K ks c b m stamp ms t d1 b1 ds b'] assms by simp
  then show ?thesis
    by (simp add: kr_handleWsMessage_def kr_message_def krakenMessage_fields handleItem_def ret_def)
qed

lemma handleBookSnapshot_exact:
  assumes ls: "\<forall>l \<in> set bids \<union> set asks. exact_level l"
    and c: "toCanonical (kr_normalizer K) ''kraken'' ks = Some c" "kr_books K c = Some b" "kr_metrics K c = Some m"
    and run: "loadSnapshot b 0 (filter (\<lambda>l. 0 < snd l) asks) (filter (\<lambda>l. 0 < snd l) bids) = Some b'"
  shows "handleBookSnapshot t (krakenItem ks bids asks stamp) K = ret (K\<lparr>kr_books := (kr_books K)(c \<mapsto> b'),
    kr_metrics := (kr_metrics K)(c \<mapsto> m\<lparr>lastUpdateTimeMs := steady t\<rparr>), pendingSnapshots := pendingSnapshots K - {c}\<rparr>)"
proof -
  let ?item = "krakenItem ks bids asks stamp"
  obtain bj where bj: "bind_res (const_at ?item ''bids'') levelsToStringPairs = ret bj" "jsonLevels bj = ret bids"
    using side_exact [of bids ?item "''bids''"] ls by (auto simp: krakenItem_fields)
  obtain aj where aj: "bind_res (const_at ?item ''asks'') levelsToStringPairs = ret aj" "jsonLevels aj = ret asks"
    using side_exact [of asks ?item "''asks''"] ls by (auto simp: krakenItem_fields)
  have "decodeSnapshot (krakenSnapshot bj aj) = ret (0, asks, bids)"
    using bj(2) aj(2) by (simp add: decodeSnapshot_def krakenSnapshot_def json_access wrap64_def ret_def)
  then have "applySnapshotJson b (krakenSnapshot bj aj) = ret b'" by (simp add: applySnapshotJson_def run ret_def)
  then show ?thesis
    by (simp add: handleBookSnapshot_def krakenItem_fields(1) get_string_def bj aj c)
qed

end
