(* ===== verification/Feed_Shape.thy ===== *)
theory Feed_Shape
  imports Binance_Run Binance_Start Kraken_Run
begin

text \<open>
  What a well-formed message of a feed looks like: which keys an object has, how long an
  array is, in which ranges its numbers lie. None of it mentions the decoders; a message of
  this shape makes no handler fault. The sources read objects with \<open>operator[]\<close> on a constant
  value, which is undefined for a missing key: that is why the keys are asked for. A value of
  another type is allowed everywhere, since reading it throws.
\<close>

section \<open>Computations that do not fault\<close>

definition res_ok :: "('a \<Rightarrow> bool) \<Rightarrow> 'a res \<Rightarrow> bool" where
  "res_ok P m \<longleftrightarrow> (case m of None \<Rightarrow> False | Some (Inl _) \<Rightarrow> True | Some (Inr x) \<Rightarrow> P x)"

lemma res_ok_simps [simp]:
  "res_ok P (ret x) = P x" "res_ok P (throw e)" "res_ok P (of_exn (Inl e))" "res_ok P (of_exn (Inr x)) = P x"
  "res_ok P (Some (Inr x)) = P x" "res_ok P (Some (Inl e))" "\<not> res_ok P None"
  by (simp_all add: res_ok_def ret_def throw_def of_exn_def)

lemma res_ok_bind: "res_ok P m \<Longrightarrow> (\<And>x. P x \<Longrightarrow> res_ok Q (f x)) \<Longrightarrow> res_ok Q (bind_res m f)"
proof (cases m)
  case (Some r)
  then show "res_ok P m \<Longrightarrow> (\<And>x. P x \<Longrightarrow> res_ok Q (f x)) \<Longrightarrow> res_ok Q (bind_res m f)" by (cases r) simp_all
qed simp

lemma res_ok_map: "\<forall>x \<in> set xs. res_ok P (f x) \<Longrightarrow> res_ok (\<lambda>ys. \<forall>y \<in> set ys. P y) (map_res f xs)"
proof (induction xs)
  case (Cons x xs)
  have x: "res_ok P (f x)" and xs: "res_ok (\<lambda>ys. \<forall>y \<in> set ys. P y) (map_res f xs)" using Cons by simp_all
  show ?case unfolding map_res.simps by (rule res_ok_bind [OF x], rule res_ok_bind [OF xs]) simp
qed simp

section \<open>Objects and numbers\<close>

definition keys_there :: "string list \<Rightarrow> json \<Rightarrow> bool" where
  "keys_there ks j \<longleftrightarrow> (case j of JObject kvs \<Rightarrow> list_all (\<lambda>k. k \<in> fst ` set kvs) ks | _ \<Rightarrow> True)"

definition field_ok :: "(json \<Rightarrow> bool) \<Rightarrow> json \<Rightarrow> string \<Rightarrow> bool" where
  "field_ok P j k \<longleftrightarrow> (case json_field j k of None \<Rightarrow> True | Some v \<Rightarrow> P v)"

text \<open>A number that converts to \<open>long long\<close>; only a floating-point one can fail to.\<close>

definition int_formed :: "json \<Rightarrow> bool" where
  "int_formed v \<longleftrightarrow> (case v of JFloat r \<Rightarrow> in_ll (trunc_rat r) | _ \<Rightarrow> True)"

lemma const_at_ok: "keys_there [k] j \<Longrightarrow> field_ok P j k \<Longrightarrow> res_ok P (const_at j k)"
  by (cases j) (auto simp: keys_there_def field_ok_def const_at_def json_field_def image_iff split: option.splits
      dest: weak_map_of_SomeI)

lemma keys_there_Cons: "keys_there (k # ks) j \<longleftrightarrow> keys_there [k] j \<and> keys_there ks j"
  by (simp add: keys_there_def split: json.split)

lemma wrap64_in_ll: "in_ll (wrap64 x)"
  by (simp add: wrap64_def in_ll_def int_limits)

lemma get_ll_ok: "int_formed v \<Longrightarrow> res_ok in_ll (get_ll v)"
proof -
  have "in_ll 0" "in_ll 1" by (simp_all add: in_ll_def int_limits)
  then show "int_formed v \<Longrightarrow> res_ok in_ll (get_ll v)"
    by (cases v) (simp_all add: get_ll_def int_formed_def ll_def wrap64_in_ll)
qed

section \<open>Levels as texts\<close>

text \<open>
  A price text that denotes a number denotes one from 0 to \<open>2^60\<close> units of \<open>10^-8\<close>, a quantity
  text one that is not negative; a level has both.
\<close>

definition price_text :: "string \<Rightarrow> bool" where
  "price_text s \<longleftrightarrow> (case parseDecimal s of Inl _ \<Rightarrow> True | Inr p \<Rightarrow> 0 \<le> p \<and> p \<le> 2 ^ 60)"

definition amount_text :: "string \<Rightarrow> bool" where
  "amount_text s \<longleftrightarrow> (case parseDecimal s of Inl _ \<Rightarrow> True | Inr q \<Rightarrow> 0 \<le> q)"

definition level_formed :: "json \<Rightarrow> bool" where
  "level_formed l \<longleftrightarrow> (case l of
       JArray xs \<Rightarrow> 2 \<le> length xs \<and> (\<forall>s. xs ! 0 = JString s \<longrightarrow> price_text s) \<and> (\<forall>s. xs ! 1 = JString s \<longrightarrow> amount_text s)
     | _ \<Rightarrow> True)"

definition levels_formed :: "json \<Rightarrow> bool" where
  "levels_formed v \<longleftrightarrow> (\<forall>l \<in> set (items v). level_formed l)"

lemma parsed_amount: "parseDecimal s = Inr q \<Longrightarrow> in_ll q"
  by (simp add: parseDecimal_denotes)

lemma get_string_ok: "(\<And>s. v = JString s \<Longrightarrow> P s) \<Longrightarrow> res_ok P (get_string v)"
  by (cases v) (simp_all add: get_string_def)

lemma price_ok: "price_text s \<Longrightarrow> res_ok (\<lambda>p. 0 \<le> p \<and> p \<le> 2 ^ 60) (of_exn (parseDecimal s))"
  by (cases "parseDecimal s") (simp_all add: price_text_def)

lemma amount_ok: "amount_text s \<Longrightarrow> res_ok amount (of_exn (parseDecimal s))"
  using parsed_amount [of s] by (cases "parseDecimal s") (auto simp: amount_text_def amount_def in_ll_def)

lemma jsonLevel_ok:
  assumes "level_formed l"
  shows "res_ok feed_ok (jsonLevel l)"
proof -
  define P where "P i s \<longleftrightarrow> (case l of JArray xs \<Rightarrow> xs ! i = JString s | _ \<Rightarrow> False)" for i s
  have idx: "res_ok (P i) (bind_res (const_idx l i) get_string)" if "i < 2" for i
  proof (cases l)
    case (JArray xs)
    then have "i < length xs" using assms that by (simp add: level_formed_def)
    then show ?thesis by (cases "xs ! i") (simp_all add: JArray const_idx_def get_string_def P_def)
  qed (simp_all add: const_idx_def)
  have texts: "P 0 s \<Longrightarrow> price_text s" "P 1 s \<Longrightarrow> amount_text s" for s
    using assms by (cases l; simp add: level_formed_def P_def)+
  show ?thesis unfolding jsonLevel_def
    by (rule res_ok_bind [OF idx], simp, rule res_ok_bind [OF price_ok], erule texts, rule res_ok_bind [OF idx], simp,
        rule res_ok_bind [OF amount_ok], erule texts) (simp add: feed_ok_def)
qed

lemma jsonLevels_ok: "levels_formed v \<Longrightarrow> res_ok (\<lambda>ls. \<forall>l \<in> set ls. feed_ok l) (jsonLevels v)"
  unfolding jsonLevels_def by (rule res_ok_map) (simp add: levels_formed_def jsonLevel_ok)

section \<open>Messages of Binance\<close>

definition update_formed :: "json \<Rightarrow> bool" where
  "update_formed j \<longleftrightarrow> keys_there [''U'', ''u'', ''a'', ''b''] j \<and> field_ok int_formed j ''U'' \<and> field_ok int_formed j ''u'' \<and>
     field_ok levels_formed j ''a'' \<and> field_ok levels_formed j ''b''"

text \<open>With an event time whose distance to the wall clock is a \<open>long long\<close>.\<close>

definition time_formed :: "instant \<Rightarrow> json \<Rightarrow> bool" where
  "time_formed t v \<longleftrightarrow> int_formed v \<and> (case get_ll v of Some (Inr e) \<Rightarrow> in_ll (wall t - e) | _ \<Rightarrow> True)"

definition message_formed :: "instant \<Rightarrow> json \<Rightarrow> bool" where
  "message_formed t j \<longleftrightarrow> update_formed j \<and> keys_there [''E''] j \<and> field_ok (time_formed t) j ''E''"

definition snapshot_formed :: "json \<Rightarrow> bool" where
  "snapshot_formed j \<longleftrightarrow> keys_there [''lastUpdateId'', ''asks'', ''bids''] j \<and> field_ok int_formed j ''lastUpdateId'' \<and>
     field_ok levels_formed j ''asks'' \<and> field_ok levels_formed j ''bids''"

definition ws_formed :: "instant \<Rightarrow> ws_event \<Rightarrow> bool" where
  "ws_formed t ev \<longleftrightarrow> (case ev of
      WsMessage sj nl \<Rightarrow>
        (\<forall>doc. sj = Some doc \<longrightarrow> field_ok (message_formed t) doc ''data'') \<and>
        (\<forall>d. Option.bind nl outerData = Some d \<longrightarrow> message_formed t d)
    | _ \<Rightarrow> True)"

definition http_formed :: "(string \<Rightarrow> http_response) \<Rightarrow> bool" where
  "http_formed http \<longleftrightarrow> (\<forall>url j. httpBody (http url) = Some j \<longrightarrow> snapshot_formed j)"

definition event_formed :: "bin_event \<Rightarrow> bool" where
  "event_formed e \<longleftrightarrow> (case e of
      Ws t ev \<Rightarrow> ws_formed t ev
    | StartFetch http _ _ \<Rightarrow> http_formed http
    | Attempt http _ \<Rightarrow> http_formed http
    | _ \<Rightarrow> True)"

lemma field_then: "keys_there [k] j \<Longrightarrow> field_ok P j k \<Longrightarrow> (\<And>v. P v \<Longrightarrow> res_ok Q (f v)) \<Longrightarrow> res_ok Q (bind_res (const_at j k) f)"
  by (rule res_ok_bind [of P], rule const_at_ok) simp_all

lemma ll_field: "keys_there [k] j \<Longrightarrow> field_ok int_formed j k \<Longrightarrow> res_ok in_ll (bind_res (const_at j k) get_ll)"
  by (rule field_then [of k j int_formed]) (simp_all add: get_ll_ok)

lemma levels_field: "keys_there [k] j \<Longrightarrow> field_ok levels_formed j k \<Longrightarrow>
    res_ok (\<lambda>ls. \<forall>l \<in> set ls. feed_ok l) (bind_res (const_at j k) jsonLevels)"
  by (rule field_then [of k j levels_formed]) (simp_all add: jsonLevels_ok)

lemma update_formed_safe:
  assumes "update_formed j"
  shows "update_safe j"
proof -
  have k: "keys_there [''U''] j" "keys_there [''u''] j" "keys_there [''a''] j" "keys_there [''b''] j"
    "field_ok int_formed j ''U''" "field_ok int_formed j ''u''" "field_ok levels_formed j ''a''" "field_ok levels_formed j ''b''"
    using assms unfolding update_formed_def keys_there_Cons [of _ "_ # _"] by blast+
  note ids = ll_field [OF k(1,5)] ll_field [OF k(2,6)]
  note levels = levels_field [OF k(3,7)] levels_field [OF k(4,8)]
  have "res_ok (\<lambda>(firstId, lastId, asks, bids). in_ll lastId \<and> (\<forall>l \<in> set asks \<union> set bids. feed_ok l)) (decodeUpdate j)"
    unfolding decodeUpdate_def
    by (rule res_ok_bind [OF ids(1)], rule res_ok_bind [OF ids(2)], rule res_ok_bind [OF levels(1)], rule res_ok_bind [OF levels(2)]) auto
  then show ?thesis by (simp only: update_safe_def res_ok_def)
qed

lemma snapshot_formed_safe:
  assumes "snapshot_formed j"
  shows "snapshot_safe j"
proof -
  have k: "keys_there [''lastUpdateId''] j" "keys_there [''asks''] j" "keys_there [''bids''] j"
    "field_ok int_formed j ''lastUpdateId''" "field_ok levels_formed j ''asks''" "field_ok levels_formed j ''bids''"
    using assms unfolding snapshot_formed_def keys_there_Cons [of _ "_ # _"] by blast+
  note parts = ll_field [OF k(1,4)] levels_field [OF k(2,5)] levels_field [OF k(3,6)]
  have "res_ok (\<lambda>(i, asks, bids). in_ll i \<and> (\<forall>l \<in> set asks \<union> set bids. feed_ok l)) (decodeSnapshot j)"
    unfolding decodeSnapshot_def
    by (rule res_ok_bind [OF parts(1)], rule res_ok_bind [OF parts(2)], rule res_ok_bind [OF parts(3)]) auto
  then show ?thesis by (simp only: snapshot_safe_def res_ok_def)
qed

lemma message_formed_lag:
  assumes "message_formed t j"
  shows "lag_ok t j"
proof -
  have k: "keys_there [''E''] j" "field_ok (time_formed t) j ''E''" using assms by (simp_all add: message_formed_def)
  have lag: "res_ok (\<lambda>e. in_ll (wall t - e)) (get_ll v)" if v: "time_formed t v" for v
  proof -
    have "res_ok in_ll (get_ll v)" using v by (simp add: time_formed_def get_ll_ok)
    then show ?thesis using v by (auto simp: time_formed_def res_ok_def split: option.splits sum.splits)
  qed
  have "res_ok (\<lambda>e. in_ll (wall t - e)) (bind_res (const_at j ''E'') get_ll)"
    by (rule field_then [of "''E''" j "time_formed t"]) (use k lag in simp_all)
  then show ?thesis by (simp add: lag_ok_def res_ok_def split: option.splits sum.splits)
qed

text \<open>The levels that simdjson reads are among those.\<close>

lemma sjLevel_feed: "level_formed l \<Longrightarrow> sjLevel l = Inr xs \<Longrightarrow> x \<in> set xs \<Longrightarrow> feed_ok x"
proof -
  assume f: "level_formed l" and s: "sjLevel l = Inr xs" and x: "x \<in> set xs"
  obtain arr where arr: "l = JArray arr" using s by (cases l) (simp_all add: sjLevel_def sjArray_def)
  have "\<exists>a b rest. arr = a # b # rest"
    using s x by (cases arr; cases "tl arr") (auto simp: sjLevel_def sjArray_def arr)
  then obtain a b rest where ab: "arr = a # b # rest" by blast
  obtain ps qs where t: "a = JString ps" "b = JString qs"
    using s by (cases a; cases b) (simp_all add: sjLevel_def sjArray_def sjString_def arr ab)
  then obtain p q where pq: "parseDecimal ps = Inr p" "parseDecimal qs = Inr q" "xs = [(p, q)]"
    using s by (cases "parseDecimal ps"; cases "parseDecimal qs") (simp_all add: sjLevel_def sjArray_def sjString_def arr ab)
  moreover have "price_text ps" "amount_text qs" using f by (simp_all add: level_formed_def arr ab t)
  ultimately show ?thesis using x parsed_amount [of qs q] by (simp add: price_text_def amount_text_def feed_ok_def amount_def in_ll_def)
qed

lemma sjLevels_feed:
  assumes "levels_formed v" "sjLevels v = Inr xs" "x \<in> set xs"
  shows "feed_ok x"
proof -
  obtain ls where v: "v = JArray ls" using assms(2) by (cases v) (simp_all add: sjLevels_def sjArray_def)
  then obtain xss where xss: "map_exn sjLevel ls = Inr xss" "xs = concat xss"
    using assms(2) by (cases "map_exn sjLevel ls") (simp_all add: sjLevels_def sjArray_def)
  obtain ys where ys: "ys \<in> set xss" "x \<in> set ys" using assms(3) xss(2) by auto
  then obtain i where "i < length ls" "sjLevel (ls ! i) = Inr ys"
    using xss(1) by (auto simp: map_exn_Inr list_all2_conv_all_nth in_set_conv_nth)
  moreover from this(1) have "level_formed (ls ! i)" using assms(1) by (simp add: levels_formed_def v items_def)
  ultimately show ?thesis using sjLevel_feed ys(2) by blast
qed

lemma message_formed_fast:
  assumes "field_ok (message_formed t) doc ''data''"
  shows "fast_safe t doc"
proof (cases "sjUpdate doc")
  case (Inr x)
  obtain e f l asks bids where x: "x = (e, f, l, asks, bids)" by (cases x) auto
  obtain d ve vu va vb vf where d: "json_field doc ''data'' = Some d" "json_field d ''E'' = Some ve" "sjInt64 ve = Inr e"
    "json_field d ''U'' = Some vf" "json_field d ''u'' = Some vu" "sjInt64 vu = Inr l" "json_field d ''a'' = Some va" "sjLevels va = Inr asks"
    "json_field d ''b'' = Some vb" "sjLevels vb = Inr bids"
    using Inr unfolding x by (auto simp: sjUpdate_def sjField_def split: if_splits option.splits)
  have m: "message_formed t d" using assms d(1) by (simp add: field_ok_def)
  then have "time_formed t ve" "levels_formed va" "levels_formed vb"
    using d(2,7,9) by (simp_all add: message_formed_def update_formed_def field_ok_def)
  moreover have "ve = JInt e" "in_ll e" "in_ll l" using d(3,6) by (auto simp: sjInt64_def split: json.splits if_splits)
  ultimately show ?thesis using sjLevels_feed [OF _ d(8)] sjLevels_feed [OF _ d(10)]
    by (auto simp: fast_safe_def Inr x time_formed_def get_ll_def ret_def wrap64_id)
qed (simp add: fast_safe_def)

text \<open>Well-formed events of the adapter do no harm.\<close>

lemma event_formed_safe: "event_formed e \<Longrightarrow> event_safe e"
proof -
  have "ws_safe t ev" if "ws_formed t ev" for t ev
    using that message_formed_fast message_formed_lag update_formed_safe
    by (cases ev) (auto simp: ws_formed_def ws_safe_def message_formed_def)
  moreover have "http_safe http" if "http_formed http" for http
    using that snapshot_formed_safe by (auto simp: http_formed_def http_safe_def)
  ultimately show "event_formed e \<Longrightarrow> event_safe e"
    by (cases e) (simp_all add: event_formed_def event_safe_def)
qed

text \<open>The messages of the exchange are well-formed.\<close>

lemma levelsJson_formed:
  assumes "map_exn parseLevel ls = Inr xs" "\<forall>l \<in> set xs. feed_ok l"
  shows "levels_formed (levelsJson ls)"
proof -
  have "level_formed (JArray [JString p, JString q])" if "(p, q) \<in> set ls" for p q
  proof -
    obtain i where i: "i < length ls" "ls ! i = (p, q)" using \<open>(p, q) \<in> set ls\<close> by (auto simp: in_set_conv_nth)
    then have "parseLevel (p, q) = Inr (xs ! i)" "xs ! i \<in> set xs"
      using assms(1) by (auto simp: map_exn_Inr list_all2_conv_all_nth)
    then obtain l where "parseLevel (p, q) = Inr l" "l \<in> set xs" by blast
    then show ?thesis using assms(2)
      by (cases "parseDecimal p"; cases "parseDecimal q")
        (auto simp: parseLevel_def level_formed_def price_text_def amount_text_def feed_ok_def amount_def)
  qed
  then show ?thesis by (auto simp: levels_formed_def levelsJson_def items_def)
qed

lemma streamMessage_formed:
  assumes "map_exn parseLevel (m_a msg) = Inr asks" "map_exn parseLevel (m_b msg) = Inr bids"
    "\<forall>l \<in> set asks \<union> set bids. feed_ok l" "in_ll e" "in_ll (wall t - e)"
  shows "event_formed (Ws t (WsMessage (Some (streamMessage stream e msg)) (Some (streamMessage stream e msg))))"
proof -
  have "levels_formed (levelsJson (m_a msg))" "levels_formed (levelsJson (m_b msg))"
    using levelsJson_formed [OF assms(1)] levelsJson_formed [OF assms(2)] assms(3) by simp_all
  then have "message_formed t (updateJson e msg)"
    using assms(4,5) by (simp add: message_formed_def update_formed_def updateJson_def keys_there_def field_ok_def json_field_def
        int_formed_def time_formed_def get_ll_def ret_def wrap64_id)
  then show ?thesis
    by (simp add: event_formed_def ws_formed_def outerData_message) (simp add: field_ok_def streamMessage_def json_field_def)
qed

section \<open>The operations of a book in any order\<close>

text \<open>
  The handlers of the threads are whole steps in this development, but each operation of a
  book is atomic by its own mutex: however those of several handlers mix, none faults.
\<close>

datatype book_op =
    OpUpdate json event_kind
  | OpLive int int "level list" "level list"
  | OpSnapshot json
  | OpClear

fun apply_op :: "orderbook \<Rightarrow> book_op \<Rightarrow> orderbook option" where
  "apply_op b (OpUpdate j kind) = (case applyUpdateJson b j kind of None \<Rightarrow> None | Some (Inl _) \<Rightarrow> Some b | Some (Inr (_, b')) \<Rightarrow> Some b')"
| "apply_op b (OpLive f l asks bids) = map_option snd (applyUpdateCore b f l asks bids Genuine)"
| "apply_op b (OpSnapshot j) = (case applySnapshotJson b j of None \<Rightarrow> None | Some (Inl _) \<Rightarrow> Some b | Some (Inr b') \<Rightarrow> Some b')"
| "apply_op b OpClear = Some (book_clear b)"

fun op_formed :: "book_op \<Rightarrow> bool" where
  "op_formed (OpUpdate j kind) \<longleftrightarrow> update_formed j"
| "op_formed (OpLive f l asks bids) \<longleftrightarrow> in_ll l \<and> (\<forall>x \<in> set asks \<union> set bids. feed_ok x)"
| "op_formed (OpSnapshot j) \<longleftrightarrow> snapshot_formed j"
| "op_formed OpClear \<longleftrightarrow> True"

lemma book_ops_never_fault:
  assumes "book_ok b" "\<forall>p \<in> set ops. op_formed p"
  shows "\<exists>b'. foldM apply_op b ops = Some b' \<and> book_ok b'"
proof -
  have "\<exists>b'. apply_op b p = Some b' \<and> book_ok b'" if "book_ok b" "op_formed p" for b p
  proof (cases p)
    case (OpUpdate j kind)
    then show ?thesis using applyUpdateJson_safe [OF that(1) update_formed_safe, of j kind] that by auto
  next
    case (OpLive f l asks bids)
    then show ?thesis using applyUpdateCore_total [of b l asks bids f Genuine] that by (auto simp: book_ok_def)
  next
    case (OpSnapshot j)
    then show ?thesis using applySnapshotJson_safe [OF that(1) snapshot_formed_safe, of j] that by auto
  qed (use that book_clear_ok in simp)
  then show ?thesis using assms by (induction ops arbitrary: b) fastforce+
qed

section \<open>Messages of Kraken\<close>

text \<open>A JSON number for an amount of at most \<open>n\<close> units of \<open>10^-8\<close>, not negative.\<close>

definition number_within :: "int \<Rightarrow> json \<Rightarrow> bool" where
  "number_within n v \<longleftrightarrow> (case get_double v of Some (Inr d) \<Rightarrow> 0 \<le> d \<and> d * 100000000 \<le> of_int n | _ \<Rightarrow> True)"

definition numbers_formed :: "json \<Rightarrow> bool" where
  "numbers_formed v \<longleftrightarrow> (\<forall>l \<in> set (items v). field_ok (number_within (2 ^ 60)) l ''price'' \<and> field_ok (number_within LLONG_MAX) l ''qty'')"

text \<open>A timestamp: no run of ten or more digits, and its distance to the wall clock is a \<open>long long\<close>.\<close>

fun short_numbers :: "string \<Rightarrow> bool" where
  "short_numbers [] \<longleftrightarrow> True"
| "short_numbers (c # s) \<longleftrightarrow> length (takeWhile is_digit (c # s)) \<le> 9 \<and> short_numbers s"

definition stamp_formed :: "instant \<Rightarrow> json \<Rightarrow> bool" where
  "stamp_formed t v \<longleftrightarrow> (case v of
      JString s \<Rightarrow> short_numbers s \<and> (case isoTimestampToMs s of Some e \<Rightarrow> 0 < e \<longrightarrow> in_ll (wall t - e) | None \<Rightarrow> True)
    | _ \<Rightarrow> True)"

definition item_formed :: "instant \<Rightarrow> json \<Rightarrow> bool" where
  "item_formed t item \<longleftrightarrow> keys_there [''symbol'', ''bids'', ''asks''] item \<and> field_ok numbers_formed item ''bids'' \<and>
     field_ok numbers_formed item ''asks'' \<and> field_ok (stamp_formed t) item ''timestamp''"

definition kr_event_formed :: "kr_event \<Rightarrow> bool" where
  "kr_event_formed e \<longleftrightarrow> (case e of
      KrWs t (WsMessage _ (Some j)) \<Rightarrow> (case bookData j of Some (typ, xs) \<Rightarrow> (\<forall>item \<in> set xs. item_formed t item) | None \<Rightarrow> True)
    | _ \<Rightarrow> True)"

lemma round_even_le: "x \<le> of_int n \<Longrightarrow> round_even x \<le> n"
proof -
  assume x: "x \<le> of_int n"
  then have f: "\<lfloor>x\<rfloor> \<le> n" by (metis floor_mono floor_of_int)
  show ?thesis
  proof (cases "\<lfloor>x\<rfloor> = n")
    case True
    then have "x = of_int n" using x of_int_floor_le [of x] by simp
    then show ?thesis by (simp add: round_even_def Let_def)
  qed (use f in \<open>auto simp: round_even_def Let_def\<close>)
qed

lemma number_text:
  assumes "number_within n v" "get_double v = Some (Inr d)" "n \<le> LLONG_MAX"
  shows "\<exists>x. parseDecimal (doubleToString d) = Inr x \<and> 0 \<le> x \<and> x \<le> n"
proof -
  have d: "0 \<le> d" "d * 100000000 \<le> of_int n" using assms(1,2) by (simp_all add: number_within_def)
  let ?r = "round_even (\<bar>d\<bar> * 100000000)"
  have r: "0 \<le> ?r" "?r \<le> n" using d by (simp_all add: round_even_mono0 round_even_le)
  then have "denotes (doubleToString d) ?r" using doubleToString_denotes [OF refl, of d] assms(3) d(1) by simp
  moreover have "in_ll ?r" using r assms(3) by (simp add: in_ll_def int_limits)
  ultimately show ?thesis using r by (auto simp: parseDecimal_denotes)
qed

text \<open>The pairs of texts that the adapter makes of the levels.\<close>

lemma get_double_ok: "res_ok (\<lambda>d. get_double v = Some (Inr d)) (get_double v)"
  by (cases v) (simp_all add: get_double_def ret_def)

lemma json_at_ok: "field_ok P l k \<Longrightarrow> res_ok P (json_at l k)"
  by (cases "json_field l k") (simp_all add: json_at_def field_ok_def)

lemma level_pair_ok:
  assumes "field_ok (number_within (2 ^ 60)) l ''price''" "field_ok (number_within LLONG_MAX) l ''qty''"
  shows "res_ok level_formed (levelToStringPair l)"
proof -
  have num: "res_ok (\<lambda>d. \<exists>x. parseDecimal (doubleToString d) = Inr x \<and> 0 \<le> x \<and> x \<le> n) (bind_res (json_at l k) get_double)"
    if "field_ok (number_within n) l k" "n \<le> LLONG_MAX" for n k
  proof (rule res_ok_bind [OF json_at_ok [OF that(1)]])
    show "res_ok (\<lambda>d. \<exists>x. parseDecimal (doubleToString d) = Inr x \<and> 0 \<le> x \<and> x \<le> n) (get_double v)" if "number_within n v" for v
      using get_double_ok [of v] number_text [OF that _ \<open>n \<le> LLONG_MAX\<close>] by (auto simp: res_ok_def split: option.splits sum.splits)
  qed
  have "(2::int) ^ 60 \<le> LLONG_MAX" by (simp add: int_limits)
  note p = num [OF assms(1) this] and q = num [OF assms(2) order_refl]
  show ?thesis unfolding levelToStringPair_def
    by (rule res_ok_bind [OF p], rule res_ok_bind [OF q]) (auto simp: level_formed_def price_text_def amount_text_def)
qed

lemma side_ok:
  assumes "keys_there [k] item" "field_ok numbers_formed item k"
  shows "levels_safe (bind_res (side_of item k) jsonLevels)"
proof -
  have "res_ok levels_formed (levelsToStringPairs v)" if "numbers_formed v" for v
  proof -
    have "res_ok (\<lambda>ys. \<forall>y \<in> set ys. level_formed y) (map_res levelToStringPair (items v))"
      by (rule res_ok_map) (use that level_pair_ok in \<open>simp add: numbers_formed_def\<close>)
    then show ?thesis unfolding levelsToStringPairs_def by (rule res_ok_bind) (simp add: levels_formed_def items_def)
  qed
  then have "res_ok levels_formed (side_of item k)" unfolding side_of_def by (rule field_then [OF assms])
  then have "res_ok (\<lambda>ls. \<forall>l \<in> set ls. feed_ok l) (bind_res (side_of item k) jsonLevels)" by (rule res_ok_bind) (rule jsonLevels_ok)
  then show ?thesis by (simp only: levels_safe_def res_ok_def)
qed

text \<open>A timestamp without long numbers is scanned without an overflow.\<close>

lemma short_iff: "short_numbers s \<longleftrightarrow> (\<forall>i. length (takeWhile is_digit (drop i s)) \<le> 9)"
proof (induction s)
  case (Cons c s)
  have "(\<forall>i. P i) \<longleftrightarrow> P 0 \<and> (\<forall>i. P (Suc i))" for P by (metis not0_implies_Suc)
  from this [of "\<lambda>i. length (takeWhile is_digit (drop i (c # s))) \<le> 9"] show ?case using Cons by (simp del: takeWhile.simps)
qed simp

lemma short_drop: "short_numbers s \<Longrightarrow> short_numbers (drop n s)"
  unfolding short_iff drop_drop by blast

lemma short_run: "short_numbers s \<Longrightarrow> length (takeWhile is_digit (drop i s)) \<le> 9"
  unfolding short_iff by blast

lemma run_take: "length (takeWhile P (take n xs)) \<le> length (takeWhile P xs)"
  by (induction xs arbitrary: n) (simp_all add: take_Cons')

lemma scanInt_short:
  assumes "short_numbers s" "scanInt w s = Some (v, s')"
  shows "- 2147483648 \<le> v \<and> v \<le> INT_MAX \<and> short_numbers s'"
proof -
  define s1 where "s1 = dropWhile is_blank s"
  define field where "field = (case w of None \<Rightarrow> s1 | Some n \<Rightarrow> take n s1)"
  define sgn :: nat where "sgn = (if take 1 field = ''-'' \<or> take 1 field = ''+'' then 1 else 0)"
  define ds where "ds = takeWhile is_digit (drop sgn field)"
  have v: "v = (if take 1 field = ''-'' then - digits_value ds else digits_value ds)" "s' = drop (sgn + length ds) s1"
    using assms(2) unfolding scanInt_def Let_def s1_def [symmetric] field_def [symmetric] sgn_def [symmetric] ds_def [symmetric]
    by (auto split: if_splits)
  have s1: "short_numbers s1" using short_drop [OF assms(1)] by (simp add: s1_def dropWhile_eq_drop)
  have "field = s1 \<or> (\<exists>n. field = take n s1)" by (cases w) (auto simp: field_def)
  then have "length ds \<le> length (takeWhile is_digit (drop sgn s1))" by (auto simp: ds_def drop_take run_take)
  then have len: "length ds \<le> 9" using short_run [OF s1, of sgn] by simp
  have all: "all_digits ds" by (auto simp: ds_def all_digits_def list_all_iff dest: set_takeWhileD)
  have "(10::int) ^ length ds \<le> 10 ^ 9" using len by (intro power_increasing) simp_all
  then have "0 \<le> digits_value ds" "digits_value ds \<le> 1000000000" using digits_value_bounds [OF all] by simp_all
  then show ?thesis using v short_drop [OF s1] by (auto simp: int_limits)
qed

lemma sscanf_short: "short_numbers s \<Longrightarrow> \<exists>vs. sscanf fs s = Some vs"
proof (induction fs s rule: sscanf.induct)
  case (2 c fs s)
  show ?case
  proof (cases s)
    case (Cons x s')
    have "short_numbers s'" using short_drop [OF "2.prems", of 1] by (simp add: Cons)
    then show ?thesis using 2 by (auto simp: Cons)
  qed simp
next
  case (3 w fs s)
  show ?case
  proof (cases "scanInt w s")
    case (Some r)
    obtain v s' where r: "r = (v, s')" by (cases r)
    note b = scanInt_short [OF "3.prems" Some [unfolded r]]
    have "\<exists>vs. sscanf fs s' = Some vs" by (rule "3.IH" [OF Some r [symmetric]]) (use b in auto)
    then show ?thesis using b by (auto simp: Some r)
  qed simp
qed simp

lemma isoTimestampToMs_short:
  assumes "short_numbers s"
  shows "\<exists>e. isoTimestampToMs s = Some e"
proof -
  have "short_numbers (takeWhile P s)" for P
  proof -
    obtain n where "takeWhile P s = take n s" using takeWhile_eq_take by blast
    then have "length (takeWhile is_digit (drop i (takeWhile P s))) \<le> length (takeWhile is_digit (drop i s))" for i
      by (simp add: drop_take run_take)
    from order_trans [OF this short_run [OF assms]] show ?thesis unfolding short_iff by blast
  qed
  then obtain vs where "sscanf isoFormat (takeWhile (\<lambda>c. c \<noteq> CHR 0x00) s) = Some vs" using sscanf_short by blast
  then show ?thesis by (simp add: isoTimestampToMs_def Let_def)
qed

lemma item_formed_safe:
  assumes "item_formed t item"
  shows "item_safe t item"
proof -
  have k: "keys_there [''symbol''] item" "keys_there [''bids''] item" "keys_there [''asks''] item"
    "field_ok numbers_formed item ''bids''" "field_ok numbers_formed item ''asks''" "field_ok (stamp_formed t) item ''timestamp''"
    using assms unfolding item_formed_def keys_there_Cons [of _ "_ # _"] by blast+
  have "field_ok (\<lambda>_. True) item ''symbol''" by (simp add: field_ok_def split: option.split)
  from const_at_ok [OF k(1) this] have "const_at item ''symbol'' \<noteq> None" unfolding res_ok_def by (auto split: option.splits)
  moreover have "\<exists>e. eventMsOf item = Some e \<and> (0 < e \<longrightarrow> in_ll (wall t - e))"
    using k(6) isoTimestampToMs_short
    by (fastforce simp: eventMsOf_def field_ok_def stamp_formed_def split: option.splits json.splits)
  ultimately show ?thesis using side_ok [OF k(2,4)] side_ok [OF k(3,5)] by (simp add: item_safe_def)
qed

lemma kr_event_formed_safe: "kr_event_formed e \<Longrightarrow> kr_event_safe e"
  using item_formed_safe
  by (fastforce simp: kr_event_formed_def kr_event_safe_def kr_safe_def split: kr_event.splits ws_event.splits option.splits)

text \<open>
  The keys are needed: an update of Kraken without \<open>bids\<close> reads a missing key of a constant
  object, and so does an update of Binance without \<open>U\<close>.
\<close>

lemma missing_key_undefined:
  "const_at (JObject [(''symbol'', JString ''BTC/USD''), (''asks'', JArray [])]) ''bids'' = None \<and>
   decodeUpdate (JObject [(''E'', JInt 1), (''u'', JInt 2), (''a'', JArray []), (''b'', JArray [])]) = None"
  by (simp_all add: const_at_def decodeUpdate_def)

end
