(* ===== verification/Binance_Properties.thy ===== *)
theory Binance_Properties
  imports Feed_Shape Example_Book
begin

text \<open>The properties of the Binance adapter, with their instances.\<close>

section \<open>A feed to try them on\<close>

definition demo_symbol :: string where
  "demo_symbol = ''BTC-USDT''"

definition demo_books :: "string \<rightharpoonup> orderbook" where
  "demo_books = [demo_symbol \<mapsto> demo_empty]"

definition demo_metrics :: "string \<rightharpoonup> metrics" where
  "demo_metrics = [demo_symbol \<mapsto> newMetrics]"

definition demo_new :: binance where
  "demo_new = \<lparr>updateIntervalMs = 100, bin_normalizer = defaultNormalizer, bin_canonical = Map.empty,
     bin_books = Map.empty, bin_metrics = Map.empty, symbolBuffers = (\<lambda>_. []), resyncQueue = [],
     wsConnected = False, lastActivity = 0, bin_depth = 1000, bin_symbols = [], hasCallback = True\<rparr>"

definition demo_feed :: binance where
  "demo_feed = snd (prepareStart [demo_symbol] demo_books demo_metrics 1000 demo_new)"

definition demo_time :: instant where
  "demo_time = \<lparr>steady = 1000, wall = 5000, elapsedUs = 7\<rparr>"

definition demo_rest :: "string \<Rightarrow> http_response" where
  "demo_rest url = \<lparr>statusCode = 200, retryAfter = None,
     httpBody = Some (snapshotJson \<lparr>s_lastUpdateId = 40, s_asks = [], s_bids = []\<rparr>)\<rparr>"

lemma demo_start: "prepareStart [demo_symbol] demo_books demo_metrics 1000 demo_new = (True, demo_feed)"
  by (simp add: demo_feed_def prepareStart_def demo_books_def demo_metrics_def Let_def)

lemma demo_empty_small: "book_small demo_empty"
proof -
  have "ladder_small demo_ladder" using demo_ladder_inv by (simp add: ladder_small_def)
  then show ?thesis by (simp add: book_small_sides demo_empty_def view_small_def)
qed

lemma demo_fresh: "fresh [demo_symbol] demo_books demo_metrics demo_new"
  by (simp add: fresh_def demo_new_def demo_books_def demo_metrics_def demo_empty_small newMetrics_def)

lemmas demo_prepared = start_law [OF demo_start demo_fresh]

lemma demo_ok: "bin_ok demo_feed"
  using demo_prepared(1) by (simp add: sys_ok_def prepared_def)

lemma demo_feed_fields:
  "bin_symbols demo_feed = [demo_symbol]" "resyncQueue demo_feed = []" "symbolBuffers demo_feed x = []"
  "bin_normalizer demo_feed = defaultNormalizer" "wsConnected demo_feed = False" "bin_depth demo_feed = 1000"
  by (simp_all add: demo_feed_def prepareStart_def demo_books_def demo_metrics_def Let_def demo_new_def)

lemma demo_rest_decodes: "decodeSnapshot (snapshotJson \<lparr>s_lastUpdateId = 40, s_asks = [], s_bids = []\<rparr>) = Some (Inr (40, [], []))"
  by (simp add: decodeSnapshot_def snapshotJson_def json_access jsonLevels_pairs of_exn_def ret_def wrap64_def)

lemma demo_rest_safe: "http_safe demo_rest"
  by (simp add: http_safe_def demo_rest_def snapshot_safe_def demo_rest_decodes in_ll_def int_limits)

lemma demo_rest_answers: "answered demo_rest url []"
  using demo_rest_decodes by (simp add: answered_def demo_rest_def)

section \<open>All threads\<close>

text \<open>
  C24: However the events of the web socket, the attempts of \<open>start\<close> and of the resync
  worker and the ticks of the watchdog follow each other, each message and each attempt
  handled as one step: no well-formed event faults, every one a thread waits for is handled.
  No buffer exceeds its bound, and the callback is only called for subscribed symbols, never
  with a \<open>Backfill\<close> delta. A message or snapshot is well-formed when its objects have the keys
  that are read, its levels both entries, its ids and event time fit a \<open>long long\<close> (the time
  also when subtracted from the clock), and the texts that are decimals denote prices from 0 to
  \<open>2^60\<close> and quantities that are not negative.
\<close>

theorem binance_never_stuck:
  assumes "prepareStart symbols bs ms depth A0 = (True, A)" "fresh symbols bs ms A0"
    "bin_run n (prepared A) es out S" "\<forall>e \<in> set es. event_formed e"
  shows "(\<forall>e. event_formed e \<and> enabled S e \<longrightarrow> (\<exists>out' S'. bin_step n S e out' S')) \<and>
    (\<forall>s. length (symbolBuffers (adp S) s) \<le> kMaxBufferedMsgsPerSymbol) \<and>
    (\<forall>s ds ts. Callback s ds ts \<in> set out \<longrightarrow> s \<in> set symbols \<and> (\<forall>d \<in> set ds. d_kind d \<noteq> Backfill))"
proof -
  note p = start_law [OF assms(1,2)]
  have safe: "\<forall>e \<in> set es. event_safe e" using assms(4) event_formed_safe by blast
  note r = run_law [OF assms(3) p(1) safe]
  have S: "sys_ok S" and ok: "bin_ok (adp S)" using r by (simp_all add: sys_ok_def)
  moreover have "good_calls (prepared A) out" using r by blast
  ultimately show ?thesis
    using step_total [OF S event_formed_safe] bin_okD(7) [OF ok] p(2) unfolding good_calls_def prepared_def by auto
qed

text \<open>In the example the events are a connection and an update of the book.\<close>

definition demo_update :: json where
  "demo_update = streamMessage ''btcusdt@depth@100ms'' 4000 \<lparr>m_U = 1, m_u = 2, m_a = [(''12.5'', ''0.4'')], m_b = []\<rparr>"

lemma demo_update_formed: "event_formed (Ws demo_time (WsMessage (Some demo_update) (Some demo_update)))"
proof -
  have "map_exn parseLevel [(''12.5'', ''0.4'')] = Inr [(1250000000, 40000000)]" by code_simp
  then show ?thesis unfolding demo_update_def
    by (intro streamMessage_formed [of _ "[(1250000000, 40000000)]" "[]"])
      (simp_all add: feed_ok_def amount_def in_ll_def int_limits demo_time_def)
qed

lemma binance_never_stuck_demo:
  "\<exists>S out' S'. bin_run 5 (prepared demo_feed) [Ws demo_time WsOpen] [] S \<and>
     bin_step 5 S (Ws demo_time (WsMessage (Some demo_update) (Some demo_update))) out' S'"
proof -
  let ?S = "(prepared demo_feed)\<lparr>adp := demo_feed\<lparr>lastActivity := 1000, wsConnected := True\<rparr>\<rparr>"
  have "handleWsMessage demo_time WsOpen demo_feed = Some ([], demo_feed\<lparr>lastActivity := 1000, wsConnected := True\<rparr>)"
    by (simp add: handleWsMessage_def onOpen_def demo_feed_fields demo_time_def)
  then have "bin_step 5 (prepared demo_feed) (Ws demo_time WsOpen) [] ?S"
    using bin_step.ws [of demo_time WsOpen "prepared demo_feed" "[]" _ 5] by (simp add: prepared_def)
  from bin_run.more [OF this bin_run.nothing] have r: "bin_run 5 (prepared demo_feed) [Ws demo_time WsOpen] [] ?S" by simp
  have safe: "\<forall>e \<in> set [Ws demo_time WsOpen]. event_formed e" by (simp add: event_formed_def ws_formed_def)
  have "enabled ?S (Ws demo_time (WsMessage (Some demo_update) (Some demo_update)))" by (simp add: enabled_def)
  with binance_never_stuck [OF demo_start demo_fresh r safe] demo_update_formed r show ?thesis by blast
qed

text \<open>
  C25: No symbol is forgotten: as long as nobody asks the threads to stop, once \<open>start\<close> has
  succeeded every subscribed symbol has a book with a snapshot, or waits in the resync
  queue, or is being resynced, or was given up after all its attempts.
\<close>

theorem no_symbol_forgotten:
  assumes "prepareStart symbols bs ms depth A0 = (True, A)" "fresh symbols bs ms A0"
    "bin_run n (prepared A) es out S" "\<forall>e \<in> set es. event_safe e \<and> no_stop e" "starting S = Started True" "s \<in> set symbols"
  shows "has_book (adp S) s \<or> s \<in> set (resyncQueue (adp S)) \<or> (\<exists>k. resyncer S = Trying s k) \<or> GaveUp s \<in> set out"
proof -
  note p = start_law [OF assms(1,2)]
  have safe: "\<forall>e \<in> set es. event_safe e" and stop: "\<forall>e \<in> set es. no_stop e" using assms(4) by simp_all
  note r = run_law [OF assms(3) p(1) safe, of "[]"]
  have "remembered out S" using r stop p(4) by simp
  moreover have "bin_symbols (adp S) = symbols" using r p(2) by (simp add: same_setup_def prepared_def)
  ultimately show ?thesis using assms(5,6) by (auto simp: remembered_def awaited_def)
qed

lemma no_symbol_forgotten_demo:
  "\<exists>out S. bin_run 5 (prepared demo_feed) [Ws demo_time WsOpen, Connect True, StartFetch demo_rest False False] out S \<and>
     starting S = Started True \<and> (has_book (adp S) demo_symbol \<or> demo_symbol \<in> set (resyncQueue (adp S)) \<or>
       (\<exists>k. resyncer S = Trying demo_symbol k) \<or> GaveUp demo_symbol \<in> set out)"
proof -
  let ?es = "[Ws demo_time WsOpen, Connect True, StartFetch demo_rest False False]"
  let ?A = "demo_feed\<lparr>lastActivity := 1000, wsConnected := True\<rparr>"
  let ?S1 = "(prepared demo_feed)\<lparr>adp := ?A\<rparr>"
  let ?S2 = "?S1\<lparr>starting := Fetching [demo_symbol] 1 True, resyncer := Waiting\<rparr>"
  have "handleWsMessage demo_time WsOpen demo_feed = Some ([], ?A)"
    by (simp add: handleWsMessage_def onOpen_def demo_feed_fields demo_time_def)
  then have 1: "bin_step 5 (prepared demo_feed) (Ws demo_time WsOpen) [] ?S1"
    using bin_step.ws [of demo_time WsOpen "prepared demo_feed" "[]" ?A 5] by (simp add: prepared_def)
  have 2: "bin_step 5 ?S1 (Connect True) [] ?S2"
    by (rule bin_step.connect_ok) (simp_all add: prepared_def connectStart_def demo_feed_fields)
  have A: "bin_ok ?A" using demo_ok by (simp add: bin_ok_def has_book_def is_live_def)
  obtain ok A' where f: "fetchAndApplySnapshot demo_rest (binanceName (bin_normalizer ?A) demo_symbol) demo_symbol ?A = Some (ok, A')"
    "fetched demo_symbol ok ?A A'"
    "ok \<longleftrightarrow> answered demo_rest (snapshotUrl (binanceName (bin_normalizer ?A) demo_symbol) ?A) (symbolBuffers ?A demo_symbol)"
    by (rule fetch_exact [OF A _ demo_rest_safe]) (simp add: demo_feed_fields)
  then have "ok" by (simp add: demo_feed_fields demo_rest_answers)
  with f(1) have "startAttempt 5 demo_rest False False demo_symbol [] 1 True ?A = Some (Started True, A')"
    by (simp add: startAttempt_def)
  then have 3: "bin_step 5 ?S2 (StartFetch demo_rest False False) [] (?S2\<lparr>adp := A', starting := Started True\<rparr>)"
    by (intro bin_step.start_fetch) (simp_all add: prepared_def)
  let ?S3 = "?S2\<lparr>adp := A', starting := Started True\<rparr>"
  have r: "bin_run 5 (prepared demo_feed) ?es [] ?S3"
    using bin_run.more [OF 1 bin_run.more [OF 2 bin_run.more [OF 3 bin_run.nothing]]] by simp
  have safe: "\<forall>e \<in> set ?es. event_safe e \<and> no_stop e"
    by (simp add: event_safe_def ws_safe_def demo_rest_safe no_stop_def)
  have "starting ?S3 = Started True" "demo_symbol \<in> set [demo_symbol]" by simp_all
  note kept = no_symbol_forgotten [OF demo_start demo_fresh r safe this]
  show ?thesis by (intro exI conjI) (rule r, simp, rule kept)
qed

section \<open>Resynchronisation\<close>

text \<open>
  C26: An attempt to fetch a snapshot succeeds exactly when the service answers with status
  200 and a body that decodes, and the ids of the buffered messages connect to the
  snapshot's. It then leaves the symbol live, with a snapshot and an empty buffer; in any
  case it touches no other symbol and costs no book its snapshot.
\<close>

theorem fetch_succeeds_iff:
  assumes "bin_ok A" "s \<in> set (bin_symbols A)" "http_safe http"
  shows "\<exists>ok A'. fetchAndApplySnapshot http x s A = Some (ok, A') \<and>
    (ok \<longleftrightarrow> answered http (snapshotUrl x A) (symbolBuffers A s)) \<and>
    (ok \<longrightarrow> has_book A' s \<and> is_live A' s \<and> symbolBuffers A' s = []) \<and>
    (\<forall>y. y \<noteq> s \<longrightarrow> bin_books A' y = bin_books A y \<and> symbolBuffers A' y = symbolBuffers A y) \<and>
    (\<forall>y. has_book A y \<longrightarrow> has_book A' y)"
proof -
  obtain ok A' where f: "fetchAndApplySnapshot http x s A = Some (ok, A')" "fetched s ok A A'"
    "ok \<longleftrightarrow> answered http (snapshotUrl x A) (symbolBuffers A s)"
    by (rule fetch_exact [OF assms])
  moreover have "s \<in> dom (bin_metrics A)" using bin_okD(2) [OF assms(1,2)] by auto
  ultimately show ?thesis by (auto simp: fetched_def)
qed

lemma fetch_succeeds_iff_demo:
  "\<exists>A'. fetchAndApplySnapshot demo_rest ''BTCUSDT'' demo_symbol demo_feed = Some (True, A') \<and> is_live A' demo_symbol"
proof -
  have s: "demo_symbol \<in> set (bin_symbols demo_feed)" by (simp add: demo_feed_fields)
  from fetch_succeeds_iff [OF demo_ok s demo_rest_safe, of "''BTCUSDT''"] show ?thesis
    by (auto simp: demo_feed_fields demo_rest_answers)
qed



text \<open>
  C28: The resync worker brings symbols back: when among any \<open>maxRetries\<close> consecutive
  attempts for a queued symbol the service gives one good answer (status 200, a snapshot
  the buffered messages connect to), every symbol of the queue is live again when the
  worker rests.
\<close>

theorem resync_recovers:
  assumes "bin_ok A" "\<forall>j. http_safe (https j)" "1 \<le> n"
    "\<forall>s \<in> set (resyncQueue A). \<forall>j. \<exists>d < nat n. good_answer A (https (j + d)) s"
  shows "\<exists>out i A'. workerRun n https 0 Waiting A = Some (out, i, Waiting, A') \<and>
    (\<forall>s \<in> set (resyncQueue A). is_live A' s \<and> has_book A' s)"
proof -
  let ?Q = "set (resyncQueue A)"
  have sub: "?Q \<subseteq> set (bin_symbols A)" using bin_okD(4) [OF assms(1)] by blast
  obtain out i A' where r: "workerRun n https 0 Waiting A = Some (out, i, Waiting, A')" "since A A'"
    "\<forall>x. is_live A x \<or> x \<in> ?Q \<or> (\<exists>k. Waiting = Trying x k) \<longrightarrow> is_live A' x"
    using workerRun_live [of https n ?Q A A Waiting 0, OF _ assms(3) _ since_refl [OF assms(1)] _ sub] assms(2,4) by auto
  have "has_book A' s" if "s \<in> ?Q" for s
    using r(2,3) that sub by (auto simp: since_def bin_ok_parts same_setup_def)
  with r show ?thesis by blast
qed

lemma resync_recovers_demo:
  "\<exists>out i A'. workerRun 5 (\<lambda>_. demo_rest) 0 Waiting (demo_feed\<lparr>resyncQueue := [demo_symbol]\<rparr>) = Some (out, i, Waiting, A')
     \<and> is_live A' demo_symbol"
proof -
  let ?A = "demo_feed\<lparr>resyncQueue := [demo_symbol]\<rparr>"
  have "bin_ok ?A" using demo_ok by (simp add: bin_ok_def has_book_def is_live_def demo_feed_fields)
  moreover have "\<forall>s \<in> set (resyncQueue ?A). \<forall>j. \<exists>d < nat 5. good_answer ?A demo_rest s"
    by (auto simp: good_answer_def demo_feed_fields demo_rest_answers intro!: exI [of _ 0])
  ultimately show ?thesis using resync_recovers [of ?A "\<lambda>_. demo_rest" 5] by (auto simp: demo_rest_safe)
qed

text \<open>
  C29: A reconnect discards everything: all subscribed symbols lose their buffered messages
  and their books, are no longer live, have their data age and order-flow accumulators set
  back, and are queued for a new snapshot.
\<close>

theorem reconnect_discards:
  assumes "bin_ok A" "wsConnected A" "s \<in> set (bin_symbols A)"
  shows "\<exists>A' b m. handleWsMessage t WsOpen A = Some ([], A') \<and> bin_books A' s = Some b \<and> bin_metrics A' s = Some m \<and>
    \<not> snapshotApplied b \<and> lastUpdateId b = 0 \<and> (\<forall>side p. qty_at (sideLadder side b) p = 0) \<and>
    symbolBuffers A' s = [] \<and> \<not> liveReady m \<and> lastUpdateTimeMs m = 0 \<and> ofiAccumulator m = 0 \<and> s \<in> set (resyncQueue A')"
proof -
  let ?A = "A\<lparr>lastActivity := steady t\<rparr>" and ?A' = "onOpen (A\<lparr>lastActivity := steady t\<rparr>)"
  have ok: "bin_ok ?A" "wsConnected ?A" "s \<in> set (bin_symbols ?A)" using assms by simp_all
  note r = reconnect_law [OF ok(1,2)]
  have A': "bin_ok ?A'" "s \<in> set (bin_symbols ?A')" using r(1) ok(3) by (simp_all add: ws_handled_def same_setup_def)
  obtain b m where e: "bin_books ?A' s = Some b" "bin_metrics ?A' s = Some m" using bin_okD(1,2) [OF A'] by blast
  note d = r(3) [OF ok(3)]
  then obtain b0 where b0: "b = book_clear b0" using e(1) by (auto simp: discarded_def)
  have inv: "ladder_inv (sideLadder side b)" for side
    using bin_okD(5) [OF A'(1) e(1)] by (auto simp: book_ok_def book_small_def ladder_small_def)
  have "qty_at (sideLadder side b) p = 0" for side p
  proof -
    have "sideLadder side b = ladder_clear (sideLadder side b0)" by (cases side) (simp_all add: b0 book_clear_def)
    moreover have "ladder_clear (ladder_clear L) = ladder_clear L" for L by (simp add: ladder_clear_def)
    ultimately have "sideLadder side b = ladder_clear (sideLadder side b)" by metis
    with clear_law(2) [OF inv] show ?thesis by metis
  qed
  moreover have "lastUpdateId b = 0" by (simp add: b0 book_clear_def)
  moreover have "handleWsMessage t WsOpen A = Some ([], ?A')" by (simp add: handleWsMessage_def)
  ultimately show ?thesis
    using d e by (intro exI [of _ ?A'] exI [of _ b] exI [of _ m]) (simp add: discarded_def silenced_def has_book_def)
qed

lemma reconnect_discards_demo:
  "\<exists>A'. handleWsMessage demo_time WsOpen (demo_feed\<lparr>wsConnected := True\<rparr>) = Some ([], A') \<and> demo_symbol \<in> set (resyncQueue A')"
proof -
  have ok: "bin_ok (demo_feed\<lparr>wsConnected := True\<rparr>)" using demo_ok by (simp add: bin_ok_def has_book_def is_live_def)
  have "wsConnected (demo_feed\<lparr>wsConnected := True\<rparr>)" "demo_symbol \<in> set (bin_symbols (demo_feed\<lparr>wsConnected := True\<rparr>))"
    by (simp_all add: demo_feed_fields)
  from reconnect_discards [OF ok this, of demo_time] show ?thesis by blast
qed

section \<open>Messages\<close>

text \<open>
  C30: The fast path of the message handler is the slow path: on an update of a subscribed
  symbol whose snapshot is there, the handler gives the same callback and the same state
  whether the symbol is already live (read with simdjson) or becomes live with this message
  (read with nlohmann::json).
\<close>

theorem paths_agree:
  assumes "in_ll e" "in_ll (m_U msg)" "in_ll (m_u msg)"
    "map_exn parseLevel (m_a msg) = Inr asks" "map_exn parseLevel (m_b msg) = Inr bids"
    "bin_canonical A (streamToSymbol stream) = Some s" "bin_books A s = Some b" "bin_metrics A s = Some m"
    "snapshotApplied b" "\<not> liveReady m" "doc = streamMessage stream e msg"
  shows "handleWsMessage t (WsMessage (Some doc) (Some doc)) A
    = handleWsMessage t (WsMessage (Some doc) (Some doc)) (putMetrics s (m\<lparr>liveReady := True\<rparr>) A)"
proof -
  let ?A = "A\<lparr>lastActivity := steady t\<rparr>"
  let ?L = "putMetrics s (m\<lparr>liveReady := True\<rparr>) ?A"
  have stream: "bind_exn (sjField doc ''stream'') sjString = Inr stream"
    by (simp add: assms(11) streamMessage_def sjField_def json_access sjString_def)
  have "routeMessage (Some doc) ?A = Some (doc, s, b, m)" "routeMessage (Some doc) ?L = Some (doc, s, b, m\<lparr>liveReady := True\<rparr>)"
    using assms(6-8) by (simp_all add: routeMessage_def stream)
  then have "handleMessage t (Some doc) (Some doc) ?A = handleMessage t (Some doc) (Some doc) ?L"
    using paths_same [OF assms(1-5,9), of t s m stream ?A] assms(10,11) by (simp add: handleMessage_def)
  moreover have "?L = (putMetrics s (m\<lparr>liveReady := True\<rparr>) A)\<lparr>lastActivity := steady t\<rparr>"
    by (rule binance.equality) simp_all
  ultimately show ?thesis unfolding handleWsMessage_def ws_event.case by (simp only:)
qed

definition demo_message :: update_msg where
  "demo_message = \<lparr>m_U = 41, m_u = 42, m_a = [(''0.0000001'', ''5'')], m_b = []\<rparr>"

definition demo_waiting :: binance where
  "demo_waiting = demo_feed\<lparr>bin_books := [demo_symbol \<mapsto> demo_book], bin_metrics := [demo_symbol \<mapsto> newMetrics],
     bin_canonical := [''BTCUSDT'' \<mapsto> demo_symbol]\<rparr>"

lemma paths_agree_demo:
  "let doc = streamMessage ''BTCUSDT@depth'' 4000 demo_message
   in handleWsMessage demo_time (WsMessage (Some doc) (Some doc)) demo_waiting
    = handleWsMessage demo_time (WsMessage (Some doc) (Some doc)) (putMetrics demo_symbol (newMetrics\<lparr>liveReady := True\<rparr>) demo_waiting)"
proof -
  have ll: "in_ll 4000" "in_ll (m_U demo_message)" "in_ll (m_u demo_message)"
    by (simp_all add: demo_message_def in_ll_def int_limits)
  have texts: "map_exn parseLevel (m_a demo_message) = Inr [(10, 500000000)]" "map_exn parseLevel (m_b demo_message) = Inr []"
    by (simp_all add: demo_message_def) code_simp
  have "streamToSymbol ''BTCUSDT@depth'' = ''BTCUSDT''" by code_simp
  then have e: "bin_canonical demo_waiting (streamToSymbol ''BTCUSDT@depth'') = Some demo_symbol"
    "bin_books demo_waiting demo_symbol = Some demo_book" "bin_metrics demo_waiting demo_symbol = Some newMetrics"
    "snapshotApplied demo_book" "\<not> liveReady newMetrics"
    by (simp_all add: demo_waiting_def demo_book_def newMetrics_def)
  show ?thesis unfolding Let_def by (rule paths_agree [OF ll texts e refl])
qed

text \<open>
  C31: The streams that \<open>start\<close> subscribes to lead back to their symbols: when no two
  symbols have the same Binance name, a message of the stream of a symbol is for that symbol.
\<close>

theorem streams_lead_back:
  assumes "prepareStart symbols bs ms depth A0 = (True, A)" "bin_normalizer A0 = defaultNormalizer"
    "distinct (map (filter (\<lambda>c. c \<noteq> CHR ''-'')) symbols)" "s \<in> set symbols" "map to_upper s = s" "CHR ''@'' \<notin> set s"
  shows "bin_canonical A (streamToSymbol (streamName A s)) = Some s"
proof -
  have name: "binanceName defaultNormalizer x = filter (\<lambda>c. c \<noteq> CHR ''-'') x" for x
    by (simp add: binanceName_def fromCanonical_def defaultNormalizer_def)
  obtain M where reg: "registerSymbols defaultNormalizer bs ms symbols Map.empty = (True, M)" "bin_canonical A = M"
    "bin_normalizer A = defaultNormalizer"
    using assms(1,2) by (auto simp: prepareStart_def Let_def split: prod.splits if_splits)
  have "map to_upper (filter P s) = filter P s" for P
    using assms(5) by (induction s) auto
  then have up: "map to_upper (binanceName defaultNormalizer s) = binanceName defaultNormalizer s" by (simp add: name)
  have "CHR ''@'' \<notin> set (binanceName defaultNormalizer s)" using assms(6) by (simp add: name)
  from streamToSymbol_name [OF this] have "streamToSymbol (streamName A s) = binanceName defaultNormalizer s"
    by (simp add: streamName_def reg(3) up)
  moreover have "distinct (map (binanceName defaultNormalizer) symbols)" using assms(3) by (simp add: name [abs_def])
  ultimately show ?thesis using registerSymbols_get [OF reg(1)] assms(4) reg(2) by simp
qed

lemma streams_lead_back_demo: "bin_canonical demo_feed (streamToSymbol (streamName demo_feed demo_symbol)) = Some demo_symbol"
proof -
  have "map to_upper demo_symbol = demo_symbol" "CHR ''@'' \<notin> set demo_symbol" by code_simp+
  then show ?thesis by (intro streams_lead_back [OF demo_start]) (simp_all add: demo_new_def)
qed

text \<open>
  Two symbols can share a name: the stream of the first then leads to the second, and the
  first never gets a message.
\<close>

lemma shared_stream_name:
  "\<exists>A. prepareStart [''BN-BUSD'', ''BNB-USD''] (\<lambda>_. Some demo_empty) (\<lambda>_. Some newMetrics) 1000 demo_new = (True, A) \<and>
     bin_canonical A (streamToSymbol (streamName A ''BN-BUSD'')) = Some ''BNB-USD''"
proof -
  have n: "binanceName defaultNormalizer ''BN-BUSD'' = ''BNBUSD''" "binanceName defaultNormalizer ''BNB-USD'' = ''BNBUSD''"
    by (simp_all add: binanceName_def fromCanonical_def defaultNormalizer_def)
  have u: "map to_upper ''BNBUSD'' = ''BNBUSD''" by code_simp
  define A where "A = snd (prepareStart [''BN-BUSD'', ''BNB-USD''] (\<lambda>_. Some demo_empty) (\<lambda>_. Some newMetrics) 1000 demo_new)"
  have A: "prepareStart [''BN-BUSD'', ''BNB-USD''] (\<lambda>_. Some demo_empty) (\<lambda>_. Some newMetrics) 1000 demo_new = (True, A)"
    "bin_canonical A = [''BNBUSD'' \<mapsto> ''BNB-USD'']" "bin_normalizer A = defaultNormalizer"
    by (simp_all add: A_def prepareStart_def demo_new_def n Let_def)
  have "CHR ''@'' \<notin> set ''BNBUSD''" by simp
  from streamToSymbol_name [OF this] have "streamToSymbol (streamName A ''BN-BUSD'') = ''BNBUSD''"
    unfolding streamName_def A(3) n u .
  then show ?thesis using A(1,2) by simp
qed

end
