(* ===== verification/Kraken_Properties.thy ===== *)
theory Kraken_Properties
  imports Feed_Shape Example_Book
begin

text \<open>The properties of the Kraken adapter, with their instances.\<close>

section \<open>A feed to try them on\<close>

definition kr_demo_books :: "string \<rightharpoonup> orderbook" where
  "kr_demo_books = [''BTC-USD'' \<mapsto> demo_empty]"

definition kr_demo_metrics :: "string \<rightharpoonup> metrics" where
  "kr_demo_metrics = [''BTC-USD'' \<mapsto> newMetrics]"

definition kr_demo_new :: kraken where
  "kr_demo_new = newKraken\<lparr>kr_callback := True\<rparr>"

definition kr_demo :: kraken where
  "kr_demo = snd (kr_prepare [''BTC-USD''] kr_demo_books kr_demo_metrics 30 kr_demo_new)"

definition kr_demo_time :: instant where
  "kr_demo_time = \<lparr>steady = 1000, wall = 1700000000123, elapsedUs = 7\<rparr>"

definition kr_demo_stamp :: string where
  "kr_demo_stamp = isoText 2023 11 14 22 13 20 100000"

lemma kr_demo_start: "kr_prepare [''BTC-USD''] kr_demo_books kr_demo_metrics 30 kr_demo_new = (True, kr_demo)"
  by (simp add: kr_demo_def kr_prepare_def kr_demo_new_def newKraken_def kr_demo_books_def kr_demo_metrics_def
      fromCanonical_def defaultNormalizer_def)

lemma kr_demo_fresh: "kr_fresh kr_demo_books kr_demo_metrics"
proof -
  have "ladder_small demo_ladder" using demo_ladder_inv by (simp add: ladder_small_def)
  then have "book_small demo_empty" by (simp add: book_small_sides demo_empty_def view_small_def)
  then show ?thesis by (simp add: kr_fresh_def kr_demo_books_def kr_demo_metrics_def newMetrics_def)
qed

lemmas kr_demo_law = kr_start_law [OF kr_demo_start kr_demo_fresh]

lemma kr_demo_fields:
  "kr_symbols kr_demo = [''BTC-USD'']" "kr_books kr_demo ''BTC-USD'' = Some (book_clear demo_empty)"
  "kr_metrics kr_demo ''BTC-USD'' = Some (newMetrics\<lparr>lastUpdateTimeMs := 0\<rparr>)" "pendingSnapshots kr_demo = {''BTC-USD''}"
  "kr_normalizer kr_demo = defaultNormalizer" "kr_connected kr_demo = False" "kr_callback kr_demo" "subscribeError kr_demo = False"
  by (simp_all add: kr_demo_def kr_prepare_def kr_demo_new_def newKraken_def kr_demo_books_def kr_demo_metrics_def
      fromCanonical_def defaultNormalizer_def kr_startMetrics_def)

lemma kr_demo_name: "toCanonical defaultNormalizer ''kraken'' ''BTC/USD'' = Some ''BTC-USD''"
  by (simp add: toCanonical_def defaultNormalizer_def krakenToCanonical_def)

section \<open>Numbers\<close>

text \<open>
  A price or quantity of Kraken survives its detour over a double and a text: the
  double next to any decimal with eight fractional digits below \<open>2^52 / 10^8\<close> is printed
  and parsed to exactly that decimal.
\<close>

lemma kraken_number_roundtrip:
  assumes "\<bar>p\<bar> < 2 ^ 52"
  shows "parseDecimal (doubleToString (to_double (of_int p / 100000000))) = Inr p"
  by (rule doubleToString_price [OF assms])

lemma kraken_number_roundtrip_instance:
  "parseDecimal (doubleToString (to_double (of_int 6789012345678 / 100000000))) = Inr 6789012345678"
  by (rule kraken_number_roundtrip) simp

text \<open>
  C34: The timestamp of a message is read exactly: the text of the \<open>n\<close>-th day after
  1970-01-01 (counted day by day through the calendar) at a time of day gives the
  milliseconds since then, the microseconds rounded down.
\<close>

theorem kraken_timestamp_exact:
  assumes "(next_day ^^ n) (1970, 1, 1) = (int y, int m, int d)" "y < 10000" "h < 100" "mi < 100" "s < 100" "us < 1000000"
  shows "isoTimestampToMs (isoText y m d h mi s us) = Some ((((int n * 24 + int h) * 60 + int mi) * 60 + int s) * 1000 + int us div 1000)"
proof -
  note e = days_since_epoch [OF assms(1)]
  then have v: "1 \<le> m" "m \<le> 12" "d < 10 ^ 2"
    by (auto simp: valid_date_def month_length_def split: if_splits)
  have "y < 10 ^ 4" "m < 10 ^ 2" "h < 10 ^ 2" "mi < 10 ^ 2" "s < 10 ^ 2" "us < 10 ^ 6" using assms v by simp_all
  from isoTimestampToMs_text [OF this(1,2) v(3) this(3-6) v(1,2)] e show ?thesis by simp
qed

lemma kraken_timestamp_exact_instance: "isoTimestampToMs (isoText 1970 2 1 1 2 3 4567) = Some (((31 * 24 + 1) * 60 + 2) * 60000 + 3004)"
proof -
  have "(next_day ^^ 31) (1970, 1, 1) = (int 1970, int 2, int 1)" by code_simp
  from kraken_timestamp_exact [OF this, of 1 2 3 4567] show ?thesis by simp
qed

text \<open>
  A text that is no timestamp gives a negative number, not 0: the fields keep their
  initial zeros, which \<open>timegm\<close> takes for the last day of November of the year -1.
\<close>

lemma unreadable_timestamp: "isoTimestampToMs ''unknown moment in time'' = Some (- 62169984000000 - 0)"
  by code_simp

section \<open>Messages\<close>

text \<open>
  A book update is applied exactly: the levels, sent as the doubles next to decimals of
  eight digits, change the book as \<open>applyLevelChange\<close> does on those decimals, bids first; the
  metrics record the message; and the callback gets the deltas with the time of the message
  (\<open>kr_update_handled\<close>). An instance:
\<close>

definition kr_demo_live :: kraken where
  "kr_demo_live = kr_demo\<lparr>kr_books := [''BTC-USD'' \<mapsto> demo_book]\<rparr>"

lemma kr_demo_stamp_ms: "isoTimestampToMs kr_demo_stamp = Some 1700000000100"
proof -
  have "epochDays 2023 10 14 = 19675" by (simp add: epochDays_def yearDays_def monthDays_def leap_def)
  then show ?thesis using isoTimestampToMs_text [of 2023 11 14 22 13 20 100000] by (simp add: kr_demo_stamp_def)
qed

lemma kr_demo_update:
  "\<exists>K'. kr_handleWsMessage kr_demo_time (WsMessage None (Some (krakenMessage ''update'' (krakenItem ''BTC/USD'' [(11, 9)] [] kr_demo_stamp)))) kr_demo_live
     = Some ([KrCallback ''BTC-USD'' [\<lparr>d_price = 11, d_newQty = 9, d_deltaQty = 9, d_isBid = True, d_wasInView = False, d_inOfiView = True, d_kind = Genuine\<rparr>,
         \<lparr>d_price = 9, d_newQty = 3, d_deltaQty = - 3, d_isBid = True, d_wasInView = True, d_inOfiView = False, d_kind = Maintenance\<rparr>] 1700000000100], K')"
proof -
  have run: "case foldM (applyLevelChange Genuine True) ([], demo_book) [(11, 9)] of None \<Rightarrow> False | Some (ds, b1) \<Rightarrow> ds =
      [\<lparr>d_price = 11, d_newQty = 9, d_deltaQty = 9, d_isBid = True, d_wasInView = False, d_inOfiView = True, d_kind = Genuine\<rparr>,
       \<lparr>d_price = 9, d_newQty = 3, d_deltaQty = - 3, d_isBid = True, d_wasInView = True, d_inOfiView = False, d_kind = Maintenance\<rparr>]"
    by code_simp
  then obtain b1 where b1: "foldM (applyLevelChange Genuine True) ([], demo_book) [(11, 9)] = Some (
      [\<lparr>d_price = 11, d_newQty = 9, d_deltaQty = 9, d_isBid = True, d_wasInView = False, d_inOfiView = True, d_kind = Genuine\<rparr>,
       \<lparr>d_price = 9, d_newQty = 3, d_deltaQty = - 3, d_isBid = True, d_wasInView = True, d_inOfiView = False, d_kind = Maintenance\<rparr>], b1)" by (auto split: option.splits)
  show ?thesis
    by (subst kr_update_handled [OF _ _ _ _ _ kr_demo_stamp_ms _ _ b1, of "[]"])
      (simp_all add: exact_level_def kr_demo_live_def kr_demo_fields kr_demo_name demo_book_def kr_demo_time_def in_ll_def int_limits)
qed

section \<open>Runs\<close>

text \<open>
  C32: However the events of the web socket, the waits of \<open>start\<close> and the ticks of the
  watchdog follow each other, every well-formed event is handled without a fault; a symbol
  without a snapshot is awaited or was refused, unless a subscription error was signalled; and
  the callback is only called for books of the adapter, never with a \<open>Backfill\<close> delta. A message
  is well-formed when each element of its data that is an object has the keys \<open>symbol\<close>, \<open>bids\<close>
  and \<open>asks\<close>, the numbers of its levels are prices of at most \<open>2^60\<close> units of \<open>10^-8\<close> and
  quantities of at most \<open>LLONG_MAX\<close>, neither negative, and a timestamp has no run of ten digits
  and can be subtracted from the clock.
\<close>

theorem kraken_never_stuck:
  assumes "kr_prepare symbols bs ms depth K0 = (True, K)" "kr_fresh bs ms" "kr_run (kr_prepared K) es out S"
    "\<forall>e \<in> set es. kr_event_formed e"
  shows "(\<forall>e. kr_event_formed e \<and> kr_enabled S e \<longrightarrow> (\<exists>out' S'. kr_step S e out' S')) \<and>
    (\<forall>s \<in> set symbols. kr_has (kr S) s \<or> s \<in> pendingSnapshots (kr S) \<or> subscribeError (kr S) \<or> refused (kr_normalizer K0) es s) \<and>
    (\<forall>s ds ts. KrCallback s ds ts \<in> set out \<longrightarrow> s \<in> dom (kr_books K) \<and> (\<forall>d \<in> set ds. d_kind d \<noteq> Backfill))"
proof -
  note p = kr_start_law [OF assms(1,2)]
  have safe: "\<forall>e \<in> set es. kr_event_safe e" using assms(4) kr_event_formed_safe by blast
  have r: "kr_ok (kr S) \<and> kr_setup K (kr S) \<and> kr_awaited es (kr S) \<and> kr_good K out"
    using kr_run_law [OF assms(3) _ _ safe] p by (simp add: kr_prepared_def)
  then have "kr_symbols (kr S) = symbols" "kr_normalizer (kr S) = kr_normalizer K0" using p by (simp_all add: kr_setup_def)
  with r kr_step_total [of S] kr_event_formed_safe show ?thesis unfolding kr_awaited_def kr_good_def by simp
qed

text \<open>In the example the event is a message with a level and a timestamp.\<close>

definition kr_demo_item :: json where
  "kr_demo_item = JObject [(''symbol'', JString ''BTC/USD''), (''bids'', JArray [JObject [(''price'', JFloat (130001 / 2)), (''qty'', JFloat 2)]]),
     (''asks'', JArray []), (''timestamp'', JString kr_demo_stamp)]"

lemma kr_demo_item_formed: "item_formed kr_demo_time kr_demo_item"
proof -
  have "kr_demo_stamp = ''2023-11-14T22:13:20.100000Z''"
    by (simp add: kr_demo_stamp_def isoText_def padded_def to_string.simps digit_of_def)
  moreover have "short_numbers ''2023-11-14T22:13:20.100000Z''" by (simp add: is_digit_def)
  ultimately have "short_numbers kr_demo_stamp" by (simp only:)
  then have "stamp_formed kr_demo_time (JString kr_demo_stamp)"
    by (simp add: stamp_formed_def kr_demo_stamp_ms kr_demo_time_def in_ll_def int_limits)
  then show ?thesis
    by (simp add: item_formed_def kr_demo_item_def keys_there_def field_ok_def json_field_def numbers_formed_def items_def
        number_within_def get_double_def ret_def int_limits)
qed

lemma kraken_never_stuck_instance:
  "\<exists>out' S'. kr_step (kr_prepared kr_demo) (KrWs kr_demo_time (WsMessage None (Some (krakenMessage ''update'' kr_demo_item)))) out' S'"
proof -
  have safe: "\<forall>e \<in> set []. kr_event_formed e" by simp
  have "kr_event_formed (KrWs kr_demo_time (WsMessage None (Some (krakenMessage ''update'' kr_demo_item))))"
    using kr_demo_item_formed by (simp add: kr_event_formed_def krakenMessage_fields)
  moreover have "kr_enabled (kr_prepared kr_demo) (KrWs kr_demo_time (WsMessage None (Some (krakenMessage ''update'' kr_demo_item))))"
    by (simp add: kr_enabled_def)
  ultimately show ?thesis using kraken_never_stuck [OF kr_demo_start kr_demo_fresh kr_run.kr_nothing safe] by blast
qed

text \<open>
  C33: When \<open>start\<close> succeeds, every symbol has the snapshot of its book, or its subscription
  was refused by a message of the exchange.
\<close>

theorem kraken_start_complete:
  assumes "kr_prepare symbols bs ms depth K0 = (True, K)" "kr_fresh bs ms" "kr_run (kr_prepared K) es out S"
    "\<forall>e \<in> set es. kr_event_safe e" "phase S = Subscribed" "kr_step S KrWake out' S'" "phase S' = Returned True" "s \<in> set symbols"
  shows "kr_has (kr S') s \<or> refused (kr_normalizer K0) es s"
proof -
  note p = kr_start_law [OF assms(1,2)]
  have r: "kr_setup K (kr S)" "kr_awaited es (kr S)"
    using kr_run_law [OF assms(3) _ _ assms(4)] p by (simp_all add: kr_prepared_def)
  then have same: "kr_symbols (kr S) = symbols" "kr_normalizer (kr S) = kr_normalizer K0" using p by (simp_all add: kr_setup_def)
  have "kr S' = kr S" "kr_wake Subscribed (kr S) = (out', Returned True)"
    using assms(6,5,7) by (auto elim!: kr_stepE)
  then have "kr S' = kr S" "pendingSnapshots (kr S) = {}" "\<not> subscribeError (kr S)" by (auto simp: kr_wake_def split: if_splits)
  with r(2) assms(8) show ?thesis unfolding kr_awaited_def same by auto
qed

lemma kraken_start_complete_instance:
  "\<exists>es out S out' S'. kr_run (kr_prepared kr_demo) es out S \<and> kr_step S KrWake out' S' \<and> phase S' = Returned True \<and>
     (kr_has (kr S') ''BTC-USD'' \<or> refused defaultNormalizer es ''BTC-USD'')"
proof -
  let ?item = "krakenItem ''BTC/USD'' [(10, 5), (9, 3), (8, 2)] [(12, 4), (13, 6)] kr_demo_stamp"
  let ?msg = "WsMessage None (Some (krakenMessage ''snapshot'' ?item))"
  define K1 where "K1 = kr_demo\<lparr>kr_activity := 1000, kr_connected := True\<rparr>"
  have K1: "K1\<lparr>kr_activity := 1000\<rparr> = K1" "kr_books K1 = kr_books kr_demo" "kr_metrics K1 = kr_metrics kr_demo"
    "kr_normalizer K1 = defaultNormalizer" "pendingSnapshots K1 = {''BTC-USD''}" "kr_connected K1" "subscribeError K1 = False"
    unfolding K1_def by (rule kraken.equality) (simp_all add: kr_demo_fields)
  let ?S1 = "\<lparr>kr = K1, phase = Connecting\<rparr>" and ?S2 = "\<lparr>kr = K1, phase = Subscribed\<rparr>"
  have 1: "kr_step (kr_prepared kr_demo) (KrWs kr_demo_time WsOpen) [] ?S1"
    using kr_step.kr_ws [of kr_demo_time WsOpen "kr_prepared kr_demo" "[]" K1]
    by (simp add: kr_handleWsMessage_def kr_open_def kr_prepared_def kr_demo_fields kr_demo_time_def K1_def)
  have 2: "kr_step ?S1 KrWake [Send (subscribeMsg K1)] ?S2"
    using kr_step.kr_wakes [of ?S1 "[Send (subscribeMsg K1)]" Subscribed] by (simp add: kr_wake_def K1)
  have "loadSnapshot (book_clear demo_empty) 0 [(12, 4), (13, 6)] [(10, 5), (9, 3), (8, 2)] \<noteq> None" by code_simp
  then obtain b' where b': "loadSnapshot (book_clear demo_empty) 0 (filter (\<lambda>l. 0 < snd l) [(12, 4), (13, 6)])
      (filter (\<lambda>l. 0 < snd l) [(10, 5), (9, 3), (8, 2)]) = Some b'" by auto
  define K2 where "K2 = K1\<lparr>kr_books := (kr_books K1)(''BTC-USD'' \<mapsto> b'),
      kr_metrics := (kr_metrics K1)(''BTC-USD'' \<mapsto> newMetrics\<lparr>lastUpdateTimeMs := 1000\<rparr>), pendingSnapshots := {}\<rparr>"
  have exact: "\<forall>l \<in> set [(10, 5), (9, 3), (8, 2)] \<union> set [(12, 4), (13, 6)]. exact_level l" by (simp add: exact_level_def)
  have "handleBookSnapshot kr_demo_time ?item K1 = ret K2"
    using handleBookSnapshot_exact [OF exact _ _ _ b', of K1 "''BTC/USD''" "''BTC-USD''" "newMetrics\<lparr>lastUpdateTimeMs := 0\<rparr>" kr_demo_time kr_demo_stamp]
    by (simp add: K1 kr_demo_fields kr_demo_name kr_demo_time_def K2_def)
  then have "kr_handleWsMessage kr_demo_time ?msg K1 = Some ([], K2)"
    by (simp add: kr_handleWsMessage_def kr_message_def krakenMessage_fields handleItem_def ret_def K1(1) kr_demo_time_def)
  then have 3: "kr_step ?S2 (KrWs kr_demo_time ?msg) [] \<lparr>kr = K2, phase = Subscribed\<rparr>"
    using kr_step.kr_ws [of kr_demo_time ?msg ?S2 "[]" K2] by simp
  let ?S3 = "\<lparr>kr = K2, phase = Subscribed\<rparr>" and ?es = "[KrWs kr_demo_time WsOpen, KrWake, KrWs kr_demo_time ?msg]"
  have r: "kr_run (kr_prepared kr_demo) ?es [Send (subscribeMsg K1)] ?S3"
    using kr_run.kr_more [OF kr_run.kr_more [OF kr_run.kr_more [OF kr_run.kr_nothing 1] 2] 3] by simp
  have 4: "kr_step ?S3 KrWake [] \<lparr>kr = K2, phase = Returned True\<rparr>"
    using kr_step.kr_wakes [of ?S3 "[]" "Returned True"] by (simp add: kr_wake_def K2_def K1)
  have lev: "levels_safe (bind_res (side_of ?item k) jsonLevels)" if "k = ''bids'' \<or> k = ''asks''" for k
    using levels_exact [of "[(10, 5), (9, 3), (8, 2)]"] levels_exact [of "[(12, 4), (13, 6)]"] exact that
    by (auto simp: side_of_def krakenItem_fields levels_safe_def ret_def feed_ok_def amount_def int_limits)
  have "item_safe kr_demo_time ?item"
    using lev by (simp add: item_safe_def krakenItem_fields(1,4) kr_demo_stamp_ms ret_def kr_demo_time_def in_ll_def int_limits)
  then have "\<forall>e \<in> set ?es. kr_event_safe e" by (auto simp: kr_event_safe_def kr_safe_def krakenMessage_fields)
  from kraken_start_complete [OF kr_demo_start kr_demo_fresh r this _ 4, of "''BTC-USD''"]
  have "kr_has K2 ''BTC-USD'' \<or> refused defaultNormalizer ?es ''BTC-USD''" by (simp add: kr_demo_new_def newKraken_def)
  then show ?thesis by (intro exI conjI) (rule r, rule 4, simp_all)
qed

text \<open>
  A reconnect discards all books, sets the data age back, awaits the snapshots of all
  symbols again and subscribes to the same symbols at the same depth.
\<close>

lemma kraken_reconnect:
  assumes "kr_ok K" "kr_connected K" "s \<in> set (kr_symbols K)"
  shows "\<exists>K' b m. kr_handleWsMessage t WsOpen K = Some ([Send (subscribeMsg K)], K') \<and> kr_books K' s = Some b \<and> kr_metrics K' s = Some m \<and>
    \<not> snapshotApplied b \<and> (\<forall>side p. qty_at (sideLadder side b) p = 0) \<and> lastUpdateTimeMs m = 0 \<and>
    pendingSnapshots K' = set (kr_symbols K) \<and> \<not> subscribeError K'"
proof -
  let ?K = "K\<lparr>kr_activity := steady t\<rparr>"
  let ?C = "foldl kr_clearSymbol ?K (kr_symbols K)"
  let ?K' = "?C\<lparr>subscribeError := False, pendingSnapshots := set (kr_symbols K)\<rparr>"
  note c = kr_clear_law [of ?K "kr_symbols K", unfolded kr_activity_law(2), OF assms(1)]
  have "kr_depth ?C = kr_depth K" "krakenSymbols ?C = krakenSymbols K" "kr_symbols ?C = kr_symbols K" using c by (simp_all add: kr_setup_def)
  then have run: "kr_handleWsMessage t WsOpen K = Some ([Send (subscribeMsg K)], ?K')"
    using assms(2) by (simp add: kr_handleWsMessage_def kr_open_def Let_def subscribeMsg_def)
  have "s \<in> dom (kr_books ?C)" "s \<in> dom (kr_metrics ?C)"
    using conjunct1 [OF c] assms(3) \<open>kr_symbols ?C = kr_symbols K\<close> by (simp_all add: kr_ok_def)
  then obtain b m where e: "kr_books ?C s = Some b" "kr_metrics ?C s = Some m" by blast
  then obtain b0 where b0: "b = book_clear b0" using c assms(3) by blast
  have inv: "ladder_inv (sideLadder side b)" for side
    using c e(1) by (auto simp: kr_ok_def book_ok_def book_small_def ladder_small_def)
  have "qty_at (sideLadder side b) p = 0" for side p
  proof -
    have "sideLadder side b = ladder_clear (sideLadder side b0)" by (cases side) (simp_all add: b0 book_clear_def)
    moreover have "ladder_clear (ladder_clear L) = ladder_clear L" for L by (simp add: ladder_clear_def)
    ultimately have "sideLadder side b = ladder_clear (sideLadder side b)" by metis
    with clear_law(2) [OF inv] show ?thesis by metis
  qed
  moreover have "\<not> snapshotApplied b" by (simp add: b0 book_clear_def)
  moreover have "lastUpdateTimeMs m = 0" using c e(2) assms(3) by blast
  ultimately show ?thesis using run e by (intro exI [of _ ?K'] exI [of _ b] exI [of _ m]) simp
qed

lemma kraken_reconnect_instance:
  "\<exists>K'. kr_handleWsMessage kr_demo_time WsOpen (kr_demo\<lparr>kr_connected := True, pendingSnapshots := {}\<rparr>) =
     Some ([Send (subscribeMsg kr_demo)], K') \<and> pendingSnapshots K' = {''BTC-USD''}"
proof -
  let ?K = "kr_demo\<lparr>kr_connected := True, pendingSnapshots := {}\<rparr>"
  have "kr_ok ?K" using kr_demo_law(1) by (simp add: kr_ok_def)
  moreover have "kr_connected ?K" "''BTC-USD'' \<in> set (kr_symbols ?K)" by (simp_all add: kr_demo_fields)
  moreover have "subscribeMsg ?K = subscribeMsg kr_demo" by (simp add: subscribeMsg_def)
  ultimately show ?thesis using kraken_reconnect [of ?K "''BTC-USD''" kr_demo_time] by (auto simp: kr_demo_fields)
qed

section \<open>Silence\<close>

text \<open>
  C35: The watchdogs of both adapters act once: in a series of ticks with no event of the
  socket, the socket is restarted exactly once if there was traffic before and a tick comes
  more than two seconds after it, and otherwise never; a restart that brings no connection
  is not followed by another.
\<close>

theorem watchdogs_restart_once:
  "restarts watchdogTick nows seen = (if seen \<noteq> 0 \<and> (\<exists>now \<in> set nows. 2000 < now - seen) then 1 else 0) \<and>
   restarts kr_watchdogTick nows seen = (if seen \<noteq> 0 \<and> (\<exists>now \<in> set nows. 2000 < now - seen) then 1 else 0)"
  using binance_dog.one_restart [of nows seen] kraken_dog.one_restart [of nows seen]
  by (simp add: kStaleThresholdMs_def kr_kStaleThresholdMs_def)

end
