(* ===== verification/Configuration.thy ===== *)
theory Configuration
  imports Binance_Start Kraken_Run Subscriber_Server
begin

text \<open>
  The parts of \<open>src/main.cpp\<close> around the running program: the validation of the
  configuration (\<open>main\<close> up to the runtimes), the books and metrics it builds for each
  exchange, and the start of the adapters with its retries.
\<close>

section \<open>Validation\<close>

text \<open>One constructor per message with which \<open>main\<close> returns -1.\<close>

datatype config_error =
    NoExchanges
  | SnapshotDepthType
  | SnapshotDepthRange int
  | OfiDepthType
  | OfiDepthRange int
  | EntryNotObject
  | NameNotString
  | UnknownExchange string
  | DuplicateExchange string
  | IntervalType
  | IntervalValue int
  | NoSymbols string
  | SymbolNotString string
  | SymbolFormat string
  | DuplicateSymbol string
  | OfiTooDeep int int
  | PrimaryNotString
  | PrimaryNotFound string

fun bind_cfg :: "config_error + 'a \<Rightarrow> ('a \<Rightarrow> config_error + 'b) \<Rightarrow> config_error + 'b" where
  "bind_cfg (Inl e) f = Inl e"
| "bind_cfg (Inr x) f = f x"

lemma bind_cfg_Inr [simp]: "bind_cfg m f = Inr y \<longleftrightarrow> (\<exists>x. m = Inr x \<and> f x = Inr y)"
  by (cases m) auto

record exchange_config =
  ec_name :: string
  ec_interval :: int
  ec_symbols :: "string list"

record config =
  cf_snapshotDepth :: int
  cf_ofiDepth :: int
  cf_exchanges :: "exchange_config list"
  cf_primary :: string

definition readExchanges :: "json \<Rightarrow> config_error + json list" where
  "readExchanges j = (case json_field j ''exchanges'' of
       Some (JArray xs) \<Rightarrow> if xs = [] then Inl NoExchanges else Inr xs
     | _ \<Rightarrow> Inl NoExchanges)"

text \<open>\<open>get<int>\<close> of an integer is its value reduced to 32 bits.\<close>

definition readSnapshotDepth :: "json \<Rightarrow> config_error + int" where
  "readSnapshotDepth j = (case json_field j ''snapshot_depth'' of
       None \<Rightarrow> Inr 1000
     | Some (JInt i) \<Rightarrow>
         (let snapshotDepth = to_int32 i
          in if snapshotDepth < 5 \<or> 5000 < snapshotDepth then Inl (SnapshotDepthRange snapshotDepth) else Inr snapshotDepth)
     | Some _ \<Rightarrow> Inl SnapshotDepthType)"

definition readOfiDepth :: "json \<Rightarrow> int \<Rightarrow> config_error + int" where
  "readOfiDepth j snapshotDepth = (case json_field j ''ofi_depth'' of
       None \<Rightarrow> Inr 10
     | Some (JInt i) \<Rightarrow>
         (let ofi = to_int32 i
          in if ofi < 1 \<or> snapshotDepth < ofi then Inl (OfiDepthRange ofi) else Inr ofi)
     | Some _ \<Rightarrow> Inl OfiDepthType)"

definition canonicalFormat :: "string \<Rightarrow> bool" where
  "canonicalFormat s \<longleftrightarrow>
     (let dashPos = length (takeWhile (\<lambda>c. c \<noteq> CHR ''-'') s)
      in CHR ''-'' \<in> set s \<and> dashPos \<noteq> 0 \<and> dashPos \<noteq> length s - 1 \<and> CHR ''-'' \<notin> set (drop (dashPos + 1) s))"

fun readSymbols :: "string \<Rightarrow> string list \<Rightarrow> json list \<Rightarrow> config_error + string list" where
  "readSymbols exName seen [] = Inr seen"
| "readSymbols exName seen (symEntry # rest) =
     (case symEntry of
        JString s \<Rightarrow>
          (let sy = map to_upper s
           in if \<not> canonicalFormat sy then Inl (SymbolFormat sy)
              else if sy \<in> set seen then Inl (DuplicateSymbol sy)
              else readSymbols exName (seen @ [sy]) rest)
      | _ \<Rightarrow> Inl (SymbolNotString exName))"

definition readInterval :: "string \<Rightarrow> json \<Rightarrow> config_error + int" where
  "readInterval exName entry =
     (if exName \<noteq> ''binance'' then Inr 100
      else (case json_field entry ''update_interval_ms'' of
              None \<Rightarrow> Inr 100
            | Some (JInt i) \<Rightarrow> if to_int32 i \<noteq> 100 \<and> to_int32 i \<noteq> 1000 then Inl (IntervalValue (to_int32 i)) else Inr (to_int32 i)
            | Some _ \<Rightarrow> Inl IntervalType))"

definition readEntry :: "string set \<Rightarrow> json \<Rightarrow> config_error + exchange_config" where
  "readEntry seen entry =
     (if \<not> is_object entry then Inl EntryNotObject
      else (case json_field entry ''name'' of
              Some (JString exName) \<Rightarrow>
                if exName \<noteq> ''binance'' \<and> exName \<noteq> ''kraken'' then Inl (UnknownExchange exName)
                else if exName \<in> seen then Inl (DuplicateExchange exName)
                else bind_cfg (readInterval exName entry) (\<lambda>interval.
                  case json_field entry ''symbols'' of
                    Some (JArray xs) \<Rightarrow>
                      if xs = [] then Inl (NoSymbols exName)
                      else bind_cfg (readSymbols exName [] xs) (\<lambda>ss.
                        Inr \<lparr>ec_name = exName, ec_interval = interval, ec_symbols = ss\<rparr>)
                  | _ \<Rightarrow> Inl (NoSymbols exName))
            | _ \<Rightarrow> Inl NameNotString))"

fun readEntries :: "exchange_config list \<Rightarrow> json list \<Rightarrow> config_error + exchange_config list" where
  "readEntries acc [] = Inr acc"
| "readEntries acc (entry # rest) =
     bind_cfg (readEntry (ec_name ` set acc) entry) (\<lambda>ec. readEntries (acc @ [ec]) rest)"

text \<open>The guard on Kraken: its book must be deeper than the view.\<close>

definition krakenGuard :: "int \<Rightarrow> int \<Rightarrow> exchange_config list \<Rightarrow> config_error + unit" where
  "krakenGuard snapshotDepth ofi ecs =
     (if list_ex (\<lambda>ec. ec_name ec = ''kraken'') ecs
      then (let effectiveKrakenDepth = clampBookDepth snapshotDepth
            in if effectiveKrakenDepth \<le> ofi then Inl (OfiTooDeep ofi effectiveKrakenDepth) else Inr ())
      else Inr ())"

definition readPrimary :: "json \<Rightarrow> exchange_config list \<Rightarrow> config_error + string" where
  "readPrimary j ecs = (case json_field j ''primary_symbol'' of
       Some (JString s) \<Rightarrow>
         (let primarySymbol = map to_upper s
          in if list_ex (\<lambda>ec. primarySymbol \<in> set (ec_symbols ec)) ecs then Inr primarySymbol
             else Inl (PrimaryNotFound primarySymbol))
     | _ \<Rightarrow> Inl PrimaryNotString)"

definition parseConfig :: "json \<Rightarrow> config_error + config" where
  "parseConfig j =
     bind_cfg (readExchanges j) (\<lambda>entries.
     bind_cfg (readSnapshotDepth j) (\<lambda>snapshotDepth.
     bind_cfg (readOfiDepth j snapshotDepth) (\<lambda>ofi.
     bind_cfg (readEntries [] entries) (\<lambda>ecs.
     bind_cfg (krakenGuard snapshotDepth ofi ecs) (\<lambda>_.
     bind_cfg (readPrimary j ecs) (\<lambda>primarySymbol.
       Inr \<lparr>cf_snapshotDepth = snapshotDepth, cf_ofiDepth = ofi, cf_exchanges = ecs, cf_primary = primarySymbol\<rparr>))))))"

section \<open>Runtimes\<close>

record runtime =
  rt_name :: string
  rt_symbols :: "string list"
  rt_books :: "string \<rightharpoonup> orderbook"
  rt_metrics :: "string \<rightharpoonup> metrics"

text \<open>The constructors of the books may throw, which ends the program.\<close>

fun buildBooks :: "int \<Rightarrow> string list \<Rightarrow> (string \<rightharpoonup> orderbook) \<Rightarrow> exn + (string \<rightharpoonup> orderbook)" where
  "buildBooks ofi [] bs = Inr bs"
| "buildBooks ofi (sy # ss) bs =
     bind_exn (newOrderBook (nat ofi) kDefaultTick) (\<lambda>b. buildBooks ofi ss (bs(sy \<mapsto> b)))"

definition buildRuntime :: "int \<Rightarrow> exchange_config \<Rightarrow> exn + runtime" where
  "buildRuntime ofi ec =
     bind_exn (buildBooks ofi (ec_symbols ec) Map.empty) (\<lambda>bs.
       Inr \<lparr>rt_name = ec_name ec, rt_symbols = ec_symbols ec, rt_books = bs,
            rt_metrics = foldl (\<lambda>ms sy. ms(sy \<mapsto> newMetrics)) Map.empty (ec_symbols ec)\<rparr>)"

text \<open>The key of a book for the subscribers leads to its exchange and symbol.\<close>

definition booksPtrs :: "runtime list \<Rightarrow> string \<rightharpoonup> (string \<times> string)" where
  "booksPtrs rts = foldl (\<lambda>m rt. foldl (\<lambda>m sy. m(streamKey (rt_name rt) sy \<mapsto> (rt_name rt, sy))) m (rt_symbols rt)) Map.empty rts"

section \<open>Starting\<close>

definition kMaxStartAttempts :: int where
  "kMaxStartAttempts = 10"

definition kBackoffCapSec :: int where
  "kBackoffCapSec = 300"

text \<open>
  The attempts to start one adapter, by the answers of \<open>start\<close>: whether it started, and the
  seconds slept after each failure.
\<close>

function startLoop :: "int \<Rightarrow> int \<Rightarrow> (int \<Rightarrow> bool) \<Rightarrow> bool \<times> int list" where
  "startLoop attempt backoffSec start =
     (if kMaxStartAttempts < attempt then (False, [])
      else if start attempt then (True, [])
      else (let (started, waits) = startLoop (attempt + 1) (min (backoffSec * 2) kBackoffCapSec) start
            in (started, backoffSec # waits)))"
  by pat_completeness auto
termination
  by (relation "measure (\<lambda>(attempt, _, _). nat (kMaxStartAttempts + 1 - attempt))") auto

declare startLoop.simps [simp del]

text \<open>
  All adapters in order: those that run, or those that are stopped again because one did
  not start.
\<close>

fun startAll :: "(string \<Rightarrow> int \<Rightarrow> bool) \<Rightarrow> string list \<Rightarrow> string list \<Rightarrow> string list + string list" where
  "startAll start running [] = Inr running"
| "startAll start running (name # names) =
     (if fst (startLoop 1 30 (start name)) then startAll start (running @ [name]) names
      else Inl (name # running))"

section \<open>What a valid configuration is\<close>

definition valid_exchange :: "exchange_config \<Rightarrow> bool" where
  "valid_exchange ec \<longleftrightarrow> (ec_name ec = ''binance'' \<or> ec_name ec = ''kraken'') \<and>
     (ec_interval ec = 100 \<or> ec_interval ec = 1000 \<and> ec_name ec = ''binance'') \<and>
     ec_symbols ec \<noteq> [] \<and> distinct (ec_symbols ec) \<and>
     (\<forall>s \<in> set (ec_symbols ec). map to_upper s = s \<and> (\<exists>b q. s = b @ ''-'' @ q \<and> b \<noteq> [] \<and> q \<noteq> [] \<and> CHR ''-'' \<notin> set b \<and> CHR ''-'' \<notin> set q))"

definition valid_config :: "config \<Rightarrow> bool" where
  "valid_config c \<longleftrightarrow> 5 \<le> cf_snapshotDepth c \<and> cf_snapshotDepth c \<le> 5000 \<and> 1 \<le> cf_ofiDepth c \<and>
     (cf_ofiDepth c \<le> cf_snapshotDepth c \<or> cf_ofiDepth c = 10) \<and>
     cf_exchanges c \<noteq> [] \<and> distinct (map ec_name (cf_exchanges c)) \<and> (\<forall>ec \<in> set (cf_exchanges c). valid_exchange ec) \<and>
     (\<forall>ec \<in> set (cf_exchanges c). ec_name ec = ''kraken'' \<longrightarrow> cf_ofiDepth c < clampBookDepth (cf_snapshotDepth c)) \<and>
     (\<exists>ec \<in> set (cf_exchanges c). cf_primary c \<in> set (ec_symbols ec))"

text \<open>A configuration as JSON: a view deeper than the snapshot can only be the default, which is left out.\<close>

definition exchangeJson :: "exchange_config \<Rightarrow> json" where
  "exchangeJson ec = JObject [(''name'', JString (ec_name ec)), (''update_interval_ms'', JInt (ec_interval ec)),
     (''symbols'', JArray (map JString (ec_symbols ec)))]"

definition configJson :: "config \<Rightarrow> json" where
  "configJson c = JObject ([(''exchanges'', JArray (map exchangeJson (cf_exchanges c))),
     (''snapshot_depth'', JInt (cf_snapshotDepth c)), (''primary_symbol'', JString (cf_primary c))] @
     (if cf_ofiDepth c \<le> cf_snapshotDepth c then [(''ofi_depth'', JInt (cf_ofiDepth c))] else []))"

section \<open>Laws of the validation\<close>

lemma canonicalFormat_iff:
  "canonicalFormat s \<longleftrightarrow> (\<exists>b q. s = b @ ''-'' @ q \<and> b \<noteq> [] \<and> q \<noteq> [] \<and> CHR ''-'' \<notin> set b \<and> CHR ''-'' \<notin> set q)"
proof
  define b where "b = takeWhile (\<lambda>c. c \<noteq> CHR ''-'') s"
  assume c: "canonicalFormat s"
  then have "dropWhile (\<lambda>c. c \<noteq> CHR ''-'') s \<noteq> []" by (simp add: canonicalFormat_def Let_def dropWhile_eq_Nil_conv)
  then obtain x q where r: "dropWhile (\<lambda>c. c \<noteq> CHR ''-'') s = x # q" by (meson neq_Nil_conv)
  then have "x = CHR ''-''" using hd_dropWhile [of "\<lambda>c. c \<noteq> CHR ''-''" s] by simp
  with r have s: "s = b @ CHR ''-'' # q" using takeWhile_dropWhile_id [of "\<lambda>c. c \<noteq> CHR ''-''" s] by (simp add: b_def)
  have "b \<noteq> []" "q \<noteq> []" "CHR ''-'' \<notin> set q"
    using c unfolding canonicalFormat_def Let_def b_def [symmetric] by (auto simp: s)
  moreover have "CHR ''-'' \<notin> set b" by (auto simp: b_def dest: set_takeWhileD)
  ultimately show "\<exists>b q. s = b @ ''-'' @ q \<and> b \<noteq> [] \<and> q \<noteq> [] \<and> CHR ''-'' \<notin> set b \<and> CHR ''-'' \<notin> set q"
    using s by auto
next
  assume "\<exists>b q. s = b @ ''-'' @ q \<and> b \<noteq> [] \<and> q \<noteq> [] \<and> CHR ''-'' \<notin> set b \<and> CHR ''-'' \<notin> set q"
  then obtain b q where s: "s = b @ CHR ''-'' # q" "b \<noteq> []" "q \<noteq> []" "CHR ''-'' \<notin> set b" "CHR ''-'' \<notin> set q" by auto
  have "takeWhile (\<lambda>c. c \<noteq> CHR ''-'') s = b" using s(1,4) by (simp add: takeWhile_append)
  then show "canonicalFormat s" using s by (simp add: canonicalFormat_def Let_def)
qed

lemma to_upper_idem [simp]: "to_upper (to_upper c) = to_upper c"
proof -
  define n where "n = (of_char c :: nat)"
  have "n < 256" by (simp add: n_def)
  then show ?thesis
    by (cases "97 \<le> n \<and> n \<le> 122") (auto simp: to_upper_def Let_def n_def [symmetric])
qed

definition symbols_ok :: "string list \<Rightarrow> bool" where
  "symbols_ok ss \<longleftrightarrow> distinct ss \<and> (\<forall>s \<in> set ss. map to_upper s = s \<and> canonicalFormat s)"

lemma readSymbols_sound: "readSymbols e seen xs = Inr ss \<Longrightarrow> symbols_ok seen \<Longrightarrow> symbols_ok ss \<and> (seen \<noteq> [] \<or> xs \<noteq> [] \<longrightarrow> ss \<noteq> [])"
proof (induction e seen xs rule: readSymbols.induct)
  case (2 e seen x rest)
  then obtain s where s: "x = JString s" by (cases x) simp_all
  let ?y = "map to_upper s"
  have ok: "canonicalFormat ?y" "?y \<notin> set seen" and r: "readSymbols e (seen @ [?y]) rest = Inr ss"
    using 2(2) by (auto simp: s Let_def split: if_splits)
  have "symbols_ok (seen @ [?y])" using 2(3) ok by (simp add: symbols_ok_def comp_def)
  then show ?case using 2(1) [OF s refl _ _ r] ok by simp
qed simp

lemma readSymbols_complete: "symbols_ok (seen @ ss) \<Longrightarrow> readSymbols e seen (map JString ss) = Inr (seen @ ss)"
proof (induction ss arbitrary: seen)
  case (Cons s ss)
  then have "map to_upper s = s" "canonicalFormat s" "s \<notin> set seen" by (simp_all add: symbols_ok_def)
  moreover have "readSymbols e (seen @ [s]) (map JString ss) = Inr (seen @ s # ss)" using Cons.IH [of "seen @ [s]"] Cons.prems by simp
  ultimately show ?case by simp
qed simp

lemma valid_exchange_iff:
  "valid_exchange ec \<longleftrightarrow> (ec_name ec = ''binance'' \<or> ec_name ec = ''kraken'') \<and>
     (ec_interval ec = 100 \<or> ec_interval ec = 1000 \<and> ec_name ec = ''binance'') \<and> ec_symbols ec \<noteq> [] \<and> symbols_ok (ec_symbols ec)"
  by (auto simp: valid_exchange_def symbols_ok_def canonicalFormat_iff)

lemma readInterval_sound: "readInterval e j = Inr i \<Longrightarrow> i = 100 \<or> i = 1000 \<and> e = ''binance''"
  by (auto simp: readInterval_def split: option.splits json.splits if_splits)

lemma readEntry_sound:
  assumes "readEntry seen j = Inr ec"
  shows "valid_exchange ec \<and> ec_name ec \<notin> seen"
proof -
  obtain kvs where j: "j = JObject kvs" using assms by (auto simp: readEntry_def split: if_splits)
  obtain e where e: "json_field j ''name'' = Some (JString e)"
  proof (cases "json_field j ''name''")
    case (Some v)
    with that assms show thesis by (cases v) (simp_all add: readEntry_def j)
  qed (use assms in \<open>simp add: readEntry_def j\<close>)
  have ok: "e = ''binance'' \<or> e = ''kraken''" "e \<notin> seen"
    using assms by (auto simp: readEntry_def j e [unfolded j] split: if_splits)
  have run: "bind_cfg (readInterval e j) (\<lambda>interval.
      case json_field j ''symbols'' of
        Some (JArray xs) \<Rightarrow> if xs = [] then Inl (NoSymbols e)
          else bind_cfg (readSymbols e [] xs) (\<lambda>ss. Inr \<lparr>ec_name = e, ec_interval = interval, ec_symbols = ss\<rparr>)
      | _ \<Rightarrow> Inl (NoSymbols e)) = Inr ec"
    using assms unfolding readEntry_def j e [unfolded j] is_object_def json.case option.case if_not_P [OF ok(2)]
    using ok(1) by (auto split: if_splits)
  obtain i xs ss where p: "readInterval e j = Inr i" "xs \<noteq> []" "readSymbols e [] xs = Inr ss"
    "ec = \<lparr>ec_name = e, ec_interval = i, ec_symbols = ss\<rparr>"
  proof (cases "json_field j ''symbols''")
    case (Some v)
    with that run show thesis by (cases v) (auto split: if_splits)
  qed (use run in simp)
  have "symbols_ok ss \<and> ss \<noteq> []" using readSymbols_sound [OF p(3)] p(2) by (simp add: symbols_ok_def)
  with p ok readInterval_sound [OF p(1)] show ?thesis by (simp add: valid_exchange_iff)
qed

lemma readEntry_complete:
  assumes "valid_exchange ec" "ec_name ec \<notin> seen"
  shows "readEntry seen (exchangeJson ec) = Inr ec"
proof -
  have "readSymbols (ec_name ec) [] (map JString (ec_symbols ec)) = Inr (ec_symbols ec)"
    using readSymbols_complete [of "[]"] assms(1) by (simp add: valid_exchange_iff)
  moreover have "readInterval (ec_name ec) (exchangeJson ec) = Inr (ec_interval ec)"
    using assms(1) by (auto simp: readInterval_def exchangeJson_def json_access valid_exchange_iff to_int32_def)
  ultimately show ?thesis
    using assms by (auto simp: readEntry_def exchangeJson_def json_access valid_exchange_iff)
qed

lemma readEntries_sound:
  "readEntries acc js = Inr ecs \<Longrightarrow> distinct (map ec_name acc) \<and> (\<forall>ec \<in> set acc. valid_exchange ec) \<Longrightarrow>
     distinct (map ec_name ecs) \<and> (\<forall>ec \<in> set ecs. valid_exchange ec) \<and> length ecs = length acc + length js"
proof (induction js arbitrary: acc)
  case (Cons j js)
  then obtain ec where e: "readEntry (ec_name ` set acc) j = Inr ec" "readEntries (acc @ [ec]) js = Inr ecs" by auto
  have "distinct (map ec_name (acc @ [ec])) \<and> (\<forall>ec \<in> set (acc @ [ec]). valid_exchange ec)"
    using Cons.prems(2) readEntry_sound [OF e(1)] by auto
  from Cons.IH [OF e(2) this] show ?case by simp
qed simp

lemma readEntries_complete:
  "distinct (map ec_name (acc @ ecs)) \<Longrightarrow> \<forall>ec \<in> set ecs. valid_exchange ec \<Longrightarrow>
     readEntries acc (map exchangeJson ecs) = Inr (acc @ ecs)"
proof (induction ecs arbitrary: acc)
  case (Cons ec ecs)
  have "readEntry (ec_name ` set acc) (exchangeJson ec) = Inr ec" by (rule readEntry_complete) (use Cons.prems in auto)
  then show ?case using Cons.IH [of "acc @ [ec]"] Cons.prems by simp
qed simp

lemma krakenGuard_iff:
  "krakenGuard sd ofi ecs = Inr u \<longleftrightarrow> (\<forall>ec \<in> set ecs. ec_name ec = ''kraken'' \<longrightarrow> ofi < clampBookDepth sd)"
  by (auto simp: krakenGuard_def list_ex_iff Let_def)

lemma parseConfig_sound:
  assumes "parseConfig j = Inr c"
  shows "valid_config c"
proof -
  obtain entries ofi sd ecs pr where p: "readExchanges j = Inr entries" "readSnapshotDepth j = Inr sd" "readOfiDepth j sd = Inr ofi"
    "readEntries [] entries = Inr ecs" "krakenGuard sd ofi ecs = Inr ()" "readPrimary j ecs = Inr pr"
    and c: "c = \<lparr>cf_snapshotDepth = sd, cf_ofiDepth = ofi, cf_exchanges = ecs, cf_primary = pr\<rparr>"
    using assms by (auto simp: parseConfig_def)
  have "entries \<noteq> []" using p(1) by (auto simp: readExchanges_def split: option.splits json.splits if_splits)
  moreover have "5 \<le> sd \<and> sd \<le> 5000" using p(2) by (auto simp: readSnapshotDepth_def Let_def split: option.splits json.splits if_splits)
  moreover have "1 \<le> ofi \<and> (ofi \<le> sd \<or> ofi = 10)" using p(3) by (auto simp: readOfiDepth_def Let_def split: option.splits json.splits if_splits)
  moreover have "\<exists>ec \<in> set ecs. pr \<in> set (ec_symbols ec)"
    using p(6) by (auto simp: readPrimary_def Let_def list_ex_iff split: option.splits json.splits if_splits)
  moreover note readEntries_sound [OF p(4)] p(5) [unfolded krakenGuard_iff]
  ultimately show ?thesis by (auto simp: valid_config_def c)
qed

lemma parseConfig_complete:
  assumes v: "valid_config c"
  shows "parseConfig (configJson c) = Inr c"
proof -
  have "readExchanges (configJson c) = Inr (map exchangeJson (cf_exchanges c))"
    using v by (simp add: readExchanges_def configJson_def json_access valid_config_def)
  moreover have "readSnapshotDepth (configJson c) = Inr (cf_snapshotDepth c)"
    using v by (simp add: readSnapshotDepth_def configJson_def json_access valid_config_def to_int32_id int_limits)
  moreover have "readOfiDepth (configJson c) (cf_snapshotDepth c) = Inr (cf_ofiDepth c)"
    using v by (auto simp: readOfiDepth_def configJson_def json_access valid_config_def to_int32_id int_limits)
  moreover have "readEntries [] (map exchangeJson (cf_exchanges c)) = Inr (cf_exchanges c)"
    using readEntries_complete [of "[]"] v by (simp add: valid_config_def)
  moreover have "krakenGuard (cf_snapshotDepth c) (cf_ofiDepth c) (cf_exchanges c) = Inr ()"
    using v by (simp add: krakenGuard_iff valid_config_def)
  moreover have "readPrimary (configJson c) (cf_exchanges c) = Inr (cf_primary c)"
  proof -
    obtain ec where ec: "ec \<in> set (cf_exchanges c)" "cf_primary c \<in> set (ec_symbols ec)" using v by (auto simp: valid_config_def)
    then have "map to_upper (cf_primary c) = cf_primary c" using v by (auto simp: valid_config_def valid_exchange_def)
    with ec show ?thesis by (auto simp: readPrimary_def configJson_def json_access list_ex_iff Let_def)
  qed
  ultimately show ?thesis by (simp add: parseConfig_def)
qed

section \<open>Laws of the runtimes\<close>

lemma newOrderBook_default: "\<exists>b. newOrderBook n kDefaultTick = Inr b \<and> book_small b \<and> ofiDepth b = n \<and> \<not> snapshotApplied b"
proof -
  obtain L where L: "newLadder kDefaultTick kDefaultHalfRange = Inr L"
    by (simp add: newLadder_def kDefaultTick_def kDefaultHalfRange_def int_limits)
  have "(kDefaultHalfRange * 2 + 1) * kDefaultTick \<le> 2 ^ 60" by (simp add: kDefaultTick_def kDefaultHalfRange_def)
  note law = newLadder_law [OF L this]
  have "ladder_small L" using law(1,2) by (simp add: ladder_small_def)
  then show ?thesis by (simp add: newOrderBook_def L book_small_sides view_small_def)
qed

lemma buildBooks_law:
  "\<forall>b \<in> ran bs. book_small b \<Longrightarrow>
     \<exists>bs'. buildBooks n ss bs = Inr bs' \<and> dom bs' = dom bs \<union> set ss \<and> (\<forall>b \<in> ran bs'. book_small b)"
proof (induction ss arbitrary: bs)
  case (Cons sy ss)
  obtain b where b: "newOrderBook (nat n) kDefaultTick = Inr b" "book_small b" using newOrderBook_default by blast
  have "\<forall>b \<in> ran (bs(sy \<mapsto> b)). book_small b" using Cons.prems b(2) by (auto simp: ran_def)
  from Cons.IH [OF this] obtain bs' where r: "buildBooks n ss (bs(sy \<mapsto> b)) = Inr bs'"
    "dom bs' = dom (bs(sy \<mapsto> b)) \<union> set ss" "\<forall>b \<in> ran bs'. book_small b" by blast
  have "dom bs' = dom bs \<union> set (sy # ss)" unfolding r(2) by simp
  with b(1) r(1,3) show ?case by simp
qed simp

lemma newMetrics_fold:
  "\<forall>m \<in> ran ms. m = newMetrics \<Longrightarrow>
     dom (foldl (\<lambda>ms sy. ms(sy \<mapsto> newMetrics)) ms ss) = dom ms \<union> set ss \<and>
     (\<forall>m \<in> ran (foldl (\<lambda>ms sy. ms(sy \<mapsto> newMetrics)) ms ss). m = newMetrics)"
proof (induction ss arbitrary: ms)
  case (Cons sy ss)
  have "\<forall>m \<in> ran (ms(sy \<mapsto> newMetrics)). m = newMetrics" using Cons.prems by (auto simp: ran_def)
  from Cons.IH [OF this] show ?case by auto
qed simp

lemma buildRuntime_law:
  "\<exists>rt. buildRuntime n ec = Inr rt \<and> rt_name rt = ec_name ec \<and> rt_symbols rt = ec_symbols ec \<and>
     dom (rt_books rt) = set (ec_symbols ec) \<and> dom (rt_metrics rt) = set (ec_symbols ec) \<and>
     (\<forall>b \<in> ran (rt_books rt). book_small b) \<and> (\<forall>m \<in> ran (rt_metrics rt). m = newMetrics)"
proof -
  obtain bs where "buildBooks n (ec_symbols ec) Map.empty = Inr bs" "dom bs = set (ec_symbols ec)" "\<forall>b \<in> ran bs. book_small b"
    using buildBooks_law [of Map.empty n "ec_symbols ec"] by auto
  then show ?thesis using newMetrics_fold [of Map.empty "ec_symbols ec"] by (simp add: buildRuntime_def)
qed

text \<open>Both adapters accept the symbols of a runtime.\<close>

lemma registerSymbols_total:
  "\<forall>c \<in> set cs. c \<in> dom bs \<and> c \<in> dom ms \<Longrightarrow> fst (registerSymbols N bs ms cs M)"
  by (induction cs arbitrary: M) auto

lemma validateSymbols_total:
  "\<forall>c \<in> set cs. c \<in> dom bs \<and> c \<in> dom ms \<Longrightarrow> \<exists>ks. validateSymbols defaultNormalizer bs ms cs = Some ks"
  by (induction cs) (auto simp: fromCanonical_def defaultNormalizer_def)

lemma streamKey_inj:
  "CHR ''.'' \<notin> set e \<Longrightarrow> CHR ''.'' \<notin> set f \<Longrightarrow> streamKey e a = streamKey f b \<longleftrightarrow> e = f \<and> a = b"
  unfolding streamKey_def
proof (induction e arbitrary: f)
  case Nil
  then show ?case by (cases f) auto
next
  case (Cons c e)
  then show ?case by (cases f) auto
qed

lemma booksPtrs_snoc:
  "foldl (\<lambda>m sy. m(streamKey e sy \<mapsto> (e, sy))) m ss k = (if \<exists>sy \<in> set ss. streamKey e sy = k
     then Some (e, SOME sy. sy \<in> set ss \<and> streamKey e sy = k) else m k)"
proof (induction ss rule: rev_induct)
  case (snoc sy ss)
  have inj: "streamKey e a = streamKey e b \<longleftrightarrow> a = b" for a b by (simp add: streamKey_def)
  show ?case
  proof (cases "streamKey e sy = k")
    case True
    then have "(SOME x. x \<in> set (ss @ [sy]) \<and> streamKey e x = k) = sy" using inj by (intro some_equality) auto
    then show ?thesis using True by simp
  next
    case False
    then have "(\<lambda>x. x \<in> set (ss @ [sy]) \<and> streamKey e x = k) = (\<lambda>x. x \<in> set ss \<and> streamKey e x = k)" by auto
    then show ?thesis using False snoc.IH by simp
  qed
qed simp

lemma booksPtrs_get:
  assumes "distinct (map rt_name rts)" "\<forall>rt \<in> set rts. CHR ''.'' \<notin> set (rt_name rt)" "rt \<in> set rts" "sy \<in> set (rt_symbols rt)"
  shows "booksPtrs rts (streamKey (rt_name rt) sy) = Some (rt_name rt, sy)"
  using assms
proof (induction rts rule: rev_induct)
  case (snoc r rts)
  have step: "booksPtrs (rts @ [r]) = foldl (\<lambda>m sy. m(streamKey (rt_name r) sy \<mapsto> (rt_name r, sy))) (booksPtrs rts) (rt_symbols r)"
    by (simp add: booksPtrs_def)
  show ?case
  proof (cases "rt = r")
    case True
    have "(SOME x. x \<in> set (rt_symbols r) \<and> streamKey (rt_name r) x = streamKey (rt_name r) sy) = sy"
      using snoc.prems(4) True by (intro some_equality) (auto simp: streamKey_def)
    then show ?thesis using snoc.prems(4) True unfolding step booksPtrs_snoc by auto
  next
    case False
    then have rt: "rt \<in> set rts" using snoc.prems(3) by simp
    moreover have "rt_name r \<notin> rt_name ` set rts" using snoc.prems(1) by simp
    ultimately have "rt_name rt \<noteq> rt_name r" by (metis imageI)
    then have "\<not> (\<exists>x \<in> set (rt_symbols r). streamKey (rt_name r) x = streamKey (rt_name rt) sy)"
      using streamKey_inj snoc.prems(2,3) by auto
    then show ?thesis using snoc.IH rt snoc.prems unfolding step booksPtrs_snoc by simp
  qed
qed simp

section \<open>Laws of the retries\<close>

text \<open>The waits before the attempts that follow, each twice the one before, at most five minutes.\<close>

definition backoff :: "nat \<Rightarrow> int" where
  "backoff i = min (30 * 2 ^ i) kBackoffCapSec"

lemma backoff_next: "min (backoff i * 2) kBackoffCapSec = backoff (Suc i)"
  by (simp add: backoff_def kBackoffCapSec_def min_def)

lemma startLoop_fails:
  assumes "\<forall>a. int i + 1 \<le> a \<longrightarrow> a < int (i + k) + 1 \<longrightarrow> \<not> start a" "i + k \<le> 10"
  shows "startLoop (int i + 1) (backoff i) start =
    (fst (startLoop (int (i + k) + 1) (backoff (i + k)) start),
     map backoff [i..<i + k] @ snd (startLoop (int (i + k) + 1) (backoff (i + k)) start))"
  using assms
proof (induction k arbitrary: i)
  case (Suc k)
  have "\<not> start (int i + 1)" "\<not> kMaxStartAttempts < int i + 1" using Suc.prems by (simp_all add: kMaxStartAttempts_def)
  then have "startLoop (int i + 1) (backoff i) start = (fst (startLoop (int (Suc i) + 1) (backoff (Suc i)) start),
      backoff i # snd (startLoop (int (Suc i) + 1) (backoff (Suc i)) start))"
    by (subst startLoop.simps) (simp add: split_def Let_def backoff_next add.commute)
  moreover have "startLoop (int (Suc i) + 1) (backoff (Suc i)) start =
      (fst (startLoop (int (Suc i + k) + 1) (backoff (Suc i + k)) start),
       map backoff [Suc i..<Suc i + k] @ snd (startLoop (int (Suc i + k) + 1) (backoff (Suc i + k)) start))"
    by (rule Suc.IH) (use Suc.prems in auto)
  ultimately show ?case by (simp add: upt_rec)
qed simp

text \<open>An adapter that did not start is stopped, and all that run with it.\<close>

lemma startAll_law:
  "startAll start running names = (case find (\<lambda>n. \<not> fst (startLoop 1 30 (start n))) names of
     None \<Rightarrow> Inr (running @ names)
   | Some n \<Rightarrow> Inl (n # running @ takeWhile (\<lambda>n. fst (startLoop 1 30 (start n))) names))"
  by (induction names arbitrary: running) (auto split: option.splits)

end
