(* ===== verification/Configuration_Properties.thy ===== *)
theory Configuration_Properties
  imports Configuration
begin

text \<open>The properties of the configuration and the start of the program, with their instances.\<close>

definition demo_config :: config where
  "demo_config = \<lparr>cf_snapshotDepth = 100, cf_ofiDepth = 10,
     cf_exchanges = [\<lparr>ec_name = ''binance'', ec_interval = 1000, ec_symbols = [''BTC-USDT'', ''ETH-USDT'']\<rparr>,
       \<lparr>ec_name = ''kraken'', ec_interval = 100, ec_symbols = [''BTC-USD'']\<rparr>],
     cf_primary = ''BTC-USD''\<rparr>"

lemma demo_config_valid: "valid_config demo_config"
proof -
  have u: "map to_upper ''BTC-USDT'' = ''BTC-USDT''" "map to_upper ''ETH-USDT'' = ''ETH-USDT''" "map to_upper ''BTC-USD'' = ''BTC-USD''"
    by code_simp+
  have f: "canonicalFormat ''BTC-USDT''" "canonicalFormat ''ETH-USDT''" "canonicalFormat ''BTC-USD''"
    by code_simp+
  have d: "clampBookDepth 100 = 100" by code_simp
  have "valid_exchange \<lparr>ec_name = ''binance'', ec_interval = 1000, ec_symbols = [''BTC-USDT'', ''ETH-USDT'']\<rparr>"
    "valid_exchange \<lparr>ec_name = ''kraken'', ec_interval = 100, ec_symbols = [''BTC-USD'']\<rparr>"
    using u f unfolding valid_exchange_iff symbols_ok_def by (simp_all del: list.map)
  then show ?thesis using d by (simp add: valid_config_def demo_config_def)
qed

text \<open>
  C36: A configuration is accepted only if it is valid: a snapshot depth from 5 to 5000, a view
  depth from 1 to the snapshot depth or the default 10 (which is not held against it), at least one
  exchange, each known and listed once, with distinct upper-case \<open>BASE-QUOTE\<close> symbols, the
  view of a Kraken book inside its depth, and the primary symbol among the symbols; and every
  valid configuration, written as JSON (a view depth above the snapshot depth, which is the
  default, left out), is accepted and read back.
\<close>

theorem config_validation_exact:
  "(parseConfig j = Inr c \<longrightarrow> valid_config c) \<and>
   (valid_config c \<longrightarrow> parseConfig (configJson c) = Inr c)"
  using parseConfig_sound parseConfig_complete by blast

lemma config_validation_exact_demo:
  "parseConfig (configJson demo_config) = Inr demo_config \<and>
   parseConfig (configJson (demo_config\<lparr>cf_snapshotDepth := 5, cf_exchanges := [hd (cf_exchanges demo_config)], cf_primary := ''BTC-USDT''\<rparr>))
     = Inr (demo_config\<lparr>cf_snapshotDepth := 5, cf_exchanges := [hd (cf_exchanges demo_config)], cf_primary := ''BTC-USDT''\<rparr>)"
proof -
  let ?c = "demo_config\<lparr>cf_snapshotDepth := 5, cf_exchanges := [hd (cf_exchanges demo_config)], cf_primary := ''BTC-USDT''\<rparr>"
  have "valid_config ?c" using demo_config_valid by (auto simp: valid_config_def demo_config_def)
  then show ?thesis
    using config_validation_exact [of "configJson demo_config" demo_config] config_validation_exact [of "configJson ?c" ?c] demo_config_valid by blast
qed

text \<open>
  C37: With a valid configuration the program gets off the ground: the books and metrics of
  every exchange are built without an exception, the constructor of the Binance adapter
  accepts the interval, and both adapters accept the symbols and find their books and
  metrics fresh, which is what their runs start from.
\<close>

theorem config_starts_adapters:
  assumes "valid_config c" "ec \<in> set (cf_exchanges c)"
  shows "\<exists>rt A0 A K. buildRuntime (cf_ofiDepth c) ec = Inr rt \<and> newBinance (ec_interval ec) = Inr A0 \<and>
    prepareStart (rt_symbols rt) (rt_books rt) (rt_metrics rt) (cf_snapshotDepth c) (setUpdateCallback A0) = (True, A) \<and>
    fresh (rt_symbols rt) (rt_books rt) (rt_metrics rt) (setUpdateCallback A0) \<and>
    kr_prepare (rt_symbols rt) (rt_books rt) (rt_metrics rt) (cf_snapshotDepth c) newKraken = (True, K) \<and>
    kr_fresh (rt_books rt) (rt_metrics rt)"
proof -
  obtain rt where rt: "buildRuntime (cf_ofiDepth c) ec = Inr rt" "rt_symbols rt = ec_symbols ec"
    "dom (rt_books rt) = set (ec_symbols ec)" "dom (rt_metrics rt) = set (ec_symbols ec)"
    "\<forall>b \<in> ran (rt_books rt). book_small b" "\<forall>m \<in> ran (rt_metrics rt). m = newMetrics"
    using buildRuntime_law by blast
  have "ec_interval ec = 100 \<or> ec_interval ec = 1000" using assms by (auto simp: valid_config_def valid_exchange_def)
  then obtain A0 where A0: "newBinance (ec_interval ec) = Inr A0" "resyncQueue A0 = []" by (auto simp: newBinance_def)
  have present: "\<forall>s \<in> set (rt_symbols rt). s \<in> dom (rt_books rt) \<and> s \<in> dom (rt_metrics rt)" using rt by simp
  have len: "\<forall>m \<in> ran (rt_metrics rt). length (processingBuckets m) = 11"
    using rt(6) by (metis length_replicate metrics.select_convs(6) newMetrics_def)
  have "\<exists>A. prepareStart (rt_symbols rt) (rt_books rt) (rt_metrics rt) (cf_snapshotDepth c) (setUpdateCallback A0) = (True, A)"
    using registerSymbols_total [OF present, of "bin_normalizer (setUpdateCallback A0)" Map.empty]
    by (auto simp: prepareStart_def Let_def split: prod.split)
  moreover have "\<exists>K. kr_prepare (rt_symbols rt) (rt_books rt) (rt_metrics rt) (cf_snapshotDepth c) newKraken = (True, K)"
    using validateSymbols_total [OF present] by (auto simp: kr_prepare_def newKraken_def)
  moreover have "fresh (rt_symbols rt) (rt_books rt) (rt_metrics rt) (setUpdateCallback A0)"
    using A0(2) rt len by (simp add: fresh_def setUpdateCallback_def)
  moreover have "kr_fresh (rt_books rt) (rt_metrics rt)" using rt(5) len by (simp add: kr_fresh_def)
  ultimately show ?thesis using rt(1) A0(1) by blast
qed

lemma config_starts_adapters_demo:
  "\<exists>rt. buildRuntime 10 (hd (cf_exchanges demo_config)) = Inr rt \<and> kr_fresh (rt_books rt) (rt_metrics rt)"
proof -
  have "hd (cf_exchanges demo_config) \<in> set (cf_exchanges demo_config)" by (simp add: demo_config_def)
  from config_starts_adapters [OF demo_config_valid this] show ?thesis by (auto simp: demo_config_def)
qed

text \<open>
  C38: A subscriber reaches every configured book: for a symbol without a dot, the stream
  name \<open>exchange.SYMBOL.book\<close> is parsed into the key under which \<open>main\<close> registered the book
  of that exchange and symbol, and no other.
\<close>

theorem configured_books_reachable:
  assumes "valid_config c" "map (buildRuntime (cf_ofiDepth c)) (cf_exchanges c) = map Inr rts" "rt \<in> set rts"
    "s \<in> set (rt_symbols rt)" "CHR ''.'' \<notin> set s"
  shows "parseStream (rt_name rt @ ''.'' @ s @ ''.book'') = Some (rt_name rt, s) \<and>
    booksPtrs rts (streamKey (rt_name rt) s) = Some (rt_name rt, s) \<and> s \<in> dom (rt_books rt)"
proof -
  have same: "rt_name r = ec_name ec \<and> rt_symbols r = ec_symbols ec \<and> dom (rt_books r) = set (ec_symbols ec)"
    if "buildRuntime (cf_ofiDepth c) ec = Inr r" for r ec
    using buildRuntime_law [of "cf_ofiDepth c" ec] that by auto
  have "list_all2 (\<lambda>ec r. buildRuntime (cf_ofiDepth c) ec = Inr r) (cf_exchanges c) rts"
    using assms(2) by (simp add: list_all2_conv_all_nth list_eq_iff_nth_eq)
  then have l: "list_all2 (\<lambda>ec r. rt_name r = ec_name ec \<and> rt_symbols r = ec_symbols ec \<and> dom (rt_books r) = set (ec_symbols ec)) (cf_exchanges c) rts"
    by (rule list_all2_mono) (use same in blast)
  then have "map rt_name rts = map ec_name (cf_exchanges c)" by (simp add: list_all2_conv_all_nth list_eq_iff_nth_eq)
  then have d: "distinct (map rt_name rts)" using assms(1) by (simp add: valid_config_def)
  have names: "rt_name r = ''binance'' \<or> rt_name r = ''kraken''" "dom (rt_books r) = set (rt_symbols r)" "[] \<notin> set (rt_symbols r)"
    if "r \<in> set rts" for r
  proof -
    obtain ec where ec: "ec \<in> set (cf_exchanges c)" "rt_name r = ec_name ec" "rt_symbols r = ec_symbols ec" "dom (rt_books r) = set (ec_symbols ec)"
    proof -
      obtain i where "i < length rts" "rts ! i = r" using \<open>r \<in> set rts\<close> by (auto simp: in_set_conv_nth)
      then show thesis using l that [of "cf_exchanges c ! i"] by (auto simp: list_all2_conv_all_nth)
    qed
    then have "valid_exchange ec" using assms(1) by (simp add: valid_config_def)
    with ec show "rt_name r = ''binance'' \<or> rt_name r = ''kraken''" "dom (rt_books r) = set (rt_symbols r)" "[] \<notin> set (rt_symbols r)"
      by (auto simp: valid_exchange_def)
  qed
  have nodot: "\<forall>r \<in> set rts. CHR ''.'' \<notin> set (rt_name r)" using names(1) by fastforce
  have "s \<noteq> []" using names(3) [OF assms(3)] assms(4) by metis
  moreover have "rt_name rt \<noteq> []" using names(1) [OF assms(3)] by auto
  ultimately have "parseStream (rt_name rt @ ''.'' @ s @ ''.book'') = Some (rt_name rt, s)"
    using assms(3,5) nodot by (simp add: parseStream_iff)
  with booksPtrs_get [OF d nodot assms(3,4)] names(2) [OF assms(3)] assms(4) show ?thesis by simp
qed

lemma configured_books_reachable_demo:
  "\<exists>rts. map (buildRuntime 10) (cf_exchanges demo_config) = map Inr rts \<and>
     booksPtrs rts ''kraken.BTC-USD'' = Some (''kraken'', ''BTC-USD'')"
proof -
  obtain r1 r2 where r: "buildRuntime 10 \<lparr>ec_name = ''binance'', ec_interval = 1000, ec_symbols = [''BTC-USDT'', ''ETH-USDT'']\<rparr> = Inr r1"
    "buildRuntime 10 \<lparr>ec_name = ''kraken'', ec_interval = 100, ec_symbols = [''BTC-USD'']\<rparr> = Inr r2"
    "rt_name r2 = ''kraken''" "rt_symbols r2 = [''BTC-USD'']"
    using buildRuntime_law by (metis exchange_config.select_convs(1,3))
  then have m: "map (buildRuntime (cf_ofiDepth demo_config)) (cf_exchanges demo_config) = map Inr [r1, r2]" by (simp add: demo_config_def)
  have "r2 \<in> set [r1, r2]" "''BTC-USD'' \<in> set (rt_symbols r2)" "CHR ''.'' \<notin> set ''BTC-USD''" using r by simp_all
  from configured_books_reachable [OF demo_config_valid m this] r m show ?thesis
    by (intro exI [of _ "[r1, r2]"]) (simp add: streamKey_def demo_config_def)
qed

text \<open>
  Starting an adapter ends: after at most ten attempts, with a pause after every failed
  one that doubles from 30 seconds up to five minutes. It succeeds exactly when one of the
  attempts does, and the pauses are those after the attempts before it.
\<close>

lemma start_retries_end:
  "\<exists>k \<le> 10. startLoop 1 30 start = (k < 10, map (\<lambda>i. min (30 * 2 ^ i) 300) [0..<k]) \<and>
     (\<forall>a. 1 \<le> a \<and> a < int k + 1 \<longrightarrow> \<not> start a) \<and> (k < 10 \<longrightarrow> start (int k + 1))"
proof -
  obtain k where k: "k \<le> 10" "\<forall>i < k. \<not> start (int i + 1)" "k < 10 \<longrightarrow> start (int k + 1)"
  proof (cases "\<exists>i < 10. start (int i + 1)")
    case True
    then obtain i where i: "i < 10 \<and> start (int i + 1)" by blast
    let ?k = "LEAST i. i < 10 \<and> start (int i + 1)"
    have "?k < 10 \<and> start (int ?k + 1)" using i by (rule LeastI)
    moreover have "\<not> start (int j + 1)" if "j < ?k" for j using not_less_Least [OF that] calculation that by auto
    ultimately show thesis by (intro that [of ?k]) auto
  next
    case False
    then show thesis by (intro that [of 10]) auto
  qed
  have none: "\<not> start a" if "1 \<le> a" "a < int k + 1" for a
  proof -
    have "a = int (nat (a - 1)) + 1" "nat (a - 1) < k" using that by auto
    then show ?thesis using k(2) by metis
  qed
  have "startLoop 1 30 start = (fst (startLoop (int k + 1) (backoff k) start), map backoff [0..<k] @ snd (startLoop (int k + 1) (backoff k) start))"
    using startLoop_fails [of 0 k start] none k(1) by (simp add: backoff_def kBackoffCapSec_def)
  moreover have "startLoop (int k + 1) (backoff k) start = (k < 10, [])"
    using k(1,3) by (subst startLoop.simps) (auto simp: kMaxStartAttempts_def)
  moreover have "backoff = (\<lambda>i. min (30 * 2 ^ i) 300)" by (simp add: backoff_def kBackoffCapSec_def fun_eq_iff)
  ultimately show ?thesis using k none by (intro exI [of _ k]) simp
qed

lemma start_retries_end_demo: "\<exists>k. startLoop 1 30 (\<lambda>a. a = 6) = (True, map (\<lambda>i. min (30 * 2 ^ i) 300) [0..<k])"
proof -
  obtain k where k: "k \<le> 10" "startLoop 1 30 (\<lambda>a. a = 6) = (k < 10, map (\<lambda>i. min (30 * 2 ^ i) 300) [0..<k])"
    "\<forall>a. 1 \<le> a \<and> a < int k + 1 \<longrightarrow> \<not> a = 6"
    using start_retries_end [of "\<lambda>a. a = 6"] by blast
  have "k < 10" using k(1) k(3) [rule_format, of 6] by (cases "k = 10") auto
  with k(2) show ?thesis by auto
qed

text \<open>The default of \<open>ofi_depth\<close> is not held against \<open>snapshot_depth\<close>, which the message of the check requires.\<close>

lemma default_ofi_depth_unchecked:
  "readSnapshotDepth (JObject [(''snapshot_depth'', JInt 5)]) = Inr 5 \<and> readOfiDepth (JObject [(''snapshot_depth'', JInt 5)]) 5 = Inr 10 \<and>
   readOfiDepth (JObject [(''snapshot_depth'', JInt 5), (''ofi_depth'', JInt 10)]) 5 = Inl (OfiDepthRange 10)"
  by (simp add: readSnapshotDepth_def readOfiDepth_def json_access to_int32_def)

text \<open>A depth far out of range is accepted when its low 32 bits are in range.\<close>

lemma depth_wraps: "readSnapshotDepth (JObject [(''snapshot_depth'', JInt 4294968296)]) = Inr 1000"
  by (simp add: readSnapshotDepth_def json_access to_int32_def)

end
