(* ===== verification/Stream_Text.thy ===== *)
theory Stream_Text
  imports Doubles
begin

text \<open>
  The text that an output stream of the C++ library prints for a double and for an integer,
  as \<open>src/prometheus_format.hpp\<close> writes them.
\<close>

section \<open>Text of a stream\<close>

text \<open>
  What \<open>operator<<\<close> prints for a double with the default precision, \<open>printf("%g")\<close>: six
  significant digits, trailing zeros dropped, in fixed or scientific notation by the
  decimal exponent.
\<close>

definition decimal_exponent :: "rat \<Rightarrow> int" where
  "decimal_exponent v =
     (if 1 \<le> v then int (length (to_string (nat \<lfloor>v\<rfloor>))) - 1
      else - int (length (to_string (nat (\<lceil>1 / v\<rceil> - 1)))))"

definition pow10 :: "int \<Rightarrow> rat" where
  "pow10 e = (if 0 \<le> e then 10 ^ nat e else 1 / 10 ^ nat (- e))"

text \<open>The six digits of a positive number, and the exponent of the first.\<close>

definition six_digits :: "rat \<Rightarrow> string \<times> int" where
  "six_digits v =
     (let e = decimal_exponent v; n = round_even (v * pow10 (5 - e))
      in if n = 1000000 then (''100000'', e + 1) else (to_string (nat n), e))"

definition dotted :: "string \<Rightarrow> string \<Rightarrow> string" where
  "dotted i f = (let f' = drop_zeros f in if f' = [] then i else i @ CHR ''.'' # f')"

definition exponent_text :: "int \<Rightarrow> string" where
  "exponent_text e = (if e < 0 then ''e-'' else ''e+'') @ (let t = to_string (nat \<bar>e\<bar>) in if length t < 2 then CHR ''0'' # t else t)"

definition general6 :: "rat \<Rightarrow> string" where
  "general6 v =
     (if v = 0 then ''0''
      else (let (ds, e) = six_digits \<bar>v\<bar>
            in (if v < 0 then ''-'' else []) @
               (if - 4 \<le> e \<and> e < 0 then dotted ''0'' (replicate (nat (- e - 1)) (CHR ''0'') @ ds)
                else if 0 \<le> e \<and> e < 6 then dotted (take (nat e + 1) ds) (drop (nat e + 1) ds)
                else dotted (take 1 ds) (drop 1 ds) @ exponent_text e)))"

text \<open>No number text has a line break.\<close>

lemma to_string_plain: "CHR 0x0A \<notin> set (to_string n)"
proof -
  have "\<not> is_digit (CHR 0x0A)" by (simp add: is_digit_def)
  then show ?thesis using to_string_digits(1) [of n] by (auto simp: all_digits_def list_all_iff)
qed

lemma drop_zeros_subset: "set (drop_zeros f) \<subseteq> set f"
  using set_dropWhileD by (fastforce simp: drop_zeros_def)

lemma dotted_plain: "CHR 0x0A \<notin> set i \<Longrightarrow> CHR 0x0A \<notin> set f \<Longrightarrow> CHR 0x0A \<notin> set (dotted i f)"
  using drop_zeros_subset by (auto simp: dotted_def Let_def)

lemma general6_plain: "CHR 0x0A \<notin> set (general6 v)"
proof -
  obtain ds e where d: "six_digits \<bar>v\<bar> = (ds, e)" by (cases "six_digits \<bar>v\<bar>")
  then have "CHR 0x0A \<notin> set ds" using to_string_plain by (auto simp: six_digits_def Let_def split: if_splits)
  then have p: "CHR 0x0A \<notin> set (take k ds)" "CHR 0x0A \<notin> set (drop k ds)" for k by (auto dest: in_set_takeD in_set_dropD)
  have "CHR 0x0A \<notin> set (exponent_text e)" using to_string_plain by (simp add: exponent_text_def Let_def)
  moreover have "CHR 0x0A \<notin> set (dotted (take k ds) (drop k ds))" for k by (rule dotted_plain [OF p])
  moreover have "CHR 0x0A \<notin> set (dotted ''0'' (replicate k (CHR ''0'') @ ds))" for k
    by (rule dotted_plain) (use \<open>CHR 0x0A \<notin> set ds\<close> in \<open>simp_all add: set_replicate_conv_if\<close>)
  ultimately show ?thesis by (simp add: general6_def d)
qed

end
