(* ===== verification/Prometheus.thy ===== *)
theory Prometheus
  imports Stream_Text Order_Book Metrics Subscriber_Server
begin

text \<open>
  \<open>src/prometheus_format.hpp\<close> and the exposition of \<open>src/metrics_server.hpp\<close>: the text that
  Prometheus scrapes. The maps are lists in the order in which they are iterated; the clock
  and the contents of \<open>/proc/self/status\<close> are parameters. With a reader of the exposition
  format: the samples that the text stands for.
\<close>

section \<open>Numbers\<close>

definition int_text :: "int \<Rightarrow> string" where
  "int_text i = (if i < 0 then CHR ''-'' # to_string (nat (- i)) else to_string (nat i))"

section \<open>Memory\<close>

text \<open>
  \<open>std::stoll\<close>, and the first \<open>VmRSS\<close> line; the product may overflow. \<open>None\<close> for the lines
  is a file that cannot be read.
\<close>

definition stoll :: "string \<Rightarrow> exn + int" where
  "stoll s =
     (let s1 = dropWhile (\<lambda>c. c \<in> {CHR '' '', CHR 0x09, CHR 0x0A, CHR 0x0B, CHR 0x0C, CHR 0x0D}) s;
          neg = (take 1 s1 = ''-'');
          s2 = (if take 1 s1 = ''-'' \<or> take 1 s1 = ''+'' then drop 1 s1 else s1);
          ds = takeWhile is_digit s2;
          v = (if neg then - digits_value ds else digits_value ds)
      in if ds = [] then Inl (InvalidArgument ''stoll'') else if \<not> in_ll v then Inl (OverflowError ''stoll'') else Inr v)"

fun vmRss :: "string list \<Rightarrow> int option option" where
  "vmRss [] = Some None"
| "vmRss (line # rest) =
     (if take 6 line = ''VmRSS:''
      then (let p = dropWhile (\<lambda>c. c = CHR '' '' \<or> c = CHR 0x09) (drop 6 line)
            in case stoll p of Inl _ \<Rightarrow> Some None | Inr v \<Rightarrow> do { bytes \<leftarrow> ll (v * 1024); Some (Some bytes) })
      else vmRss rest)"

definition readRssBytes :: "string list option \<Rightarrow> int option option" where
  "readRssBytes status = (case status of None \<Rightarrow> Some None | Some lns \<Rightarrow> vmRss lns)"

section \<open>Lines\<close>

fun escapeLabelValue :: "string \<Rightarrow> string" where
  "escapeLabelValue [] = []"
| "escapeLabelValue (c # v) =
     (if c = CHR 0x5C then [CHR 0x5C, CHR 0x5C]
      else if c = CHR 0x22 then [CHR 0x5C, CHR 0x22]
      else if c = CHR 0x0A then [CHR 0x5C, CHR ''n'']
      else [c]) @ escapeLabelValue v"

abbreviation nl :: string where
  "nl \<equiv> [CHR 0x0A]"

abbreviation quote :: string where
  "quote \<equiv> [CHR 0x22]"

definition header :: "bool \<Rightarrow> string \<Rightarrow> string \<Rightarrow> string \<Rightarrow> string" where
  "header emitHeaders ty name help =
     (if \<not> emitHeaders then [] else ''# HELP '' @ name @ '' '' @ help @ nl @ ''# TYPE '' @ name @ '' '' @ ty @ nl)"

definition writeCounterHeader :: "bool \<Rightarrow> string \<Rightarrow> string \<Rightarrow> string" where
  "writeCounterHeader e name help = header e ''counter'' name help"

definition writeGaugeHeader :: "bool \<Rightarrow> string \<Rightarrow> string \<Rightarrow> string" where
  "writeGaugeHeader e name help = header e ''gauge'' name help"

definition writeLine :: "string \<Rightarrow> string \<Rightarrow> string \<Rightarrow> rat \<Rightarrow> string" where
  "writeLine exchange name symbol v =
     name @ ''{exchange='' @ quote @ escapeLabelValue exchange @ quote @ '',symbol='' @ quote @ escapeLabelValue symbol @
     quote @ ''} '' @ general6 v @ nl"

definition bucketLine :: "string \<Rightarrow> string \<Rightarrow> string \<Rightarrow> int \<Rightarrow> string" where
  "bucketLine exchange symbol le v =
     ''lob_processing_time_microseconds_bucket'' @ ''{exchange='' @ quote @ escapeLabelValue exchange @ quote @ '',symbol='' @ quote @
     escapeLabelValue symbol @ quote @ '',le='' @ quote @ le @ quote @ ''} '' @ int_text v @ nl"

definition intLine :: "string \<Rightarrow> string \<Rightarrow> string \<Rightarrow> int \<Rightarrow> string" where
  "intLine exchange name symbol v =
     name @ ''{exchange='' @ quote @ escapeLabelValue exchange @ quote @ '',symbol='' @ quote @ escapeLabelValue symbol @
     quote @ ''} '' @ int_text v @ nl"

definition processLine :: "string \<Rightarrow> string \<Rightarrow> int \<Rightarrow> string" where
  "processLine exchange name v = name @ ''{exchange='' @ quote @ escapeLabelValue exchange @ quote @ ''} '' @ int_text v @ nl"

section \<open>The exposition of one exchange\<close>

type_synonym metrics_list = "(string \<times> metrics) list"

definition linesOf :: "('a \<Rightarrow> string) \<Rightarrow> 'a list \<Rightarrow> string" where
  "linesOf f xs = concat (map f xs)"

text \<open>The age of the data, of the symbols that have some.\<close>

definition ageLines :: "int \<Rightarrow> metrics_list \<Rightarrow> (string \<times> rat) list" where
  "ageLines scrapeNowMs ms =
     map (\<lambda>(s, m). (s, max 0 (to_double (int_double (scrapeNowMs - lastUpdateTimeMs m) / 1000))))
       (filter (\<lambda>(s, m). lastUpdateTimeMs m \<noteq> 0) ms)"

definition spreadLines :: "(string \<times> book_stats) list \<Rightarrow> (string \<times> rat) list" where
  "spreadLines st =
     map (\<lambda>(s, b). (s, to_double (bestAsk b - bestBid b)))
       (filter (\<lambda>(s, b). 0 < bestAsk b \<and> 0 < bestBid b) st)"

text \<open>A family that is left out, with its header, when it has no line.\<close>

definition optionalFamily :: "bool \<Rightarrow> string \<Rightarrow> string \<Rightarrow> string \<Rightarrow> (string \<times> rat) list \<Rightarrow> string" where
  "optionalFamily e exchange name help vs =
     (if vs = [] then [] else writeGaugeHeader e name help @ linesOf (\<lambda>(s, v). writeLine exchange name s v) vs)"

definition histogramLines :: "string \<Rightarrow> string \<times> metrics \<Rightarrow> string" where
  "histogramLines exchange = (\<lambda>(s, m).
     linesOf (\<lambda>i. bucketLine exchange s (int_text (kBucketBounds ! i)) (processingBuckets m ! i)) [0..<10] @
     bucketLine exchange s ''+Inf'' (processingBuckets m ! 10) @
     intLine exchange ''lob_processing_time_microseconds_sum'' s (processingUsSum m) @
     intLine exchange ''lob_processing_time_microseconds_count'' s (processingBuckets m ! 10))"

definition subscriberLines :: "bool \<Rightarrow> string \<Rightarrow> subscriber_stats \<Rightarrow> string" where
  "subscriberLines e exchange st =
     header e ''gauge'' ''lob_subscriber_connected_clients'' ''Current number of connected WebSocket subscriber clients'' @
     processLine exchange ''lob_subscriber_connected_clients'' (connectedClients st) @
     header e ''gauge'' ''lob_subscriber_active_subscriptions'' ''Total active stream subscriptions across all connected clients'' @
     processLine exchange ''lob_subscriber_active_subscriptions'' (activeSubscriptions st) @
     header e ''counter'' ''lob_subscriber_messages_sent_total'' ''Total messages broadcast to subscriber clients'' @
     processLine exchange ''lob_subscriber_messages_sent_total'' (messagesSentTotal st) @
     header e ''counter'' ''lob_subscriber_backpressure_disconnects_total''
       ''Clients disconnected because their send buffer exceeded the backpressure limit'' @
     processLine exchange ''lob_subscriber_backpressure_disconnects_total'' (backpressureDisconnectsTotal st)"

definition ofiHelp :: string where
  "ofiHelp = ''Cumulative Order Flow Imbalance since process start: sum of bid quantity '' @
     ''changes minus ask quantity changes across the top OFI view levels, '' @
     ''populated from every non-Backfill delta (including Maintenance). '' @
     ''Use deriv() or delta() in Grafana to obtain the per-interval rate.''"

definition buildPrometheusOutput ::
  "int \<Rightarrow> int option \<Rightarrow> string \<Rightarrow> metrics_list \<Rightarrow> (string \<times> orderbook) list \<Rightarrow> subscriber_stats option \<Rightarrow> bool \<Rightarrow> string" where
  "buildPrometheusOutput scrapeNowMs rss exchange ms books subStats e =
     (let allStats = map (\<lambda>(s, b). (s, getStats b)) books in
      writeCounterHeader e ''lob_messages_total'' ''Total messages received from exchange'' @
      linesOf (\<lambda>(s, m). writeLine exchange ''lob_messages_total'' s (int_double (msgCount m))) ms @
      writeGaugeHeader e ''lob_event_lag_milliseconds'' ''Last event lag in milliseconds'' @
      linesOf (\<lambda>(s, m). writeLine exchange ''lob_event_lag_milliseconds'' s (int_double (lastEventLagMs m))) ms @
      optionalFamily e exchange ''lob_feed_data_age_seconds'' ''Seconds since last order book update; absent until first update''
        (ageLines scrapeNowMs ms) @
      header e ''histogram'' ''lob_processing_time_microseconds'' ''Time to process one order book update in microseconds'' @
      linesOf (histogramLines exchange) ms @
      writeGaugeHeader e ''lob_orderbook_asks_count'' ''Number of ask price levels in the order book'' @
      linesOf (\<lambda>(s, b). writeLine exchange ''lob_orderbook_asks_count'' s (int_double (int (asksCount b)))) allStats @
      writeGaugeHeader e ''lob_orderbook_bids_count'' ''Number of bid price levels in the order book'' @
      linesOf (\<lambda>(s, b). writeLine exchange ''lob_orderbook_bids_count'' s (int_double (int (bidsCount b)))) allStats @
      writeGaugeHeader e ''lob_orderbook_best_ask_price'' ''Best ask price in USD'' @
      linesOf (\<lambda>(s, b). if 0 < bestAsk b then writeLine exchange ''lob_orderbook_best_ask_price'' s (bestAsk b) else []) allStats @
      writeGaugeHeader e ''lob_orderbook_best_bid_price'' ''Best bid price in USD'' @
      linesOf (\<lambda>(s, b). if 0 < bestBid b then writeLine exchange ''lob_orderbook_best_bid_price'' s (bestBid b) else []) allStats @
      optionalFamily e exchange ''lob_orderbook_spread_price'' ''Spread between best ask and best bid in USD'' (spreadLines allStats) @
      writeGaugeHeader e ''lob_ofi_value'' ofiHelp @
      linesOf (\<lambda>(s, m). writeLine exchange ''lob_ofi_value'' s (unscaled (ofiAccumulator m))) ms @
      (case rss of
         None \<Rightarrow> []
       | Some bytes \<Rightarrow>
           header e ''gauge'' ''lob_process_rss_bytes'' ''Resident set size of the process in bytes'' @
           processLine exchange ''lob_process_rss_bytes'' bytes) @
      (case subStats of None \<Rightarrow> [] | Some st \<Rightarrow> subscriberLines e exchange st))"

section \<open>All exchanges\<close>

text \<open>One exchange of the metrics server, with the clock and the memory of its scrape.\<close>

record metrics_view =
  view_name :: string
  view_metrics :: metrics_list
  view_books :: "(string \<times> orderbook) list"
  view_now :: int
  view_rss :: "int option"

fun buildViews :: "subscriber_stats option \<Rightarrow> bool \<Rightarrow> metrics_view list \<Rightarrow> string" where
  "buildViews subStats first [] = []"
| "buildViews subStats first (v # vs) =
     buildPrometheusOutput (view_now v) (view_rss v) (view_name v) (view_metrics v) (view_books v)
       (if first then subStats else None) first @ buildViews subStats False vs"

definition buildPrometheusMetrics :: "subscriber_stats option \<Rightarrow> metrics_view list \<Rightarrow> string" where
  "buildPrometheusMetrics subStats views = buildViews subStats True views"

text \<open>The routes of the HTTP server: the text and the content type of the answer to a path, \<open>None\<close> without a route.\<close>

definition metricsRoutes :: "subscriber_stats option \<Rightarrow> metrics_view list \<Rightarrow> string \<Rightarrow> (string \<times> string) option" where
  "metricsRoutes subStats views path =
     (if path = ''/metrics'' then Some (buildPrometheusMetrics subStats views, ''text/plain; version=0.0.4; charset=utf-8'')
      else if path = ''/health'' then Some (''ok'' @ nl, ''text/plain'')
      else None)"

section \<open>Reading an exposition\<close>

text \<open>A label value up to its closing quote, and the labels up to the closing brace.\<close>

fun readLabel :: "string \<Rightarrow> (string \<times> string) option" where
  "readLabel [] = None"
| "readLabel (c # s) =
     (if c = CHR 0x22 then Some ([], s)
      else if c = CHR 0x5C
      then (case s of
              [] \<Rightarrow> None
            | d # s' \<Rightarrow> do {
                (v, r) \<leftarrow> readLabel s';
                Some ((if d = CHR ''n'' then CHR 0x0A else d) # v, r)
              })
      else do { (v, r) \<leftarrow> readLabel s; Some (c # v, r) })"

fun readLabels :: "nat \<Rightarrow> string \<Rightarrow> ((string \<times> string) list \<times> string) option" where
  "readLabels 0 s = None"
| "readLabels (Suc n) s =
     (let key = takeWhile (\<lambda>c. c \<noteq> CHR ''='') s in
      case drop (length key + 1) s of
        [] \<Rightarrow> None
      | q # s1 \<Rightarrow>
          if q \<noteq> CHR 0x22 then None
          else do {
            (v, s2) \<leftarrow> readLabel s1;
            (case s2 of
               [] \<Rightarrow> None
             | c # s3 \<Rightarrow>
                 if c = CHR '','' then do { (ls, r) \<leftarrow> readLabels n s3; Some ((key, v) # ls, r) }
                 else if c = CHR ''}'' then Some ([(key, v)], s3) else None)
          })"

declare readLabels.simps [simp del]

record sample =
  sm_name :: string
  sm_labels :: "(string \<times> string) list"
  sm_value :: string

text \<open>A line: a comment, or a sample with at most as many labels as the line has characters.\<close>

definition readLine :: "string \<Rightarrow> sample option" where
  "readLine l =
     (let name = takeWhile (\<lambda>c. c \<noteq> CHR ''{'') l
      in case readLabels (length l) (drop (length name + 1) l) of
           Some (ls, CHR '' '' # v) \<Rightarrow> Some \<lparr>sm_name = name, sm_labels = ls, sm_value = v\<rparr>
         | _ \<Rightarrow> None)"

fun split_lines :: "string \<Rightarrow> string \<Rightarrow> string list" where
  "split_lines acc [] = (if acc = [] then [] else [acc])"
| "split_lines acc (c # s) = (if c = CHR 0x0A then acc # split_lines [] s else split_lines (acc @ [c]) s)"

definition readExposition :: "string \<Rightarrow> sample list option" where
  "readExposition text = those (map readLine (filter (\<lambda>l. take 1 l \<noteq> ''#'') (split_lines [] text)))"

end
