(* ===== verification/Prometheus_Laws.thy ===== *)
theory Prometheus_Laws
  imports Prometheus
begin

text \<open>
  What a reader of the exposition format finds in the text: the samples of every metric, with
  the exact names of exchange and symbol, whatever characters they have.
\<close>

section \<open>Labels\<close>

lemma readLabel_escape: "readLabel (escapeLabelValue v @ CHR 0x22 # rest) = Some (v, rest)"
  by (induction v) auto

lemma escape_plain: "CHR 0x0A \<notin> set (escapeLabelValue v)"
  by (induction v) auto

lemma escape_id: "\<forall>c \<in> set v. c \<noteq> CHR 0x5C \<and> c \<noteq> CHR 0x22 \<and> c \<noteq> CHR 0x0A \<Longrightarrow> escapeLabelValue v = v"
  by (induction v) auto

lemma readLabels_one:
  assumes "CHR ''='' \<notin> set key"
  shows "readLabels (Suc n) (key @ CHR ''='' # CHR 0x22 # escapeLabelValue v @ CHR 0x22 # c # rest) =
    (if c = CHR '','' then do { (ls, r) \<leftarrow> readLabels n rest; Some ((key, v) # ls, r) }
     else if c = CHR ''}'' then Some ([(key, v)], rest) else None)"
proof -
  have "takeWhile (\<lambda>c. c \<noteq> CHR ''='') (key @ CHR ''='' # s) = key" for s
    using assms by (simp add: takeWhile_append)
  then show ?thesis by (simp add: Let_def readLabel_escape readLabels.simps)
qed

section \<open>Lines\<close>

definition reads :: "string \<Rightarrow> sample list \<Rightarrow> bool" where
  "reads t ss \<longleftrightarrow> (\<exists>lns. t = concat (map (\<lambda>l. l @ nl) lns) \<and> (\<forall>l \<in> set lns. CHR 0x0A \<notin> set l) \<and>
     those (map readLine (filter (\<lambda>l. take 1 l \<noteq> ''#'') lns)) = Some ss)"

lemma those_append: "those xs = Some ys \<Longrightarrow> those zs = Some ws \<Longrightarrow> those (xs @ zs) = Some (ys @ ws)"
  by (induction xs arbitrary: ys) (auto split: option.splits)

lemma reads_append: "reads t ss \<Longrightarrow> reads t' ss' \<Longrightarrow> reads (t @ t') (ss @ ss')"
proof -
  assume "reads t ss" "reads t' ss'"
  then obtain l l' where l: "t = concat (map (\<lambda>l. l @ nl) l)" "\<forall>x \<in> set l. CHR 0x0A \<notin> set x"
      "those (map readLine (filter (\<lambda>l. take 1 l \<noteq> ''#'') l)) = Some ss"
    and l': "t' = concat (map (\<lambda>l. l @ nl) l')" "\<forall>x \<in> set l'. CHR 0x0A \<notin> set x"
      "those (map readLine (filter (\<lambda>l. take 1 l \<noteq> ''#'') l')) = Some ss'"
    unfolding reads_def by blast
  show ?thesis unfolding reads_def
    by (rule exI [of _ "l @ l'"]) (use l l' those_append [OF l(3) l'(3)] in auto)
qed

lemma reads_Nil: "reads [] []"
  unfolding reads_def by (rule exI [of _ "[]"]) simp

lemma reads_line: "CHR 0x0A \<notin> set l \<Longrightarrow> take 1 l \<noteq> ''#'' \<Longrightarrow> readLine l = Some s \<Longrightarrow> reads (l @ nl) [s]"
  unfolding reads_def by (rule exI [of _ "[l]"]) simp

lemma reads_comment: "CHR 0x0A \<notin> set l \<Longrightarrow> take 1 l = ''#'' \<Longrightarrow> reads (l @ nl) []"
  unfolding reads_def by (rule exI [of _ "[l]"]) simp

lemma reads_lines: "(\<And>x. x \<in> set xs \<Longrightarrow> reads (f x) (g x)) \<Longrightarrow> reads (linesOf f xs) (concat (map g xs))"
  by (induction xs) (auto simp: linesOf_def intro: reads_Nil reads_append)

lemma split_lines_concat: "\<forall>l \<in> set lns. CHR 0x0A \<notin> set l \<Longrightarrow> split_lines [] (concat (map (\<lambda>l. l @ nl) lns)) = lns"
proof (induction lns)
  case (Cons l lns)
  have "CHR 0x0A \<notin> set x \<Longrightarrow> split_lines acc (x @ CHR 0x0A # s) = (acc @ x) # split_lines [] s" for x acc s
    by (induction x arbitrary: acc) auto
  then show ?case using Cons by simp
qed simp

lemma reads_exposition: "reads t ss \<Longrightarrow> readExposition t = Some ss"
  unfolding reads_def readExposition_def using split_lines_concat by auto

section \<open>The lines of the exposition\<close>

definition plain_name :: "string \<Rightarrow> bool" where
  "plain_name n \<longleftrightarrow> CHR 0x0A \<notin> set n \<and> CHR ''{'' \<notin> set n \<and> n \<noteq> [] \<and> hd n \<noteq> CHR ''#''"

lemma readLine_body:
  assumes "plain_name name" "readLabels (length (name @ CHR ''{'' # body)) body = Some (ls, CHR '' '' # v)"
  shows "readLine (name @ CHR ''{'' # body) = Some \<lparr>sm_name = name, sm_labels = ls, sm_value = v\<rparr>"
proof -
  have "takeWhile (\<lambda>c. c \<noteq> CHR ''{'') (name @ CHR ''{'' # body) = name"
    using assms(1) by (simp add: takeWhile_append plain_name_def)
  then show ?thesis using assms(2) by (simp add: readLine_def Let_def)
qed

lemma reads_header:
  assumes "plain_name name" "CHR 0x0A \<notin> set ty" "CHR 0x0A \<notin> set hlp"
  shows "reads (header e ty name hlp) []"
proof -
  have "reads ((''# HELP '' @ name @ '' '' @ hlp) @ nl) []" "reads ((''# TYPE '' @ name @ '' '' @ ty) @ nl) []"
    by (rule reads_comment; use assms in \<open>simp add: plain_name_def\<close>)+
  from reads_append [OF this] show ?thesis using reads_Nil by (simp add: header_def)
qed

lemma plain_start: "plain_name name \<Longrightarrow> take 1 (name @ s) \<noteq> ''#''"
  by (cases name) (auto simp: plain_name_def)

definition two_labels :: "string \<Rightarrow> string \<Rightarrow> (string \<times> string) list" where
  "two_labels exchange symbol = [(''exchange'', exchange), (''symbol'', symbol)]"

lemma readLabels_two:
  "readLabels (Suc (Suc n)) (''exchange='' @ quote @ escapeLabelValue x @ quote @ '',symbol='' @ quote @ escapeLabelValue s @ quote @ ''}'' @ rest) =
     Some (two_labels x s, rest)"
  using readLabels_one [of "''exchange''" "Suc n" x "CHR '',''" "''symbol='' @ quote @ escapeLabelValue s @ quote @ ''}'' @ rest"]
    readLabels_one [of "''symbol''" n s "CHR ''}''" rest]
  by (simp add: two_labels_def)

lemma reads_two:
  assumes "plain_name name" "CHR 0x0A \<notin> set v"
  shows "reads (name @ ''{exchange='' @ quote @ escapeLabelValue x @ quote @ '',symbol='' @ quote @ escapeLabelValue s @ quote @ ''} '' @ v @ nl)
    [\<lparr>sm_name = name, sm_labels = two_labels x s, sm_value = v\<rparr>]"
proof -
  let ?body = "''exchange='' @ quote @ escapeLabelValue x @ quote @ '',symbol='' @ quote @ escapeLabelValue s @ quote @ ''}'' @ '' '' @ v"
  obtain n where n: "length (name @ CHR ''{'' # ?body) = Suc (Suc n)" by simp
  have "readLabels (length (name @ CHR ''{'' # ?body)) ?body = Some (two_labels x s, CHR '' '' # v)"
    unfolding n using readLabels_two [of n x s "'' '' @ v"] by simp
  from readLine_body [OF assms(1) this] have r: "readLine (name @ CHR ''{'' # ?body) = Some \<lparr>sm_name = name, sm_labels = two_labels x s, sm_value = v\<rparr>" .
  have "reads ((name @ CHR ''{'' # ?body) @ nl) [\<lparr>sm_name = name, sm_labels = two_labels x s, sm_value = v\<rparr>]"
    by (rule reads_line [OF _ plain_start [OF assms(1)] r]) (use assms in \<open>simp add: plain_name_def escape_plain\<close>)
  then show ?thesis by simp
qed

definition float_sample :: "string \<Rightarrow> string \<Rightarrow> string \<Rightarrow> rat \<Rightarrow> sample" where
  "float_sample x name s v = \<lparr>sm_name = name, sm_labels = two_labels x s, sm_value = general6 v\<rparr>"

definition int_sample :: "string \<Rightarrow> string \<Rightarrow> string \<Rightarrow> int \<Rightarrow> sample" where
  "int_sample x name s v = \<lparr>sm_name = name, sm_labels = two_labels x s, sm_value = int_text v\<rparr>"

definition bucket_sample :: "string \<Rightarrow> string \<Rightarrow> string \<Rightarrow> int \<Rightarrow> sample" where
  "bucket_sample x s le v = \<lparr>sm_name = ''lob_processing_time_microseconds_bucket'', sm_labels = two_labels x s @ [(''le'', le)], sm_value = int_text v\<rparr>"

definition process_sample :: "string \<Rightarrow> string \<Rightarrow> int \<Rightarrow> sample" where
  "process_sample x name v = \<lparr>sm_name = name, sm_labels = [(''exchange'', x)], sm_value = int_text v\<rparr>"

lemma int_text_plain: "CHR 0x0A \<notin> set (int_text i)"
  using to_string_plain by (simp add: int_text_def)

lemma int_text_unescaped: "escapeLabelValue (int_text i) = int_text i"
proof -
  have "\<not> is_digit (CHR 0x5C)" "\<not> is_digit (CHR 0x22)" "\<not> is_digit (CHR 0x0A)" by (simp_all add: is_digit_def)
  then have "\<forall>c \<in> set (to_string n). c \<noteq> CHR 0x5C \<and> c \<noteq> CHR 0x22 \<and> c \<noteq> CHR 0x0A" for n
    using to_string_digits(1) [of n] by (auto simp: all_digits_def list_all_iff)
  then show ?thesis by (intro escape_id) (auto simp: int_text_def)
qed

lemma reads_writeLine: "plain_name name \<Longrightarrow> reads (writeLine x name s v) [float_sample x name s v]"
  unfolding writeLine_def float_sample_def by (rule reads_two [OF _ general6_plain])

lemma reads_intLine: "plain_name name \<Longrightarrow> reads (intLine x name s v) [int_sample x name s v]"
  unfolding intLine_def int_sample_def by (rule reads_two [OF _ int_text_plain])

lemma reads_processLine:
  assumes "plain_name name"
  shows "reads (processLine x name v) [process_sample x name v]"
proof -
  let ?body = "''exchange='' @ quote @ escapeLabelValue x @ quote @ ''}'' @ '' '' @ int_text v"
  obtain n where n: "length (name @ CHR ''{'' # ?body) = Suc n" by simp
  have "readLabels (length (name @ CHR ''{'' # ?body)) ?body = Some ([(''exchange'', x)], CHR '' '' # int_text v)"
    unfolding n using readLabels_one [of "''exchange''" n x "CHR ''}''" "'' '' @ int_text v"] by simp
  from readLine_body [OF assms this] have r: "readLine (name @ CHR ''{'' # ?body) = Some (process_sample x name v)" by (simp add: process_sample_def)
  have "reads ((name @ CHR ''{'' # ?body) @ nl) [process_sample x name v]"
    by (rule reads_line [OF _ plain_start [OF assms] r]) (use assms int_text_plain in \<open>simp add: plain_name_def escape_plain\<close>)
  then show ?thesis by (simp add: processLine_def)
qed

lemma reads_bucketLine:
  assumes le: "escapeLabelValue le = le"
  shows "reads (bucketLine x s le v) [bucket_sample x s le v]"
proof -
  let ?name = "''lob_processing_time_microseconds_bucket''"
  let ?body = "''exchange='' @ quote @ escapeLabelValue x @ quote @ '',symbol='' @ quote @ escapeLabelValue s @ quote @ '',le='' @ quote @ le @ quote @ ''}'' @ '' '' @ int_text v"
  have name: "plain_name ?name" by (simp add: plain_name_def)
  obtain n where n: "length (?name @ CHR ''{'' # ?body) = Suc (Suc (Suc n))" by simp
  have "readLabels (length (?name @ CHR ''{'' # ?body)) ?body = Some (two_labels x s @ [(''le'', le)], CHR '' '' # int_text v)"
    unfolding n
    using readLabels_one [of "''exchange''" "Suc (Suc n)" x "CHR '',''" "''symbol='' @ quote @ escapeLabelValue s @ quote @ '',le='' @ quote @ le @ quote @ ''}'' @ '' '' @ int_text v"]
      readLabels_one [of "''symbol''" "Suc n" s "CHR '',''" "''le='' @ quote @ le @ quote @ ''}'' @ '' '' @ int_text v"]
      readLabels_one [of "''le''" n le "CHR ''}''" "'' '' @ int_text v"]
    by (simp add: two_labels_def le)
  from readLine_body [OF name this] have r: "readLine (?name @ CHR ''{'' # ?body) = Some (bucket_sample x s le v)" by (simp add: bucket_sample_def)
  have "CHR 0x0A \<notin> set le" using escape_plain [of le] by (simp add: le)
  then have "reads ((?name @ CHR ''{'' # ?body) @ nl) [bucket_sample x s le v]"
    by (intro reads_line [OF _ plain_start [OF name] r]) (use int_text_plain in \<open>simp add: escape_plain\<close>)
  then show ?thesis by (simp add: bucketLine_def)
qed

section \<open>The exposition\<close>

definition family :: "string \<Rightarrow> string \<Rightarrow> (string \<times> rat) list \<Rightarrow> sample list" where
  "family x name vs = map (\<lambda>(s, v). float_sample x name s v) vs"

definition histogram_samples :: "string \<Rightarrow> string \<times> metrics \<Rightarrow> sample list" where
  "histogram_samples x = (\<lambda>(s, m).
     map (\<lambda>i. bucket_sample x s (int_text (kBucketBounds ! i)) (processingBuckets m ! i)) [0..<10] @
     [bucket_sample x s ''+Inf'' (processingBuckets m ! 10),
      int_sample x ''lob_processing_time_microseconds_sum'' s (processingUsSum m),
      int_sample x ''lob_processing_time_microseconds_count'' s (processingBuckets m ! 10)])"

definition subscriber_samples :: "string \<Rightarrow> subscriber_stats \<Rightarrow> sample list" where
  "subscriber_samples x st =
     [process_sample x ''lob_subscriber_connected_clients'' (connectedClients st),
      process_sample x ''lob_subscriber_active_subscriptions'' (activeSubscriptions st),
      process_sample x ''lob_subscriber_messages_sent_total'' (messagesSentTotal st),
      process_sample x ''lob_subscriber_backpressure_disconnects_total'' (backpressureDisconnectsTotal st)]"

definition book_prices :: "(book_stats \<Rightarrow> rat) \<Rightarrow> (string \<times> orderbook) list \<Rightarrow> (string \<times> rat) list" where
  "book_prices f books = filter (\<lambda>(s, v). 0 < v) (map (\<lambda>(s, b). (s, f (getStats b))) books)"

definition samples :: "int \<Rightarrow> int option \<Rightarrow> string \<Rightarrow> metrics_list \<Rightarrow> (string \<times> orderbook) list \<Rightarrow> subscriber_stats option \<Rightarrow> sample list" where
  "samples now rss x ms books subStats =
     family x ''lob_messages_total'' (map (\<lambda>(s, m). (s, int_double (msgCount m))) ms) @
     family x ''lob_event_lag_milliseconds'' (map (\<lambda>(s, m). (s, int_double (lastEventLagMs m))) ms) @
     family x ''lob_feed_data_age_seconds'' (ageLines now ms) @
     concat (map (histogram_samples x) ms) @
     family x ''lob_orderbook_asks_count'' (map (\<lambda>(s, b). (s, int_double (int (asksCount (getStats b))))) books) @
     family x ''lob_orderbook_bids_count'' (map (\<lambda>(s, b). (s, int_double (int (bidsCount (getStats b))))) books) @
     family x ''lob_orderbook_best_ask_price'' (book_prices bestAsk books) @
     family x ''lob_orderbook_best_bid_price'' (book_prices bestBid books) @
     family x ''lob_orderbook_spread_price'' (spreadLines (map (\<lambda>(s, b). (s, getStats b)) books)) @
     family x ''lob_ofi_value'' (map (\<lambda>(s, m). (s, unscaled (ofiAccumulator m))) ms) @
     (case rss of None \<Rightarrow> [] | Some bytes \<Rightarrow> [process_sample x ''lob_process_rss_bytes'' bytes]) @
     (case subStats of None \<Rightarrow> [] | Some st \<Rightarrow> subscriber_samples x st)"

lemma reads_family:
  assumes "plain_name name" "\<And>y. y \<in> set xs \<Longrightarrow> f y = writeLine x name (fst (h y)) (snd (h y))"
  shows "reads (linesOf f xs) (family x name (map h xs))"
proof -
  have "family x name (map h xs) = concat (map (\<lambda>y. [float_sample x name (fst (h y)) (snd (h y))]) xs)"
    by (induction xs) (simp_all add: family_def split_def)
  then show ?thesis using reads_lines [of xs f "\<lambda>y. [float_sample x name (fst (h y)) (snd (h y))]"] reads_writeLine [OF assms(1)] assms(2)
    by auto
qed

lemma reads_prices:
  assumes "plain_name name"
  shows "reads (linesOf (\<lambda>(s, b). if 0 < f b then writeLine x name s (f b) else []) (map (\<lambda>(s, b). (s, getStats b)) books))
    (family x name (book_prices f books))"
proof -
  let ?g = "\<lambda>(s, b). if 0 < f b then [float_sample x name s (f b)] else []"
  have "family x name (book_prices f books) = concat (map ?g (map (\<lambda>(s, b). (s, getStats b)) books))"
    by (induction books) (auto simp: family_def book_prices_def)
  moreover have "reads (linesOf (\<lambda>(s, b). if 0 < f b then writeLine x name s (f b) else []) (map (\<lambda>(s, b). (s, getStats b)) books))
      (concat (map ?g (map (\<lambda>(s, b). (s, getStats b)) books)))"
    by (rule reads_lines) (auto simp: reads_Nil reads_writeLine [OF assms])
  ultimately show ?thesis by simp
qed

lemma reads_optional:
  assumes "plain_name name" "CHR 0x0A \<notin> set hlp"
  shows "reads (optionalFamily e x name hlp vs) (family x name vs)"
proof -
  have "reads (linesOf (\<lambda>(s, v). writeLine x name s v) vs) (family x name (map id vs))"
    by (rule reads_family [OF assms(1)]) auto
  moreover have "reads (writeGaugeHeader e name hlp) []"
    unfolding writeGaugeHeader_def by (rule reads_header) (use assms in simp_all)
  ultimately show ?thesis
    using reads_append [of "writeGaugeHeader e name hlp" "[]"] reads_Nil by (simp add: optionalFamily_def family_def)
qed

lemma reads_histogram: "reads (histogramLines x sm) (histogram_samples x sm)"
proof -
  obtain s m where sm: "sm = (s, m)" by (cases sm)
  have 1: "reads (linesOf (\<lambda>i. bucketLine x s (int_text (kBucketBounds ! i)) (processingBuckets m ! i)) [0..<10])
      (concat (map (\<lambda>i. [bucket_sample x s (int_text (kBucketBounds ! i)) (processingBuckets m ! i)]) [0..<10]))"
    by (rule reads_lines) (rule reads_bucketLine [OF int_text_unescaped])
  have 2: "reads (bucketLine x s ''+Inf'' (processingBuckets m ! 10)) [bucket_sample x s ''+Inf'' (processingBuckets m ! 10)]"
    by (rule reads_bucketLine) simp
  have 3: "plain_name ''lob_processing_time_microseconds_sum''" "plain_name ''lob_processing_time_microseconds_count''"
    by (simp_all add: plain_name_def)
  have "concat (map (\<lambda>i. [h i]) is) = map h is" for h :: "nat \<Rightarrow> sample" and "is" by (induction "is") simp_all
  then show ?thesis
    using reads_append [OF 1 reads_append [OF 2 reads_append [OF reads_intLine [OF 3(1)] reads_intLine [OF 3(2)]]]]
    by (simp add: histogramLines_def histogram_samples_def sm)
qed

lemma reads_subscribers: "reads (subscriberLines e x st) (subscriber_samples x st)"
proof -
  have h: "reads (header e ''gauge'' name hlp @ processLine x name v) [process_sample x name v]"
    "reads (header e ''counter'' name hlp @ processLine x name v) [process_sample x name v]"
    if "plain_name name" "CHR 0x0A \<notin> set hlp" for name hlp v
    using reads_append [OF reads_header [OF that(1) _ that(2), of "''gauge''" e] reads_processLine [OF that(1)]]
      reads_append [OF reads_header [OF that(1) _ that(2), of "''counter''" e] reads_processLine [OF that(1)]] by simp_all
  have 1: "reads (header e ''gauge'' ''lob_subscriber_connected_clients'' ''Current number of connected WebSocket subscriber clients'' @
      processLine x ''lob_subscriber_connected_clients'' (connectedClients st)) [process_sample x ''lob_subscriber_connected_clients'' (connectedClients st)]"
    by (rule h(1)) (simp_all add: plain_name_def)
  have 2: "reads (header e ''gauge'' ''lob_subscriber_active_subscriptions'' ''Total active stream subscriptions across all connected clients'' @
      processLine x ''lob_subscriber_active_subscriptions'' (activeSubscriptions st)) [process_sample x ''lob_subscriber_active_subscriptions'' (activeSubscriptions st)]"
    by (rule h(1)) (simp_all add: plain_name_def)
  have 3: "reads (header e ''counter'' ''lob_subscriber_messages_sent_total'' ''Total messages broadcast to subscriber clients'' @
      processLine x ''lob_subscriber_messages_sent_total'' (messagesSentTotal st)) [process_sample x ''lob_subscriber_messages_sent_total'' (messagesSentTotal st)]"
    by (rule h(2)) (simp_all add: plain_name_def)
  have 4: "reads (header e ''counter'' ''lob_subscriber_backpressure_disconnects_total''
       ''Clients disconnected because their send buffer exceeded the backpressure limit'' @
      processLine x ''lob_subscriber_backpressure_disconnects_total'' (backpressureDisconnectsTotal st))
      [process_sample x ''lob_subscriber_backpressure_disconnects_total'' (backpressureDisconnectsTotal st)]"
    by (rule h(2)) (simp_all add: plain_name_def)
  show ?thesis
    using reads_append [OF 1 reads_append [OF 2 reads_append [OF 3 4]]]
    by (simp only: subscriberLines_def subscriber_samples_def append_assoc append_Cons append_Nil)
qed

lemma reads_optional_line:
  "plain_name name \<Longrightarrow> CHR 0x0A \<notin> set hlp \<Longrightarrow> reads (case v of None \<Rightarrow> [] | Some i \<Rightarrow> header e ''gauge'' name hlp @ processLine x name i)
     (case v of None \<Rightarrow> [] | Some i \<Rightarrow> [process_sample x name i])"
  using reads_append [OF reads_header [of name "''gauge''" hlp e] reads_processLine [of name x]] reads_Nil
  by (cases v) simp_all

text \<open>A family with its header.\<close>

lemma reads_headed:
  assumes "plain_name name" "CHR 0x0A \<notin> set hlp" "reads t ss" "reads r rs"
  shows "reads (writeGaugeHeader e name hlp @ t @ r) (ss @ rs)" "reads (writeCounterHeader e name hlp @ t @ r) (ss @ rs)"
    "reads (header e ''histogram'' name hlp @ t @ r) (ss @ rs)"
proof -
  have h: "reads (header e ty name hlp) []" if "CHR 0x0A \<notin> set ty" for ty by (rule reads_header [OF assms(1) that assms(2)])
  show "reads (writeGaugeHeader e name hlp @ t @ r) (ss @ rs)" "reads (writeCounterHeader e name hlp @ t @ r) (ss @ rs)"
    "reads (header e ''histogram'' name hlp @ t @ r) (ss @ rs)"
    using reads_append [OF h reads_append [OF assms(3,4)]] by (simp_all add: writeGaugeHeader_def writeCounterHeader_def)
qed

lemma reads_fam:
  "plain_name name \<Longrightarrow> reads (linesOf (\<lambda>(s, m). writeLine x name s (g m)) ys) (family x name (map (\<lambda>(s, m). (s, g m)) ys))"
  by (rule reads_family) auto

lemma reads_stats:
  "plain_name name \<Longrightarrow> reads (linesOf (\<lambda>(s, b). writeLine x name s (g b)) (map (\<lambda>(s, b). (s, getStats b)) books))
     (family x name (map (\<lambda>(s, b). (s, g (getStats b))) books))"
  using reads_fam [of name x g "map (\<lambda>(s, b). (s, getStats b)) books"] by (simp add: comp_def split_def)

lemma reads_output: "reads (buildPrometheusOutput now rss x ms books subStats e) (samples now rss x ms books subStats)"
proof -
  have sub: "reads (case subStats of None \<Rightarrow> [] | Some st \<Rightarrow> subscriberLines e x st)
      (case subStats of None \<Rightarrow> [] | Some st \<Rightarrow> subscriber_samples x st)"
    using reads_subscribers reads_Nil by (cases subStats) simp_all
  show ?thesis
    unfolding buildPrometheusOutput_def samples_def Let_def
    by (rule reads_headed(2) [OF _ _ reads_fam reads_headed(1) [OF _ _ reads_fam reads_append [OF reads_optional
        reads_headed(3) [OF _ _ reads_lines [OF reads_histogram] reads_headed(1) [OF _ _ reads_stats reads_headed(1) [OF _ _ reads_stats
        reads_headed(1) [OF _ _ reads_prices reads_headed(1) [OF _ _ reads_prices reads_append [OF reads_optional
        reads_headed(1) [OF _ _ reads_fam reads_append [OF reads_optional_line sub]]]]]]]]]]])
      (simp_all add: plain_name_def ofiHelp_def)
qed

section \<open>Numbers that are printed exactly\<close>

lemma round_even_int: "round_even (of_int n) = n"
  by (rule round_even_near) simp

text \<open>A double holds every integer below \<open>2^53\<close>.\<close>

lemma int_double_exact:
  assumes "\<bar>n\<bar> < 2 ^ 53"
  shows "int_double n = of_int n"
proof (cases "n = 0")
  case False
  let ?e = "binary_exponent (of_int n)"
  have "pow2 ?e \<le> \<bar>of_int n\<bar>" using binary_exponent_le False by simp
  also have "\<bar>of_int n :: rat\<bar> < 2 ^ 53" using assms by (metis of_int_abs of_int_less_iff of_int_numeral of_int_power)
  finally have less: "pow2 ?e < 2 ^ 53" .
  have "?e \<le> 52"
  proof (rule ccontr)
    assume "\<not> ?e \<le> 52"
    then have "53 \<le> nat ?e" "0 \<le> ?e" by linarith+
    then have "(2::rat) ^ 53 \<le> pow2 ?e" unfolding pow2_def using power_increasing [of 53 "nat ?e" "2::rat"] by simp
    then show False using less by simp
  qed
  then obtain k where k: "52 - ?e = int k" by (metis diff_ge_0_iff_ge nonneg_int_cases)
  have "pow2 (?e - 52) * 2 ^ k = pow2 (?e - 52 + int k)" by (simp only: pow2_add mult.commute)
  also have "\<dots> = 1" using k by (simp add: pow2_def)
  finally have p: "pow2 (?e - 52) * 2 ^ k = 1" .
  from p have u: "of_int n / pow2 (?e - 52) = of_int (n * 2 ^ k)" 
    using less_imp_neq [OF pow2_pos [of "?e - 52"]] by (simp add: divide_eq_eq mult.assoc) (simp add: mult.commute)
  have "of_int (n * 2 ^ k) * pow2 (?e - 52) = of_int n * (pow2 (?e - 52) * 2 ^ k)" by simp
  then show ?thesis using False unfolding int_double_def to_double_def Let_def u round_even_int p by simp
qed (simp add: int_double_def to_double_def)

lemma to_string_times10: "0 < n \<Longrightarrow> to_string (10 * n) = to_string n @ ''0''"
  by (subst to_string.simps) (simp add: digit_of_def)

lemma to_string_pow10: "0 < n \<Longrightarrow> to_string (n * 10 ^ k) = to_string n @ replicate k (CHR ''0'')"
proof (induction k)
  case (Suc k)
  have "to_string (n * 10 ^ Suc k) = to_string (10 * (n * 10 ^ k))" by (simp add: ac_simps)
  also have "\<dots> = to_string (n * 10 ^ k) @ ''0''" by (rule to_string_times10) (use Suc in simp)
  finally show ?case using Suc by (simp add: replicate_append_same)
qed simp

lemma drop_zeros_replicate: "drop_zeros (replicate k (CHR ''0'')) = []"
  by (simp add: drop_zeros_def)

lemma to_string_upper: "n < 10 ^ length (to_string n)"
proof (induction n rule: to_string.induct)
  case (1 n)
  then show ?case by (subst to_string.simps) auto
qed

lemma to_string_pos: "0 < length (to_string n)"
  by (subst to_string.simps) simp

lemma general6_int:
  assumes "0 < n" "n < 1000000"
  shows "general6 (of_int n) = to_string (nat n)"
proof -
  let ?t = "to_string (nat n)"
  have len: "length ?t \<le> 6" "0 < length ?t" using to_string_length [of "nat n" 6] to_string_pos assms by simp_all
  then obtain k where k: "length ?t + k = 6" by (metis le_add_diff_inverse)
  have e: "decimal_exponent (of_int n) = int (length ?t) - 1" using assms(1) by (simp add: decimal_exponent_def)
  have "6 - int (length ?t) = int k" using k by simp
  then have v: "of_int n * pow10 (6 - int (length ?t)) = of_int (n * 10 ^ k)" by (simp add: pow10_def)
  have "nat n * 10 ^ k < 10 ^ length ?t * 10 ^ k" using to_string_upper [of "nat n"] by simp
  then have "nat n * 10 ^ k < 10 ^ 6" by (simp only: power_add [symmetric] k)
  then have "int (nat n * 10 ^ k) < int (10 ^ 6)" by (simp only: of_nat_less_iff)
  then have "n * 10 ^ k < 1000000" using assms(1) by simp
  moreover have "nat (n * 10 ^ k) = nat n * 10 ^ k" using assms(1) by (simp add: nat_mult_distrib nat_power_eq)
  ultimately have "six_digits (of_int n) = (?t @ replicate k (CHR ''0''), int (length ?t) - 1)"
    using assms(1) by (simp add: six_digits_def e v round_even_int to_string_pow10 Let_def del: of_int_mult of_int_power)
  moreover have "nat (int (length ?t) - 1) + 1 = length ?t" using len by linarith
  ultimately show ?thesis using len assms by (simp add: general6_def dotted_def drop_zeros_replicate del: add_Suc_right One_nat_def)
qed

end
