(* ===== verification/Prometheus_Properties.thy ===== *)
theory Prometheus_Properties
  imports Prometheus_Laws
begin

text \<open>The properties of the exposition that Prometheus scrapes.\<close>

section \<open>Reading back\<close>

text \<open>The samples of all exchanges; the statistics of the subscriber server come with the first.\<close>

fun all_samples :: "subscriber_stats option \<Rightarrow> metrics_view list \<Rightarrow> sample list" where
  "all_samples subStats [] = []"
| "all_samples subStats (v # vs) =
     samples (view_now v) (view_rss v) (view_name v) (view_metrics v) (view_books v) subStats @ all_samples None vs"

lemma reads_views: "reads (buildViews subStats first vs) (all_samples (if first then subStats else None) vs)"
  by (induction subStats first vs rule: buildViews.induct) (auto intro: reads_append reads_output reads_Nil)

lemma served_text_reads_back: "readExposition (buildPrometheusMetrics subStats views) = Some (all_samples subStats views)"
  unfolding buildPrometheusMetrics_def using reads_exposition [OF reads_views [of subStats True]] by simp

text \<open>
  C39: A reader of the exposition format accepts the answer to a request for \<open>/metrics\<close>, and reads exactly
  the samples of all exchanges in order, each with the name of its family, the names of
  exchange and symbol as they are, and its number as text, whatever characters the names of
  exchanges and symbols contain.
\<close>

theorem exposition_reads_back:
  "\<exists>body. metricsRoutes subStats views ''/metrics'' = Some (body, ''text/plain; version=0.0.4; charset=utf-8'') \<and>
     readExposition body = Some (all_samples subStats views)"
  by (simp add: metricsRoutes_def served_text_reads_back)

section \<open>Digits\<close>

text \<open>
  A counter or an amount of less than a million is printed exactly, as the integer it is.
\<close>

lemma small_counters_exact:
  assumes "\<bar>n\<bar> < 1000000"
  shows "writeLine x name s (int_double n) = intLine x name s n"
proof -
  have i: "int_double n = of_int n" by (rule int_double_exact) (use assms in simp)
  have neg: "general6 (of_int n) = CHR ''-'' # general6 (of_int (- n))" if "n < 0"
    using that by (simp add: general6_def split_def Let_def)
  consider "n = 0" | "0 < n" | "n < 0" by linarith
  then have "general6 (of_int n) = int_text n"
  proof cases
    case 1
    then show ?thesis by (simp add: general6_def int_text_def to_string.simps [of 0] digit_of_def)
  next
    case 2
    then show ?thesis using assms general6_int [of n] by (simp add: int_text_def)
  next
    case 3
    then show ?thesis using assms general6_int [of "- n"] neg by (simp add: int_text_def)
  qed
  then show ?thesis by (simp add: writeLine_def intLine_def i)
qed

lemma small_counters_exact_instance: "writeLine x name s (int_double (- 250)) = intLine x name s (- 250)"
  using small_counters_exact [of "- 250"] by simp

text \<open>A counter of seven digits is printed with six: 1234567 and 1234568 give the same line.\<close>

lemma six_significant_digits: "general6 (int_double 1234567) = ''1.23457e+06''" "general6 (int_double 1234568) = ''1.23457e+06''"
proof -
  have t: "to_string 1234567 = ''1234567''" "to_string 1234568 = ''1234568''" "to_string 123457 = ''123457''" "to_string 6 = ''6''" by (simp_all add: to_string.simps digit_of_def)
  have r: "round_even (1234567 / 10) = 123457" "round_even (617284 / 5) = 123457" by (rule round_even_near, simp)+
  have d: "int_double 1234567 = 1234567" "int_double 1234568 = 1234568" using int_double_exact [of 1234567] int_double_exact [of 1234568] by simp_all
  show "general6 (int_double 1234567) = ''1.23457e+06''" "general6 (int_double 1234568) = ''1.23457e+06''"
    by (simp_all add: general6_def d six_digits_def decimal_exponent_def t pow10_def r dotted_def drop_zeros_def exponent_text_def Let_def)
qed

lemma counter_loses_digits:
  "writeLine x name s (int_double 1234567) = writeLine x name s (int_double 1234568) \<and>
   general6 (int_double 1234567) = ''1.23457e+06''"
  by (simp add: writeLine_def six_significant_digits)

end
