(* ===== verification/Program_Start.thy ===== *)
theory Program_Start
  imports Configuration_Properties
begin

text \<open>
  \<open>main\<close> of \<open>src/main.cpp\<close> up to its monitoring loop: the configuration, the runtimes, the
  ports and the adapters, and every early return with the adapters stopped before it.
\<close>

section \<open>Outcomes\<close>

datatype exit_reason =
    ConfigUnreadable
  | ConfigRejected config_error
  | Uncaught exn
  | MetricsPort
  | GaveUpStarting
  | SubscriberPort

text \<open>An exit with the adapters that were stopped, or the loop with the runtimes and the server.\<close>

datatype program_end =
    Exit exit_reason "string list"
  | Monitoring "runtime list" server

text \<open>\<open>MetricsServer::start\<close>: whether it was started before, and whether the port can be bound.\<close>

definition metricsServerStart :: "bool \<Rightarrow> bool \<Rightarrow> bool \<times> bool" where
  "metricsServerStart bindOk wasStarted = (if wasStarted then (True, True) else (bindOk, bindOk))"

text \<open>A runtime with its adapter; only that of Binance has a constructor that may throw.\<close>

definition newRuntime :: "int \<Rightarrow> exchange_config \<Rightarrow> exn + runtime" where
  "newRuntime ofi ec =
     bind_exn (buildRuntime ofi ec) (\<lambda>rt.
       if ec_name ec = ''binance'' then bind_exn (newBinance (ec_interval ec)) (\<lambda>_. Inr rt) else Inr rt)"

text \<open>
  The configuration file is \<open>None\<close> when it cannot be opened or parsed; \<open>start name k\<close> is the
  answer of the adapter to its \<open>k\<close>-th attempt.
\<close>

definition program :: "json option \<Rightarrow> bool \<Rightarrow> (string \<Rightarrow> int \<Rightarrow> bool) \<Rightarrow> bool \<Rightarrow> program_end" where
  "program file metricsBind start listenOk =
     (case file of
        None \<Rightarrow> Exit ConfigUnreadable []
      | Some j \<Rightarrow>
          (case parseConfig j of
             Inl e \<Rightarrow> Exit (ConfigRejected e) []
           | Inr c \<Rightarrow>
               (case map_exn (newRuntime (cf_ofiDepth c)) (cf_exchanges c) of
                  Inl e \<Rightarrow> Exit (Uncaught e) []
                | Inr rts \<Rightarrow>
                    if \<not> fst (metricsServerStart metricsBind False) then Exit MetricsPort []
                    else (case startAll start [] (map rt_name rts) of
                            Inl stopped \<Rightarrow> Exit GaveUpStarting stopped
                          | Inr running \<Rightarrow>
                              (let (ok, srv) = srv_start listenOk (newServer (cf_ofiDepth c))
                               in if ok then Monitoring rts srv else Exit SubscriberPort running)))))"

section \<open>What the program does with a valid configuration\<close>

lemma startLoop_starts: "fst (startLoop 1 30 start) \<longleftrightarrow> (\<exists>k. 1 \<le> k \<and> k \<le> 10 \<and> start k)"
proof -
  obtain k where k: "k \<le> 10" "fst (startLoop 1 30 start) = (k < 10)" "\<forall>a. 1 \<le> a \<and> a < int k + 1 \<longrightarrow> \<not> start a"
    "k < 10 \<longrightarrow> start (int k + 1)"
    using start_retries_end [of start] by (metis fst_conv)
  show ?thesis
  proof (cases "k < 10")
    case True
    then show ?thesis using k by (auto intro!: exI [of _ "int k + 1"])
  next
    case False
    then show ?thesis using k(1-3) by auto
  qed
qed

lemma newRuntime_law:
  assumes "valid_config c" "ec \<in> set (cf_exchanges c)"
  shows "\<exists>rt. newRuntime (cf_ofiDepth c) ec = Inr rt \<and> rt_name rt = ec_name ec \<and> rt_symbols rt = ec_symbols ec"
proof -
  obtain rt where rt: "buildRuntime (cf_ofiDepth c) ec = Inr rt" "rt_name rt = ec_name ec" "rt_symbols rt = ec_symbols ec"
    using buildRuntime_law by blast
  have "ec_interval ec = 100 \<or> ec_interval ec = 1000" using assms by (auto simp: valid_config_def valid_exchange_def)
  then obtain A0 where "newBinance (ec_interval ec) = Inr A0" by (auto simp: newBinance_def)
  then show ?thesis using rt by (simp add: newRuntime_def)
qed

lemma map_exn_total: "(\<And>x. x \<in> set xs \<Longrightarrow> \<exists>y. f x = Inr y \<and> P x y) \<Longrightarrow> \<exists>ys. map_exn f xs = Inr ys \<and> list_all2 P xs ys"
  by (induction xs) fastforce+

text \<open>
  C7: With a configuration that is accepted nothing is thrown, and what becomes of the
  program depends on the ports and the adapters alone: it ends without an adapter when the
  metrics port is taken; it ends when an adapter fails ten times, with that adapter and all
  that were started before it stopped; it ends with all adapters stopped when the
  subscriber port is taken; else it runs with the exchanges and symbols of the
  configuration. No path leaves an adapter running behind the end of the program.
\<close>

theorem program_outcome:
  assumes "parseConfig j = Inr c"
  shows "let starts = (\<lambda>ec. \<exists>k. 1 \<le> k \<and> k \<le> 10 \<and> start (ec_name ec) k); ecs = cf_exchanges c in
    if \<not> metricsBind then program (Some j) metricsBind start listenOk = Exit MetricsPort []
    else (case find (\<lambda>ec. \<not> starts ec) ecs of
        Some ec \<Rightarrow> program (Some j) metricsBind start listenOk = Exit GaveUpStarting (map ec_name (ec # takeWhile starts ecs))
      | None \<Rightarrow>
          if listenOk then (\<exists>rts srv. program (Some j) metricsBind start listenOk = Monitoring rts srv \<and> started srv \<and>
            list_all2 (\<lambda>ec rt. rt_name rt = ec_name ec \<and> rt_symbols rt = ec_symbols ec) ecs rts)
          else program (Some j) metricsBind start listenOk = Exit SubscriberPort (map ec_name ecs))"
proof -
  have v: "valid_config c" using parseConfig_sound [OF assms] .
  obtain rts where rts: "map_exn (newRuntime (cf_ofiDepth c)) (cf_exchanges c) = Inr rts"
    "list_all2 (\<lambda>ec rt. rt_name rt = ec_name ec \<and> rt_symbols rt = ec_symbols ec) (cf_exchanges c) rts"
    using map_exn_total [of "cf_exchanges c" _ "\<lambda>ec rt. rt_name rt = ec_name ec \<and> rt_symbols rt = ec_symbols ec"] newRuntime_law [OF v] by blast
  have names: "map rt_name rts = map ec_name (cf_exchanges c)"
    using rts(2) by (auto simp: list_all2_conv_all_nth intro!: nth_equalityI)
  have tw: "takeWhile (\<lambda>n. Q n) (map ec_name xs) = map ec_name (takeWhile (\<lambda>ec. Q (ec_name ec)) xs)" for Q xs
    by (induction xs) auto
  have fd: "find Q (map ec_name xs) = map_option ec_name (find (\<lambda>ec. Q (ec_name ec)) xs)" for Q xs
    by (induction xs) auto
  have srv: "srv_start l (newServer d) = (l, if l then (newServer d)\<lparr>started := True\<rparr> else newServer d)" for l d
    by (simp add: srv_start_def newServer_def)
  show ?thesis
    by (simp add: program_def assms rts(1) names metricsServerStart_def startAll_law startLoop_starts fd tw srv Let_def split: option.split)
      (use rts(2) in blast)
qed

lemma program_outcome_demo:
  "program (Some (configJson demo_config)) True (\<lambda>name k. name = ''binance'' \<and> k = 3) True = Exit GaveUpStarting [''kraken'', ''binance'']"
proof -
  have p: "parseConfig (configJson demo_config) = Inr demo_config"
    by (rule parseConfig_complete [OF demo_config_valid])
  show ?thesis
    using program_outcome [OF p, where metricsBind = True and start = "\<lambda>name k. name = ''binance'' \<and> k = 3" and listenOk = True]
    by (simp add: demo_config_def)
qed

end
