(* ===== verification/Console.thy ===== *)
theory Console
  imports Program_Start Prometheus_Laws Book_Properties
begin

text \<open>
  What the process prints: the two printers of \<open>src/order_book.cpp\<close> and the monitoring loop
  of \<open>src/main.cpp\<close>. The manipulators \<open>std::fixed\<close> and \<open>std::setprecision\<close> stay in
  force on \<open>std::cout\<close>, so its format is a state that the printers pass on.
\<close>

section \<open>Numbers on a stream\<close>

datatype stream_format =
    Standard
  | Fixed nat

definition padded :: "nat \<Rightarrow> string \<Rightarrow> string" where
  "padded k t = replicate (k - length t) (CHR ''0'') @ t"

text \<open>A double with \<open>k\<close> digits behind the point, ties to even.\<close>

definition fixed_text :: "nat \<Rightarrow> rat \<Rightarrow> string" where
  "fixed_text k v =
     (let n = nat (round_even (\<bar>v\<bar> * 10 ^ k))
      in (if v < 0 then ''-'' else []) @ to_string (n div 10 ^ k) @
         (if k = 0 then [] else CHR ''.'' # padded k (to_string (n mod 10 ^ k))))"

definition double_text :: "stream_format \<Rightarrow> rat \<Rightarrow> string" where
  "double_text fmt v = (case fmt of Standard \<Rightarrow> general6 v | Fixed k \<Rightarrow> fixed_text k v)"

section \<open>The book\<close>

definition printLevel :: "stream_format \<Rightarrow> level \<Rightarrow> string" where
  "printLevel fmt l = ''Price: '' @ double_text fmt (unscaled (fst l)) @ '', Quantity: '' @ double_text fmt (unscaled (snd l)) @ nl"

definition printOrderBook :: "stream_format \<Rightarrow> orderbook \<Rightarrow> string option" where
  "printOrderBook fmt b = do {
     sortedAsks \<leftarrow> forEach (askLadder b);
     sortedBids \<leftarrow> forEach (bidLadder b);
     Some (''Last Update ID: '' @ int_text (lastUpdateId b) @ nl @
       ''Asks:'' @ nl @ concat (map (printLevel fmt) sortedAsks) @
       ''Bids:'' @ nl @ concat (map (printLevel fmt) (rev sortedBids)))
   }"

definition printOrderBookStats :: "orderbook \<Rightarrow> string \<times> stream_format" where
  "printOrderBookStats b =
     (''Total Asks: '' @ to_string (activeCount (askLadder b)) @ '', Total Bids: '' @ to_string (activeCount (bidLadder b)) @ nl @
      ''Best Ask: '' @ double_text (Fixed 2) (if ofiAsks b = [] then 0 else unscaled (fst (hd (ofiAsks b)))) @
      '', Best Bid: '' @ double_text (Fixed 2) (if ofiBids b = [] then 0 else unscaled (fst (hd (ofiBids b)))) @ nl, Fixed 2)"

section \<open>The monitoring loop\<close>

text \<open>\<open>%s\<close> stops at a zero character.\<close>

definition c_str :: "string \<Rightarrow> string" where
  "c_str s = takeWhile (\<lambda>c. c \<noteq> CHR 0x00) s"

definition statusLine :: "string \<Rightarrow> string \<Rightarrow> metrics \<Rightarrow> string" where
  "statusLine name symb m =
     (let sum = processingUsSum m; count = processingBuckets m ! 10;
          avgUs = (if 0 < count then to_double (int_double sum / int_double count) else 0)
      in ''['' @ c_str name @ ''/'' @ c_str symb @ ''] Msgs: '' @ int_text (msgCount m) @ ''  Lag: '' @ int_text (lastEventLagMs m) @
         '' ms  AvgProc: '' @ fixed_text 1 avgUs @ '' us  Updates: '' @ int_text count @ nl)"

text \<open>\<open>at\<close> throws for a symbol without a book or metrics, which would end the process.\<close>

definition out_of_range :: exn where
  "out_of_range = RuntimeError ''map::at''"

definition symbolStatus :: "runtime \<Rightarrow> string \<Rightarrow> exn + string" where
  "symbolStatus rt symb =
     (case rt_books rt symb of
        None \<Rightarrow> Inl out_of_range
      | Some b \<Rightarrow>
          (case rt_metrics rt symb of
             None \<Rightarrow> Inl out_of_range
           | Some m \<Rightarrow> Inr (fst (printOrderBookStats b) @ statusLine (rt_name rt) symb m)))"

definition statusPass :: "runtime list \<Rightarrow> exn + string" where
  "statusPass runtimes =
     bind_exn (map_exn (\<lambda>rt. map_exn (symbolStatus rt) (rt_symbols rt)) runtimes) (\<lambda>texts.
       Inr (concat (map concat texts) @ ''--------------------------------------------------'' @ nl))"

definition banner :: "runtime list \<Rightarrow> string" where
  "banner runtimes =
     ''metrics at   http://0.0.0.0:9090/metrics'' @ nl @ ''subscribers  ws://0.0.0.0:8765'' @ nl @
     concat (map (\<lambda>rt. ''exchange:    '' @ c_str (rt_name rt) @ '' ('' @ to_string (length (rt_symbols rt)) @ '' symbol(s))'' @ nl) runtimes)"

section \<open>What is printed\<close>

lemma fixed8_text: "fixed8 v = fixed_text 8 v"
  by (simp add: fixed8_def fixed_text_def pad8_def padded_def Let_def)

text \<open>The text of an amount of cents.\<close>

definition cents_text :: "int \<Rightarrow> string" where
  "cents_text c = to_string (nat (c div 100)) @ CHR ''.'' # padded 2 (to_string (nat (c mod 100)))"

lemma cents_exact:
  assumes "0 \<le> c" "c * 1000000 < 2 ^ 53"
  shows "fixed_text 2 (unscaled (c * 1000000)) = cents_text c"
proof -
  let ?x = "of_int c / 100 :: rat"
  let ?v = "unscaled (c * 1000000)"
  have "\<bar>c * 1000000\<bar> < 2 ^ 53" using assms by simp
  then have v: "?v = to_double ?x" using int_double_exact [of "c * 1000000"] by (simp add: unscaled_def)
  have x0: "0 \<le> ?x" using assms(1) by simp
  then have err: "\<bar>?v - ?x\<bar> \<le> ?x / 2 ^ 53" using to_double_error [of ?x] unfolding v by simp
  have "?x / 2 ^ 53 \<le> ?x" using x0 by simp
  then have v0: "0 \<le> ?v" using err x0 by linarith
  have "of_int (c * 1000000) < (of_int (2 ^ 53) :: rat)" using assms(2) by (simp only: of_int_less_iff)
  then have small: "?x < 2 ^ 53 / 200" by simp
  have "\<bar>?v\<bar> * 10 ^ 2 - of_int c = (?v - ?x) * 100" using v0 by (simp add: left_diff_distrib)
  then have "\<bar>\<bar>?v\<bar> * 10 ^ 2 - of_int c\<bar> = \<bar>?v - ?x\<bar> * 100" by (simp only: abs_mult abs_numeral)
  also have "\<dots> \<le> ?x / 2 ^ 53 * 100" using err by simp
  also have "\<dots> < 1 / 2" using small by simp
  finally have "round_even (\<bar>?v\<bar> * 10 ^ 2) = c" by (rule round_even_near)
  then show ?thesis using v0 assms(1) by (simp add: fixed_text_def cents_text_def Let_def nat_div_distrib nat_mod_distrib)
qed

text \<open>
  The status of a book on cents shows the true counts and the true best prices.
\<close>

lemma printed_stats_exact:
  assumes "book_inv b" "tickSize (askLadder b) = kDefaultTick" "tickSize (bidLadder b) = kDefaultTick"
    and "\<And>s p. p \<in> active (sideLadder s b) \<Longrightarrow> 0 < p \<and> p < 2 ^ 53"
  shows "fst (printOrderBookStats b) =
    ''Total Asks: '' @ to_string (card (active (askLadder b))) @ '', Total Bids: '' @ to_string (card (active (bidLadder b))) @ nl @
    ''Best Ask: '' @ cents_text (min0 (active (askLadder b)) div kDefaultTick) @
    '', Best Bid: '' @ cents_text (max0 (active (bidLadder b)) div kDefaultTick) @ nl"
proof -
  have best: "fixed_text 2 (if ofiSide s b = [] then 0 else unscaled (fst (hd (ofiSide s b))))
      = cents_text ((if s then max0 (active (sideLadder s b)) else min0 (active (sideLadder s b))) div kDefaultTick)" for s
  proof (cases "ofiSide s b = []")
    case True
    have "fixed_text 2 0 = cents_text 0" using cents_exact [of 0] by (simp add: unscaled_def int_double_def to_double_def)
    then show ?thesis using best_of_view [OF assms(1), of s] True by simp
  next
    case False
    let ?p = "fst (hd (ofiSide s b))"
    have "?p \<in> active (sideLadder s b)"
      using view_head(2) [OF book_invD(4) [OF assms(1), of s] book_invD(1) [OF assms(1)] False] by (simp add: active_def)
    moreover from this have "1000000 dvd ?p" using qty_at_dvd [of "sideLadder s b" ?p] assms(2,3)
      by (cases s) (simp_all add: active_def kDefaultTick_def)
    ultimately have p: "0 < ?p" "?p < 2 ^ 53" "?p div 1000000 * 1000000 = ?p" using assms(4) by auto
    then have "fixed_text 2 (unscaled ?p) = cents_text (?p div 1000000)" using cents_exact [of "?p div 1000000"] by simp
    then show ?thesis using best_of_view [OF assms(1), of s] False by (simp add: kDefaultTick_def)
  qed
  show ?thesis
    using best [of False, unfolded ofiSide_def sideLadder_def if_False] best [of True, unfolded ofiSide_def sideLadder_def if_True] count_active [OF book_invD(3) [OF assms(1), of True]]
      count_active [OF book_invD(3) [OF assms(1), of False]]
    by (simp add: printOrderBookStats_def double_text_def)
qed

text \<open>The loop never throws: every symbol of a configured runtime has a book and metrics.\<close>

lemma statusPass_total:
  assumes "\<And>rt s. rt \<in> set runtimes \<Longrightarrow> s \<in> set (rt_symbols rt) \<Longrightarrow> rt_books rt s \<noteq> None \<and> rt_metrics rt s \<noteq> None"
  shows "\<exists>text. statusPass runtimes = Inr text"
proof -
  have "\<exists>t. symbolStatus rt s = Inr t" if "rt \<in> set runtimes" "s \<in> set (rt_symbols rt)" for rt s
    using assms [OF that] by (auto simp: symbolStatus_def)
  then have "\<exists>ts. map_exn (symbolStatus rt) (rt_symbols rt) = Inr ts" if "rt \<in> set runtimes" for rt
    using map_exn_total [of "rt_symbols rt" "symbolStatus rt" "\<lambda>_ _. True"] that by blast
  then obtain tss where "map_exn (\<lambda>rt. map_exn (symbolStatus rt) (rt_symbols rt)) runtimes = Inr tss"
    using map_exn_total [of runtimes "\<lambda>rt. map_exn (symbolStatus rt) (rt_symbols rt)" "\<lambda>_ _. True"] by blast
  then show ?thesis by (simp add: statusPass_def)
qed

lemma monitoring_never_throws:
  assumes "map_exn (newRuntime (cf_ofiDepth c)) (cf_exchanges c) = Inr rts"
    and "list_all2 (\<lambda>rt now. rt_symbols now = rt_symbols rt \<and> dom (rt_books now) = dom (rt_books rt) \<and> dom (rt_metrics now) = dom (rt_metrics rt)) rts nows"
  shows "\<exists>text. statusPass nows = Inr text"
proof (rule statusPass_total)
  fix now s assume now: "now \<in> set nows" "s \<in> set (rt_symbols now)"
  obtain i where i: "i < length nows" "now = nows ! i" using now(1) by (auto simp: in_set_conv_nth)
  let ?rt = "rts ! i" and ?ec = "cf_exchanges c ! i"
  have rt: "rt_symbols now = rt_symbols ?rt" "dom (rt_books now) = dom (rt_books ?rt)" "dom (rt_metrics now) = dom (rt_metrics ?rt)"
    and len: "i < length rts"
    using assms(2) i by (simp_all add: list_all2_conv_all_nth)
  have "newRuntime (cf_ofiDepth c) ?ec = Inr ?rt" using assms(1) len by (simp add: map_exn_Inr list_all2_conv_all_nth)
  then have b: "buildRuntime (cf_ofiDepth c) ?ec = Inr ?rt" by (auto simp: newRuntime_def split: if_splits)
  from buildRuntime_law obtain r where "buildRuntime (cf_ofiDepth c) ?ec = Inr r" "dom (rt_books r) = set (ec_symbols ?ec)"
    "dom (rt_metrics r) = set (ec_symbols ?ec)" "rt_symbols r = ec_symbols ?ec" by blast
  then have "s \<in> dom (rt_books now)" "s \<in> dom (rt_metrics now)" using b rt now(2) by simp_all
  then show "rt_books now s \<noteq> None \<and> rt_metrics now s \<noteq> None" by blast
qed

text \<open>
  The first status makes every later \<open>printOrderBook\<close> round to two digits: a quantity of
  0.00012 is printed as 0.00.
\<close>

lemma format_persists:
  "printLevel (snd (printOrderBookStats b)) (6500000000000, 12000) = ''Price: 65000.00, Quantity: 0.00'' @ nl"
proof -
  have "unscaled 6500000000000 = unscaled (6500000 * 1000000)" by simp
  then have "fixed_text 2 (unscaled 6500000000000) = cents_text 6500000" using cents_exact [of 6500000] by (simp only:) simp
  moreover have "fixed_text 2 (unscaled 12000) = cents_text 0"
  proof -
    have v: "unscaled 12000 = to_double (3 / 25000)" using int_double_exact [of 12000] by (simp add: unscaled_def)
    have "to_double (3 / 25000) - 3 / 25000 \<le> 3 / 25000 / 2 ^ 53" using to_double_error [of "3 / 25000"] by (simp only: abs_le_iff) simp
    then have "unscaled 12000 < 1 / 200" unfolding v by simp
    moreover have "0 \<le> unscaled 12000" unfolding v using to_double_sign(1) [of "3 / 25000"] by simp
    ultimately have "0 \<le> unscaled 12000" "unscaled 12000 < 1 / 200" by simp_all
    then have "round_even (\<bar>unscaled 12000\<bar> * 10 ^ 2) = 0" by (intro round_even_near) simp
    then show ?thesis using \<open>0 \<le> unscaled 12000\<close> by (simp add: fixed_text_def cents_text_def)
  qed
  ultimately show ?thesis
    by (simp add: printOrderBookStats_def printLevel_def double_text_def cents_text_def padded_def to_string.simps digit_of_def)
qed

end
