(* ===== verification/Lob_System.thy ===== *)
theory Lob_System
  imports Binance_Run Binance_Start Kraken_Run Ofi_Callback Subscriber_Server
begin

text \<open>
  The whole process, as \<open>src/main.cpp\<close> wires it: the adapters of both exchanges, the update
  callback between them and the subscriber server, and the clients of the server, which read
  the books of the adapters.
\<close>

section \<open>The update callback\<close>

text \<open>
  The callback that \<open>main\<close> registers: the value of the batch, the broadcast with it, then
  the accumulator of the symbol.
\<close>

definition updateCallback ::
  "env \<Rightarrow> string \<Rightarrow> callback_call \<Rightarrow> (string \<rightharpoonup> metrics) \<times> server \<Rightarrow> (string \<times> server_msg) list \<times> (string \<rightharpoonup> metrics) \<times> server" where
  "updateCallback E exch = (\<lambda>(symb, ds, ts) (metricsMap, V).
     let (ofi, hasOfiDelta) = batchOfi ds;
         (sent, V') = broadcastUpdate E exch symb ds ts ofi V
     in (sent, accumulateOfi metricsMap symb ds, V'))"

fun runCallbacks ::
  "env \<Rightarrow> string \<Rightarrow> callback_call list \<Rightarrow> (string \<rightharpoonup> metrics) \<times> server \<Rightarrow> (string \<times> server_msg) list \<times> (string \<rightharpoonup> metrics) \<times> server" where
  "runCallbacks E exch [] MV = ([], MV)"
| "runCallbacks E exch (c # cs) MV =
     (let (sent, MV1) = updateCallback E exch c MV; (rest, MV2) = runCallbacks E exch cs MV1
      in (sent @ rest, MV2))"

text \<open>The calls among the outputs of the adapters.\<close>

definition bin_calls :: "bin_out list \<Rightarrow> callback_call list" where
  "bin_calls out = List.map_filter (\<lambda>x. case x of Callback s ds ts \<Rightarrow> Some (s, ds, ts) | _ \<Rightarrow> None) out"

definition kr_calls :: "kr_out list \<Rightarrow> callback_call list" where
  "kr_calls out = List.map_filter (\<lambda>x. case x of KrCallback s ds ts \<Rightarrow> Some (s, ds, ts) | _ \<Rightarrow> None) out"

definition bin_withMetrics :: "(string \<rightharpoonup> metrics) \<Rightarrow> bin_sys \<Rightarrow> bin_sys" where
  "bin_withMetrics M B = B\<lparr>adp := (adp B)\<lparr>bin_metrics := M\<rparr>\<rparr>"

definition kr_withMetrics :: "(string \<rightharpoonup> metrics) \<Rightarrow> kr_sys \<Rightarrow> kr_sys" where
  "kr_withMetrics M K = K\<lparr>kr := (kr K)\<lparr>kr_metrics := M\<rparr>\<rparr>"

section \<open>The process\<close>

text \<open>\<open>lob_ptrs\<close> says whose book a key of the server stands for.\<close>

record lob =
  lob_binance :: bin_sys
  lob_kraken :: kr_sys
  lob_server :: server
  lob_ptrs :: "string \<rightharpoonup> (string \<times> string)"

definition liveBooks :: "lob \<Rightarrow> string \<rightharpoonup> orderbook" where
  "liveBooks L key = do {
     (exch, symb) \<leftarrow> lob_ptrs L key;
     if exch = ''binance'' then bin_books (adp (lob_binance L)) symb else kr_books (kr (lob_kraken L)) symb
   }"

datatype lob_event =
    FromBinance bin_event
  | FromKraken kr_event
  | FromClient action

definition client_action :: "action \<Rightarrow> bool" where
  "client_action a \<longleftrightarrow> (case a of Broadcast _ _ _ _ _ \<Rightarrow> False | _ \<Rightarrow> True)"

inductive lob_step :: "int \<Rightarrow> env \<Rightarrow> lob \<Rightarrow> lob_event \<Rightarrow> (string \<times> server_msg) list \<Rightarrow> lob \<Rightarrow> bool" for maxRetries E where
  from_binance: "bin_step maxRetries (lob_binance L) e out B \<Longrightarrow>
    runCallbacks E ''binance'' (bin_calls out) (bin_metrics (adp B), lob_server L) = (sent, M, V) \<Longrightarrow>
    lob_step maxRetries E L (FromBinance e) sent (L\<lparr>lob_binance := bin_withMetrics M B, lob_server := V\<rparr>)"
| from_kraken: "kr_step (lob_kraken L) e out K \<Longrightarrow>
    runCallbacks E ''kraken'' (kr_calls out) (kr_metrics (kr K), lob_server L) = (sent, M, V) \<Longrightarrow>
    lob_step maxRetries E L (FromKraken e) sent (L\<lparr>lob_kraken := kr_withMetrics M K, lob_server := V\<rparr>)"
| from_client: "client_action a \<Longrightarrow> srv_step E (liveBooks L) a (lob_server L) = Some (sent, V) \<Longrightarrow>
    lob_step maxRetries E L (FromClient a) sent (L\<lparr>lob_server := V\<rparr>)"

inductive lob_run :: "int \<Rightarrow> lob \<Rightarrow> (env \<times> lob_event) list \<Rightarrow> (string \<times> server_msg) list \<Rightarrow> lob \<Rightarrow> bool" for maxRetries where
  lob_nothing: "lob_run maxRetries L [] [] L"
| lob_more: "lob_step maxRetries E L e sent L1 \<Longrightarrow> lob_run maxRetries L1 es rest L2 \<Longrightarrow>
    lob_run maxRetries L ((E, e) # es) (sent @ rest) L2"

inductive_cases lob_stepE: "lob_step maxRetries E L e sent L'"

section \<open>The callback and the server\<close>

text \<open>The metrics after callbacks differ in the accumulators only.\<close>

definition ofi_only :: "(string \<rightharpoonup> metrics) \<Rightarrow> (string \<rightharpoonup> metrics) \<Rightarrow> bool" where
  "ofi_only M M' \<longleftrightarrow> (\<forall>s. map_option (\<lambda>m. m\<lparr>ofiAccumulator := 0\<rparr>) (M' s) = map_option (\<lambda>m. m\<lparr>ofiAccumulator := 0\<rparr>) (M s))"

lemma ofi_only_refl [simp]: "ofi_only M M"
  by (simp add: ofi_only_def)

lemma ofi_only_trans [trans]: "ofi_only M M' \<Longrightarrow> ofi_only M' M'' \<Longrightarrow> ofi_only M M''"
  by (simp add: ofi_only_def)

lemma ofi_only_accumulate: "ofi_only M (accumulateOfi M s ds)"
  by (auto simp: ofi_only_def accumulateOfi_def split: prod.split option.split)

lemma ofi_only_dom: "ofi_only M M' \<Longrightarrow> dom M' = dom M"
  unfolding ofi_only_def dom_def by (metis (no_types, lifting) map_option_is_None)

lemma ofi_only_fields:
  assumes "ofi_only M M'" "M' s = Some m'"
  obtains m where "M s = Some m" "liveReady m' = liveReady m" "processingBuckets m' = processingBuckets m"
    "lastUpdateTimeMs m' = lastUpdateTimeMs m" "msgCount m' = msgCount m"
proof -
  have "map_option (\<lambda>m. m\<lparr>ofiAccumulator := 0\<rparr>) (M s) = Some (m'\<lparr>ofiAccumulator := 0\<rparr>)"
    using assms by (metis ofi_only_def option.simps(9))
  then obtain m where m: "M s = Some m" "m'\<lparr>ofiAccumulator := 0\<rparr> = m\<lparr>ofiAccumulator := 0\<rparr>" by auto
  have "f (m'\<lparr>ofiAccumulator := 0\<rparr>) = f (m\<lparr>ofiAccumulator := 0\<rparr>)" for f :: "metrics \<Rightarrow> 'x" using m(2) by simp
  from this [of liveReady] this [of processingBuckets] this [of lastUpdateTimeMs] this [of msgCount] show thesis
    by (intro that [OF m(1)]) simp_all
qed

text \<open>The callbacks of a step are broadcasts of the server, one after the other.\<close>

definition broadcasts :: "env \<Rightarrow> string \<Rightarrow> callback_call list \<Rightarrow> (env \<times> (string \<rightharpoonup> orderbook) \<times> action) list" where
  "broadcasts E exch cs = map (\<lambda>(s, ds, ts). (E, Map.empty, Broadcast exch s ds ts (fst (batchOfi ds)))) cs"

lemma runCallbacks_law:
  "runCallbacks E exch cs (M, V) = (sent, M', V') \<Longrightarrow>
     ofi_only M M' \<and> srv_run (broadcasts E exch cs) V = Some (sent, V')"
proof (induction cs arbitrary: M V sent)
  case Nil
  then show ?case by (simp add: broadcasts_def)
next
  case (Cons c cs)
  obtain s ds ts where c: "c = (s, ds, ts)" by (cases c)
  obtain out V1 where b: "broadcastUpdate E exch s ds ts (fst (batchOfi ds)) V = (out, V1)"
    by (cases "broadcastUpdate E exch s ds ts (fst (batchOfi ds)) V")
  then have u: "updateCallback E exch c (M, V) = (out, accumulateOfi M s ds, V1)"
    by (simp add: updateCallback_def c split_def)
  obtain rest where r: "runCallbacks E exch cs (accumulateOfi M s ds, V1) = (rest, M', V')" "sent = out @ rest"
    using Cons.prems by (auto simp: u split: prod.splits)
  note IH = Cons.IH [OF r(1)]
  have "ofi_only M M'" using ofi_only_accumulate IH by (blast intro: ofi_only_trans)
  moreover have "srv_run (broadcasts E exch (c # cs)) V = Some (sent, V')"
    using IH r(2) by (simp add: broadcasts_def c srv_step_def b)
  ultimately show ?case by blast
qed

lemma broadcast_inv: "srv_inv S \<Longrightarrow> broadcastUpdate E exch s ds ts ofi S = (out, S') \<Longrightarrow> srv_inv S'"
  by (auto simp: broadcastUpdate_def collectTargets_def srv_inv_def Let_def distinct_map_filter split: if_splits)

lemma broadcasts_inv: "srv_run (broadcasts E exch cs) V = Some (sent, V') \<Longrightarrow> srv_inv V \<Longrightarrow> srv_inv V'"
proof (induction cs arbitrary: V sent)
  case (Cons c cs)
  obtain s ds ts where c: "c = (s, ds, ts)" by (cases c)
  obtain out V1 where b: "broadcastUpdate E exch s ds ts (fst (batchOfi ds)) V = (out, V1)"
    by (cases "broadcastUpdate E exch s ds ts (fst (batchOfi ds)) V")
  then obtain rest where "srv_run (broadcasts E exch cs) V1 = Some (rest, V')"
    using Cons.prems(1) by (auto simp: broadcasts_def c srv_step_def split: Option.bind_splits)
  then show ?case using Cons.IH broadcast_inv [OF Cons.prems(2) b] by blast
qed (simp add: broadcasts_def)

section \<open>An adapter that feeds the server\<close>

text \<open>
  What \<open>main\<close> relies on, whatever the exchange (\<open>src/i_exchange_adapter.hpp\<close>): an adapter
  whose events are handled without a fault, whose books stay readable, and which does not
  mind that the callback adds to the accumulators.
\<close>

locale exchange_adapter =
  fixes step :: "'s \<Rightarrow> 'e \<Rightarrow> 'o list \<Rightarrow> 's \<Rightarrow> bool"
    and enabled :: "'s \<Rightarrow> 'e \<Rightarrow> bool"
    and safe :: "'e \<Rightarrow> bool"
    and ok :: "'s \<Rightarrow> bool"
    and calls :: "'o list \<Rightarrow> callback_call list"
    and metricsOf :: "'s \<Rightarrow> string \<rightharpoonup> metrics"
    and withMetrics :: "(string \<rightharpoonup> metrics) \<Rightarrow> 's \<Rightarrow> 's"
    and books :: "'s \<Rightarrow> string \<rightharpoonup> orderbook"
  assumes progress: "ok s \<Longrightarrow> safe e \<Longrightarrow> enabled s e \<Longrightarrow> \<exists>out s'. step s e out s'"
    and preserved: "ok s \<Longrightarrow> safe e \<Longrightarrow> step s e out s' \<Longrightarrow> ok s'"
    and no_backfill: "ok s \<Longrightarrow> safe e \<Longrightarrow> step s e out s' \<Longrightarrow> (x, ds, ts) \<in> set (calls out) \<Longrightarrow> d \<in> set ds \<Longrightarrow> d_kind d \<noteq> Backfill"
    and same_books: "ok s \<Longrightarrow> safe e \<Longrightarrow> step s e out s' \<Longrightarrow> dom (books s') = dom (books s)"
    and readable: "ok s \<Longrightarrow> books s x = Some b \<Longrightarrow> book_small b"
    and accumulators: "ok s \<Longrightarrow> ofi_only (metricsOf s) M \<Longrightarrow> ok (withMetrics M s)"
    and metrics_apart: "books (withMetrics M s) = books s"
begin

lemma fed_progress:
  "ok s \<Longrightarrow> safe e \<Longrightarrow> enabled s e \<Longrightarrow>
     \<exists>out s' sent M V'. step s e out s' \<and> runCallbacks E x (calls out) (metricsOf s', V) = (sent, M, V')"
  using progress by (metis prod.exhaust)

lemma fed_kept:
  assumes "ok s" "safe e" "step s e out s'" "runCallbacks E x (calls out) (metricsOf s', V) = (sent, M, V')"
  shows "ok (withMetrics M s')" "srv_inv V \<Longrightarrow> srv_inv V'" "dom (books (withMetrics M s')) = dom (books s)"
    "srv_run (broadcasts E x (calls out)) V = Some (sent, V')"
  using runCallbacks_law [OF assms(4)] preserved [OF assms(1-3)] same_books [OF assms(1-3)]
  by (auto simp: metrics_apart intro: accumulators broadcasts_inv)

end

lemma bin_calls_mem: "(s, ds, ts) \<in> set (bin_calls out) \<longleftrightarrow> Callback s ds ts \<in> set out"
proof (induction out)
  case (Cons x out)
  then show ?case by (cases x) (auto simp: bin_calls_def List.map_filter_def)
qed (simp add: bin_calls_def List.map_filter_def)

lemma kr_calls_mem: "(s, ds, ts) \<in> set (kr_calls out) \<longleftrightarrow> KrCallback s ds ts \<in> set out"
proof (induction out)
  case (Cons x out)
  then show ?case by (cases x) (auto simp: kr_calls_def List.map_filter_def)
qed (simp add: kr_calls_def List.map_filter_def)

lemma bin_ok_withMetrics:
  assumes "bin_ok A" "ofi_only (bin_metrics A) M"
  shows "bin_ok (A\<lparr>bin_metrics := M\<rparr>)"
proof -
  have live: "is_live A s" if l: "is_live (A\<lparr>bin_metrics := M\<rparr>) s" for s
  proof -
    obtain m' where "M s = Some m'" "liveReady m'" using l by (auto simp: is_live_def)
    then show ?thesis using ofi_only_fields [OF assms(2)] unfolding is_live_def by metis
  qed
  have buckets: "length (processingBuckets m) = 11" if "M s = Some m" for s m
    using ofi_only_fields [OF assms(2) that] bin_okD(6) [OF assms(1)] by metis
  show ?thesis using assms(1) ofi_only_dom [OF assms(2)] live buckets unfolding bin_ok_def has_book_def
    by (elim conjE, intro conjI) simp_all
qed

lemma kr_ok_withMetrics:
  assumes "kr_ok K" "ofi_only (kr_metrics K) M"
  shows "kr_ok (K\<lparr>kr_metrics := M\<rparr>)"
proof -
  have "length (processingBuckets m) = 11" if "M s = Some m" for s m
    using ofi_only_fields [OF assms(2) that] assms(1) unfolding kr_ok_def by metis
  then show ?thesis using assms(1) ofi_only_dom [OF assms(2)] by (simp add: kr_ok_def)
qed

interpretation binance_feed: exchange_adapter "bin_step n" enabled event_safe sys_ok bin_calls
  "\<lambda>B. bin_metrics (adp B)" bin_withMetrics "\<lambda>B. bin_books (adp B)" for n
proof
  fix s e out s' x ds ts d M b
  show "sys_ok s \<Longrightarrow> event_safe e \<Longrightarrow> enabled s e \<Longrightarrow> \<exists>out s'. bin_step n s e out s'" by (rule step_total)
  assume ok: "sys_ok s"
  show "ofi_only (bin_metrics (adp s)) M \<Longrightarrow> sys_ok (bin_withMetrics M s)"
    using ok bin_ok_withMetrics by (simp add: sys_ok_def bin_withMetrics_def)
  show "bin_books (adp s) x = Some b \<Longrightarrow> book_small b"
    using ok bin_okD(5) by (auto simp: sys_ok_def book_ok_def)
  assume "event_safe e" "bin_step n s e out s'"
  note law = step_law [OF ok this, of "[]"]
  show "sys_ok s'" "dom (bin_books (adp s')) = dom (bin_books (adp s))" using law by (simp_all add: same_setup_def)
  show "(x, ds, ts) \<in> set (bin_calls out) \<Longrightarrow> d \<in> set ds \<Longrightarrow> d_kind d \<noteq> Backfill"
    using law by (auto simp: bin_calls_mem good_calls_def)
qed (simp add: bin_withMetrics_def)

lemma kr_step_kept:
  assumes "kr_step S e out S'" "kr_ok (kr S)" "kr_event_safe e"
  shows "kr_ok (kr S') \<and> dom (kr_books (kr S')) = dom (kr_books (kr S)) \<and> kr_good (kr S) out"
  using assms(1)
proof cases
  case (kr_ws t ev K)
  have "kr_safe t ev" using assms(3) kr_ws(1) by (simp add: kr_event_safe_def)
  then obtain out' K' where h: "kr_handleWsMessage t ev (kr S) = Some (out', K')" "kr_handled ev out' (kr S) K'"
    by (rule kr_handle_law [OF assms(2)])
  then have eq: "out = out'" "kr S' = K'" using kr_ws by simp_all
  have d: "dom (kr_books K') = dom (kr_books (kr S))" using h(2) by (simp add: kr_handled_def kr_setup_def)
  then have "kr_has K' s \<Longrightarrow> s \<in> dom (kr_books (kr S))" for s by (auto simp: kr_has_def)
  moreover have "\<forall>s ds ts. KrCallback s ds ts \<in> set out' \<longrightarrow> kr_has K' s \<and> (\<forall>d \<in> set ds. d_kind d \<noteq> Backfill)"
    using h(2) unfolding kr_handled_def by (elim conjE)
  ultimately have "kr_good (kr S) out'" unfolding kr_good_def by blast
  then show ?thesis using h(2) d unfolding eq by (simp add: kr_handled_def)
next
  case (kr_wakes p)
  then have "kr_good (kr S) out" by (auto simp: kr_good_def kr_wake_def split: kr_phase.splits if_splits)
  then show ?thesis using kr_wakes assms(2) by simp
next
  case (kr_tick now restart l)
  then show ?thesis using assms(2) by (simp add: kr_activity_law kr_good_def)
qed

interpretation kraken_feed: exchange_adapter kr_step kr_enabled kr_event_safe "\<lambda>K. kr_ok (kr K)" kr_calls
  "\<lambda>K. kr_metrics (kr K)" kr_withMetrics "\<lambda>K. kr_books (kr K)"
proof
  fix s e out s' x ds ts d M b
  show "kr_ok (kr s) \<Longrightarrow> kr_event_safe e \<Longrightarrow> kr_enabled s e \<Longrightarrow> \<exists>out s'. kr_step s e out s'" by (rule kr_step_total)
  assume ok: "kr_ok (kr s)"
  show "ofi_only (kr_metrics (kr s)) M \<Longrightarrow> kr_ok (kr (kr_withMetrics M s))"
    using ok kr_ok_withMetrics by (simp add: kr_withMetrics_def)
  show "kr_books (kr s) x = Some b \<Longrightarrow> book_small b"
    using ok unfolding kr_ok_def book_ok_def by metis
  assume e: "kr_event_safe e" "kr_step s e out s'"
  note law = kr_step_kept [OF e(2) ok e(1)]
  show "kr_ok (kr s')" "dom (kr_books (kr s')) = dom (kr_books (kr s))" using law by simp_all
  show "(x, ds, ts) \<in> set (kr_calls out) \<Longrightarrow> d \<in> set ds \<Longrightarrow> d_kind d \<noteq> Backfill"
    using law unfolding kr_calls_mem kr_good_def by blast
qed (simp add: kr_withMetrics_def)

section \<open>Clients\<close>

lemma getSnapshot_total: "book_small b \<Longrightarrow> \<exists>s. getSnapshot b = Some s"
  using forEach_law [of "askLadder b"] forEach_law [of "bidLadder b"]
  by (auto simp: getSnapshot_def book_small_sides ladder_small_def)

lemma subscribeStream_total:
  assumes "\<And>k b. books k = Some b \<Longrightarrow> book_small b"
  shows "\<exists>r. subscribeStream books now cid p s = Some r"
proof -
  obtain out V where p: "p = (out, V)" by (cases p)
  have key: "\<exists>r. subscribeKey books cid key V = Some r" for key
  proof (cases "books key")
    case (Some b)
    then obtain s where "getSnapshot b = Some s" using getSnapshot_total assms by blast
    then show ?thesis by (simp add: subscribeKey_def Some Let_def)
  qed (simp add: subscribeKey_def Let_def)
  show ?thesis
  proof (cases "parseStream s")
    case (Some es)
    obtain e y where es: "es = (e, y)" by (cases es)
    obtain r where "subscribeKey books cid (streamKey e y) V = Some r" using key by blast
    then show ?thesis by (simp add: p subscribeStream_def Some es split_def)
  qed (simp add: p subscribeStream_def)
qed

lemma foldM_total: "(\<And>x a. \<exists>r. f a x = Some r) \<Longrightarrow> \<exists>r. foldM f a xs = Some r"
  by (induction xs arbitrary: a) (auto, metis bind.bind_lunit)

lemma srv_step_total:
  assumes "\<And>k b. books k = Some b \<Longrightarrow> book_small b"
  shows "\<exists>sent V'. srv_step E books a V = Some (sent, V')"
proof (cases a)
  case (Request cid now msg)
  have "\<exists>r. handleSubscribe books now cid ss V = Some r" for ss
    unfolding handleSubscribe_def by (rule foldM_total) (rule subscribeStream_total [OF assms])
  then have "\<exists>r. onMessage E books now cid msg V = Some r" by (auto simp: onMessage_def split: option.split)
  then show ?thesis by (auto simp: srv_step_def Request)
next
  case (Broadcast exch s ds ts ofi)
  then show ?thesis by (cases "broadcastUpdate E exch s ds ts ofi V") (simp add: srv_step_def)
qed (simp_all add: srv_step_def)

lemma srv_step_inv:
  assumes "srv_inv V" "srv_step E books a V = Some (sent, V')"
  shows "srv_inv V'"
proof (cases a)
  case (Request cid now msg)
  then obtain out where m: "onMessage E books now cid msg V = Some (out, V')"
    using assms(2) by (auto simp: srv_step_def split: Option.bind_splits)
  consider "V' = V" | ss where "handleSubscribe books now cid ss V = Some (out, V')" | ss where "V' = handleUnsubscribe cid ss V"
    using m by (auto simp: onMessage_def split: if_splits option.splits)
  then show ?thesis using handleSubscribe_law(1) [OF assms(1)] handleUnsubscribe_law(1) [OF assms(1)] assms(1)
    by cases auto
next
  case (Broadcast exch s ds ts ofi)
  then show ?thesis using assms by (auto simp: srv_step_def intro: broadcast_inv)
qed (use assms srv_inv_close in \<open>auto simp: srv_step_def\<close>)

lemma srv_run_append:
  "srv_run as V = Some (out, V1) \<Longrightarrow> srv_run bs V1 = Some (out', V2) \<Longrightarrow> srv_run (as @ bs) V = Some (out @ out', V2)"
proof (induction as arbitrary: V out)
  case (Cons a as)
  obtain E books act where a: "a = (E, books, act)" by (cases a)
  obtain o1 W o2 where "srv_step E books act V = Some (o1, W)" "srv_run as W = Some (o2, V1)" "out = o1 @ o2"
    using Cons.prems(1) by (auto simp: a split: Option.bind_splits)
  then show ?case using Cons.IH [OF _ Cons.prems(2)] by (simp add: a)
qed simp

section \<open>Runs of the process\<close>

definition lob_ok :: "lob \<Rightarrow> bool" where
  "lob_ok L \<longleftrightarrow> sys_ok (lob_binance L) \<and> kr_ok (kr (lob_kraken L)) \<and> srv_inv (lob_server L)"

definition lob_event_safe :: "lob_event \<Rightarrow> bool" where
  "lob_event_safe e \<longleftrightarrow> (case e of FromBinance b \<Rightarrow> event_safe b | FromKraken k \<Rightarrow> kr_event_safe k | FromClient a \<Rightarrow> client_action a)"

definition lob_enabled :: "lob \<Rightarrow> lob_event \<Rightarrow> bool" where
  "lob_enabled L e \<longleftrightarrow> (case e of
      FromBinance b \<Rightarrow> enabled (lob_binance L) b
    | FromKraken k \<Rightarrow> kr_enabled (lob_kraken L) k
    | FromClient a \<Rightarrow> True)"

lemma liveBooks_small: "lob_ok L \<Longrightarrow> liveBooks L key = Some b \<Longrightarrow> book_small b"
  using binance_feed.readable kraken_feed.readable unfolding lob_ok_def
  by (auto simp: liveBooks_def split: Option.bind_splits if_splits)

lemma lob_step_total:
  assumes "lob_ok L" "lob_event_safe e" "lob_enabled L e"
  shows "\<exists>sent L'. lob_step n E L e sent L'"
proof (cases e)
  case (FromBinance b)
  then show ?thesis
    using binance_feed.fed_progress [of "lob_binance L" b n E "''binance''" "lob_server L"] assms lob_step.from_binance
    by (fastforce simp: lob_ok_def lob_event_safe_def lob_enabled_def)
next
  case (FromKraken k)
  then show ?thesis
    using kraken_feed.fed_progress [of "lob_kraken L" k E "''kraken''" "lob_server L"] assms lob_step.from_kraken
    by (fastforce simp: lob_ok_def lob_event_safe_def lob_enabled_def)
next
  case (FromClient a)
  obtain sent V where "srv_step E (liveBooks L) a (lob_server L) = Some (sent, V)"
    using srv_step_total [of "liveBooks L"] liveBooks_small [OF assms(1)] by metis
  then show ?thesis using assms(2) lob_step.from_client [of a E L sent V n] by (auto simp: FromClient lob_event_safe_def)
qed

text \<open>A step of the process is a series of actions of the server.\<close>

definition keeps_up :: "string \<Rightarrow> env \<times> lob_event \<Rightarrow> bool" where
  "keeps_up cid = (\<lambda>(E, e). alive E cid \<and> bufferedAmount E cid \<le> kBackpressureLimit \<and>
     (case e of FromClient a \<Rightarrow> keeps cid (E, Map.empty, a) | _ \<Rightarrow> True))"

lemma keeps_broadcasts: "alive E cid \<Longrightarrow> bufferedAmount E cid \<le> kBackpressureLimit \<Longrightarrow> \<forall>a \<in> set (broadcasts E exch cs). keeps cid a"
  by (auto simp: broadcasts_def keeps_def)

lemma keeps_books: "keeps cid (E, books, a) = keeps cid (E, books', a)"
  by (simp add: keeps_def)

lemma liveBooks_dom:
  assumes "lob_ptrs L' = lob_ptrs L" "dom (bin_books (adp (lob_binance L'))) = dom (bin_books (adp (lob_binance L)))"
    "dom (kr_books (kr (lob_kraken L'))) = dom (kr_books (kr (lob_kraken L)))"
  shows "dom (liveBooks L') = dom (liveBooks L)"
proof -
  have x: "x \<in> dom (liveBooks K) \<longleftrightarrow> (case lob_ptrs K x of None \<Rightarrow> False | Some (e, s) \<Rightarrow>
      s \<in> (if e = ''binance'' then dom (bin_books (adp (lob_binance K))) else dom (kr_books (kr (lob_kraken K)))))" for x K
    by (auto simp: liveBooks_def split: option.split)
  show ?thesis unfolding set_eq_iff x using assms by (simp only:) simp
qed

lemma lob_step_kept:
  assumes "lob_step n E L e sent L'" "lob_ok L" "lob_event_safe e"
  shows "lob_ok L'" "lob_ptrs L' = lob_ptrs L" "dom (liveBooks L') = dom (liveBooks L)"
    "\<exists>acts. srv_run acts (lob_server L) = Some (sent, lob_server L') \<and> (\<forall>cid. keeps_up cid (E, e) \<longrightarrow> (\<forall>a \<in> set acts. keeps cid a))"
proof -
  have "lob_ok L' \<and> lob_ptrs L' = lob_ptrs L \<and> dom (bin_books (adp (lob_binance L'))) = dom (bin_books (adp (lob_binance L))) \<and>
    dom (kr_books (kr (lob_kraken L'))) = dom (kr_books (kr (lob_kraken L))) \<and>
    (\<exists>acts. srv_run acts (lob_server L) = Some (sent, lob_server L') \<and> (\<forall>cid. keeps_up cid (E, e) \<longrightarrow> (\<forall>a \<in> set acts. keeps cid a)))"
    using assms(1)
  proof cases
    case (from_binance b out B M V)
    have ok: "sys_ok (lob_binance L)" "event_safe b" using assms(2,3) from_binance(1) by (simp_all add: lob_ok_def lob_event_safe_def)
    note k = binance_feed.fed_kept [OF ok from_binance(3,4)]
    then show ?thesis using assms(2) from_binance keeps_broadcasts
      by (auto simp: lob_ok_def keeps_up_def intro!: exI [of _ "broadcasts E ''binance'' (bin_calls out)"])
  next
    case (from_kraken k out K M V)
    have ok: "kr_ok (kr (lob_kraken L))" "kr_event_safe k" using assms(2,3) from_kraken(1) by (simp_all add: lob_ok_def lob_event_safe_def)
    note k = kraken_feed.fed_kept [OF ok from_kraken(3,4)]
    then show ?thesis using assms(2) from_kraken keeps_broadcasts
      by (auto simp: lob_ok_def keeps_up_def intro!: exI [of _ "broadcasts E ''kraken'' (kr_calls out)"])
  next
    case (from_client a V)
    have "\<forall>cid. keeps_up cid (E, e) \<longrightarrow> keeps cid (E, liveBooks L, a)"
      using keeps_books [of _ E "liveBooks L" a Map.empty] by (simp add: keeps_up_def from_client(1))
    moreover have "srv_run [(E, liveBooks L, a)] (lob_server L) = Some (sent, lob_server L')" using from_client by simp
    ultimately show ?thesis using assms(2) from_client srv_step_inv
      by (auto simp: lob_ok_def intro!: exI [of _ "[(E, liveBooks L, a)]"] simp del: srv_run.simps)
  qed
  then show "lob_ok L'" "lob_ptrs L' = lob_ptrs L" "dom (liveBooks L') = dom (liveBooks L)"
    "\<exists>acts. srv_run acts (lob_server L) = Some (sent, lob_server L') \<and> (\<forall>cid. keeps_up cid (E, e) \<longrightarrow> (\<forall>a \<in> set acts. keeps cid a))"
    using liveBooks_dom [of L' L] by blast+
qed

lemma lob_run_kept:
  assumes "lob_run n L es sent L'" "lob_ok L" "\<forall>(E, e) \<in> set es. lob_event_safe e"
  shows "lob_ok L' \<and> lob_ptrs L' = lob_ptrs L \<and> dom (liveBooks L') = dom (liveBooks L) \<and>
    (\<exists>acts. srv_run acts (lob_server L) = Some (sent, lob_server L') \<and>
      (\<forall>cid. (\<forall>e \<in> set es. keeps_up cid e) \<longrightarrow> (\<forall>a \<in> set acts. keeps cid a)))"
  using assms
proof (induction rule: lob_run.induct)
  case (lob_nothing L)
  then show ?case by (auto intro: exI [of _ "[]"])
next
  case (lob_more E L e sent L1 es rest L2)
  have "lob_event_safe e" using lob_more.prems(2) by simp
  note k = lob_step_kept [OF lob_more.hyps(1) lob_more.prems(1) this]
  from k(4) obtain acts where a: "srv_run acts (lob_server L) = Some (sent, lob_server L1)"
    "\<forall>cid. keeps_up cid (E, e) \<longrightarrow> (\<forall>a \<in> set acts. keeps cid a)" by blast
  have IH: "lob_ok L2 \<and> lob_ptrs L2 = lob_ptrs L1 \<and> dom (liveBooks L2) = dom (liveBooks L1) \<and>
    (\<exists>acts. srv_run acts (lob_server L1) = Some (rest, lob_server L2) \<and>
      (\<forall>cid. (\<forall>e \<in> set es. keeps_up cid e) \<longrightarrow> (\<forall>a \<in> set acts. keeps cid a)))"
    using lob_more.IH k(1) lob_more.prems(2) by simp
  then obtain acts' where a': "srv_run acts' (lob_server L1) = Some (rest, lob_server L2)"
    "\<forall>cid. (\<forall>e \<in> set es. keeps_up cid e) \<longrightarrow> (\<forall>a \<in> set acts'. keeps cid a)" by blast
  have "srv_run (acts @ acts') (lob_server L) = Some (sent @ rest, lob_server L2)" by (rule srv_run_append [OF a(1) a'(1)])
  moreover have "\<forall>cid. (\<forall>e \<in> set ((E, e) # es). keeps_up cid e) \<longrightarrow> (\<forall>a \<in> set (acts @ acts'). keeps cid a)"
    using a(2) a'(2) by auto
  ultimately show ?case using IH k(2,3) by metis
qed

text \<open>The sequence numbers of a connection that keeps up, with the wrap-around of 64 bits.\<close>

definition seqs_after :: "nat \<Rightarrow> nat \<Rightarrow> nat list" where
  "seqs_after n k = map (\<lambda>i. (n + i) mod 18446744073709551616) [1..<Suc k]"

lemma seqs_after_Suc: "seqs_after n (Suc k) = ((n + 1) mod 18446744073709551616) # seqs_after ((n + 1) mod 18446744073709551616) k"
proof -
  have u: "[1..<Suc (Suc k)] = 1 # map Suc [1..<Suc k]" unfolding map_Suc_upt using upt_conv_Cons [of 1 "Suc (Suc k)"] by simp
  have "((n + 1) mod 18446744073709551616 + i) mod 18446744073709551616 = (n + Suc i) mod 18446744073709551616" for i :: nat
    by (simp add: mod_add_left_eq)
  then show ?thesis unfolding seqs_after_def u by simp
qed

lemma seqs_after_last: "0 < k \<Longrightarrow> last (seqs_after n k) = (n + k) mod 18446744073709551616"
  by (simp add: seqs_after_def last_map)

lemma run_seqs_mod:
  assumes "srv_run acts S = Some (out, S')" "srv_inv S" "subscribed cid key S" "\<forall>a \<in> set acts. keeps cid a"
  shows "subscribed cid key S' \<and>
    (\<exists>k. seqs_of cid key out = seqs_after (seqMap S key) k \<and> (0 < k \<longrightarrow> seqMap S' key = (seqMap S key + k) mod 18446744073709551616) \<and>
      (k = 0 \<longrightarrow> seqMap S' key = seqMap S key))"
  using assms
proof (induction acts arbitrary: S out)
  case Nil
  then show ?case by (auto simp: seqs_of_def seqs_after_def)
next
  case (Cons a acts)
  obtain E books act where a: "a = (E, books, act)" by (cases a)
  obtain out1 S1 out2 where r: "srv_step E books act S = Some (out1, S1)" "srv_run acts S1 = Some (out2, S')" "out = out1 @ out2"
    using Cons.prems(1) by (auto simp: a split: Option.bind_splits)
  have k: "keeps cid (E, books, act)" using Cons.prems(4) by (simp add: a)
  note law = srv_step_law [OF Cons.prems(2,3) k r(1)]
  have "\<forall>a \<in> set acts. keeps cid a" using Cons.prems(4) by simp
  from Cons.IH [OF r(2) law(1,2) this] obtain j where sub: "subscribed cid key S'" and j:
    "seqs_of cid key out2 = seqs_after (seqMap S1 key) j" "0 < j \<Longrightarrow> seqMap S' key = (seqMap S1 key + j) mod 18446744073709551616"
    "j = 0 \<Longrightarrow> seqMap S' key = seqMap S1 key" by blast
  from law(3) show ?case
  proof (elim disjE conjE)
    assume "seqMap S1 key = seqMap S key" "seqs_of cid key out1 = []"
    then show ?thesis using sub j by (auto simp: r(3))
  next
    assume s: "seqMap S1 key = (seqMap S key + 1) mod 18446744073709551616" "seqs_of cid key out1 = [seqMap S1 key]"
    have "seqMap S' key = (seqMap S key + Suc j) mod 18446744073709551616"
      using j(2,3) by (cases "j = 0") (simp_all add: s(1) mod_add_left_eq)
    moreover have "seqs_of cid key out = seqs_after (seqMap S key) (Suc j)" using s j(1) by (simp add: r(3) seqs_after_Suc)
    ultimately show ?thesis using sub by blast
  qed
qed

section \<open>The start\<close>

text \<open>Both adapters prepared, and a server without clients.\<close>

definition lob_start :: "binance \<Rightarrow> kraken \<Rightarrow> int \<Rightarrow> (string \<rightharpoonup> (string \<times> string)) \<Rightarrow> lob" where
  "lob_start A K depth ptrs =
     \<lparr>lob_binance = prepared A, lob_kraken = kr_prepared K, lob_server = newServer depth, lob_ptrs = ptrs\<rparr>"

lemma lob_start_ok:
  assumes "prepareStart symbols bs ms d A0 = (True, A)" "fresh symbols bs ms A0"
    and "kr_prepare symbols' bs' ms' d' K0 = (True, K)" "kr_fresh bs' ms'"
  shows "lob_ok (lob_start A K depth ptrs)"
  using start_law [OF assms(1,2)] kr_start_law [OF assms(3,4)]
  by (simp add: lob_ok_def lob_start_def kr_prepared_def srv_inv_def newServer_def)

end
