(* ===== verification/Lob_Delivery.thy ===== *)
theory Lob_Delivery
  imports Lob_System Book_Properties Example_Book
begin

text \<open>
  From a message of Binance to the subscribers: a copy of the book that follows the messages
  of the server.
\<close>

section \<open>Genuine deltas carry the levels of the message\<close>

lemma level_run_genuine:
  "level_run Genuine s b ls ds b' \<Longrightarrow> d \<in> set ds \<Longrightarrow> d_kind d = Genuine \<Longrightarrow> (d_price d, d_newQty d) \<in> set ls"
proof (induction rule: level_run.induct)
  case (change b l ds b' ls ds' b'')
  have "(d_price d, d_newQty d) = l" if "d \<in> set ds"
    using that change(3,8) unfolding level_change_def change_deltas_def Let_def
    by (auto simp: secondaryKind_def split: if_splits)
  with change(6,7,8) show ?case by auto
qed simp

lemma level_ok_in_ll: "level_ok L l \<Longrightarrow> in_ll (fst l) \<and> in_ll (snd l)"
  by (cases l) (auto simp: level_ok_def in_ll_def int_limits)

text \<open>
  A batch that moves no window of a side with levels, one side after the other: what its deltas say of both sides,
  whichever comes first.
\<close>

lemma two_runs:
  assumes run: "level_run Genuine s b ls ds1 b1" "level_run Genuine (\<not> s) b1 ls' ds2 b2"
    and w: "window_kept s (window_of (sideLadder s b)) ls" "window_kept (\<not> s) (window_of (sideLadder (\<not> s) b)) ls'"
    and ok: "\<And>l. l \<in> set ls \<union> set ls' \<Longrightarrow> in_ll (fst l) \<and> in_ll (snd l)"
  shows "exact_ofi (ds1 @ ds2) = (view_sum (ofiBids b2) - view_sum (ofiBids b)) - (view_sum (ofiAsks b2) - view_sum (ofiAsks b))"
    "replay (qty_at (sideLadder side b)) (filter (\<lambda>d. d_kind d = Genuine \<and> d_isBid d = side) (ds1 @ ds2)) = qty_at (sideLadder side b2)"
    "\<And>d. d \<in> set (ds1 @ ds2) \<Longrightarrow> d_kind d = Genuine \<Longrightarrow> in_ll (d_price d) \<and> in_ll (d_newQty d)"
proof -
  have same: "sideLadder (\<not> s) b1 = sideLadder (\<not> s) b" "ofiSide (\<not> s) b1 = ofiSide (\<not> s) b"
    "sideLadder s b2 = sideLadder s b1" "ofiSide s b2 = ofiSide s b1"
    using level_run_same [OF run(1)] level_run_same [OF run(2)] by (simp_all add: same_but_def)
  have w1: "window_kept (\<not> s) (window_of (sideLadder (\<not> s) b1)) ls'" using w(2) same(1) by simp
  have sides: "d \<in> set ds1 \<Longrightarrow> d_isBid d = s" "d \<in> set ds2 \<Longrightarrow> d_isBid d = (\<not> s)" for d
    using level_run_side [OF run(1)] level_run_side [OF run(2)] by simp_all
  show "exact_ofi (ds1 @ ds2) = (view_sum (ofiBids b2) - view_sum (ofiBids b)) - (view_sum (ofiAsks b2) - view_sum (ofiAsks b))"
    using run_ofi [OF run(1) w(1)] run_ofi [OF run(2) w1] same by (cases s) (simp_all add: ofiSide_def)
  have "filter (\<lambda>d. d_kind d = Genuine \<and> d_isBid d = side) (ds1 @ ds2) = filter (\<lambda>d. d_kind d = Genuine) (if side = s then ds1 else ds2)"
    using sides by (auto simp: filter_empty_conv intro!: filter_cong)
  then show "replay (qty_at (sideLadder side b)) (filter (\<lambda>d. d_kind d = Genuine \<and> d_isBid d = side) (ds1 @ ds2)) = qty_at (sideLadder side b2)"
    using level_run_replay [OF run(1) w(1), of "\<lambda>d. d_kind d = Genuine"] level_run_replay [OF run(2) w1, of "\<lambda>d. d_kind d = Genuine"] same
    by (cases "side = s") auto
  show "in_ll (d_price d) \<and> in_ll (d_newQty d)" if "d \<in> set (ds1 @ ds2)" "d_kind d = Genuine" for d
    using level_run_genuine [OF run(1)] level_run_genuine [OF run(2)] that ok by fastforce
qed

text \<open>
  The update that a message of the feed is for a book that it continues: its ids continue those
  of the book, its prices are multiples of the tick from 1 to \<open>2^60\<close>, its quantities are not
  negative, and none of its levels moves the window of a side that holds levels, of which the
  deltas would not tell (\<open>window_move_unreported\<close>).
\<close>

definition continues :: "orderbook \<Rightarrow> update_msg \<Rightarrow> level list \<Rightarrow> level list \<Rightarrow> bool" where
  "continues b msg asks bids \<longleftrightarrow> in_ll (m_U msg) \<and> in_ll (m_u msg) \<and>
     map_exn parseLevel (m_a msg) = Inr asks \<and> map_exn parseLevel (m_b msg) = Inr bids \<and>
     book_inv b \<and> in_ll (lastUpdateId b) \<and> levels_ok b asks bids \<and> \<not> stale b (m_u msg) \<and> \<not> gap b (m_U msg) \<and>
     windows_kept b asks bids"

lemma live_update:
  assumes "continues b msg asks bids"
  obtains ds b' where "applyUpdateCore b (m_U msg) (m_u msg) asks bids Genuine = Some (\<lparr>success = True, deltas = ds\<rparr>, b')"
    "book_inv b'" "lastUpdateId b' = m_u msg"
    "exact_ofi ds = (view_sum (ofiBids b') - view_sum (ofiBids b)) - (view_sum (ofiAsks b') - view_sum (ofiAsks b))"
    "\<And>s. replay (qty_at (sideLadder s b)) (filter (\<lambda>d. d_kind d = Genuine \<and> d_isBid d = s) ds) = qty_at (sideLadder s b')"
    "\<And>d. d \<in> set ds \<Longrightarrow> d_kind d = Genuine \<Longrightarrow> in_ll (d_price d) \<and> in_ll (d_newQty d)"
proof -
  have a: "book_inv b" "in_ll (lastUpdateId b)" "in_ll (m_u msg)" "levels_ok b asks bids" "\<not> stale b (m_u msg)" "\<not> gap b (m_U msg)"
    "window_kept False (window_of (sideLadder False b)) asks" "window_kept True (window_of (sideLadder True b)) bids"
    using assms by (simp_all add: continues_def windows_kept_def)
  obtain da db b1 b2 where run: "applyUpdateCore b (m_U msg) (m_u msg) asks bids Genuine
       = Some (\<lparr>success = True, deltas = da @ db\<rparr>, b2\<lparr>lastUpdateId := m_u msg\<rparr>)"
    "level_run Genuine False b asks da b1" "level_run Genuine True b1 bids db b2" "book_inv b1" "book_inv b2"
    by (rule applyUpdateCore_run [OF a(1-6)])
  have ok: "in_ll (fst l) \<and> in_ll (snd l)" if "l \<in> set asks \<union> set bids" for l
    using that a(4) level_ok_in_ll unfolding levels_ok_def by blast
  note laws = two_runs [OF run(2) _ a(7) _ ok, simplified, OF run(3) a(8) [simplified]]
  show thesis
    by (rule that [OF run(1)]) (use run(5) laws in \<open>simp_all add: book_inv_id sideLadder_def\<close>)
qed

section \<open>A copy of the book\<close>

text \<open>
  A client overwrites the levels it holds of a side with those of each message of the
  stream.
\<close>

fun side_texts :: "bool \<Rightarrow> server_msg \<Rightarrow> (string \<times> string) list" where
  "side_texts s (Update e y ts bids asks ofi seq) = (if s then bids else asks)"
| "side_texts s m = []"

definition read_levels :: "(string \<times> string) list \<Rightarrow> (int \<Rightarrow> int) \<Rightarrow> int \<Rightarrow> int" where
  "read_levels ls m = (case map_exn parseLevel ls of Inr xs \<Rightarrow> foldl upd_level m xs | Inl _ \<Rightarrow> m)"

definition follow :: "bool \<Rightarrow> string \<Rightarrow> string \<Rightarrow> (string \<times> server_msg) list \<Rightarrow> (int \<Rightarrow> int) \<Rightarrow> int \<Rightarrow> int" where
  "follow s cid key sent m = foldl (\<lambda>m (i, msg). read_levels (side_texts s msg) m) m (filter (update_of cid key) sent)"

lemma parse_genuine:
  assumes "\<And>d. d \<in> set ds \<Longrightarrow> d_kind d = Genuine \<Longrightarrow> in_ll (d_price d) \<and> in_ll (d_newQty d)"
  shows "read_levels (genuineLevels s ds) m = replay m (filter (\<lambda>d. d_kind d = Genuine \<and> d_isBid d = s) ds)"
proof -
  let ?ds = "filter (\<lambda>d. d_kind d = Genuine \<and> d_isBid d = s) ds"
  have "parseDecimal (formatScaled x) = Inr x" if "in_ll x" for x
    using that formatScaled_denotes parseDecimal_denotes by blast
  then have "map_exn parseLevel (genuineLevels s ds) = Inr (map (\<lambda>d. (d_price d, d_newQty d)) ?ds)"
    unfolding genuineLevels_def using assms by (intro map_exn_map) (simp add: parseLevel_def)
  then show ?thesis by (simp add: read_levels_def replay_def foldl_map upd_level_def)
qed

text \<open>Overwriting again changes nothing: a snapshot that already has the update may be followed by it.\<close>

lemma replay_same: "replay m ds p = (if p \<in> d_price ` set ds then replay m' ds p else m p)"
proof (induction ds rule: rev_induct)
  case (snoc d ds)
  then show ?case by (auto simp: replay_def)
qed (simp add: replay_def)

lemma replay_again: "replay (replay m ds) ds = replay m ds"
proof
  show "replay (replay m ds) ds p = replay m ds p" for p
    using replay_same [of "replay m ds" ds p m] by (simp split: if_splits)
qed

section \<open>A live message\<close>

text \<open>The adapter has the book of the stream, is live, and the callback is installed.\<close>

definition live_feed :: "binance \<Rightarrow> string \<Rightarrow> string \<Rightarrow> orderbook \<Rightarrow> metrics \<Rightarrow> bool" where
  "live_feed A stream s b m \<longleftrightarrow> bin_canonical A (streamToSymbol stream) = Some s \<and> bin_books A s = Some b \<and>
     bin_metrics A s = Some m \<and> liveReady m \<and> hasCallback A"

lemma recordUpdate_ofi [simp]: "ofiAccumulator (recordUpdate t m) = ofiAccumulator m"
  by (simp add: recordUpdate_def recordProcessingUs_def Let_def)

lemma live_handled:
  assumes feed: "live_feed A0 stream s b m" and msg: "continues b msg asks bids" and e: "in_ll e" "in_ll (wall t - e)"
    and core: "applyUpdateCore b (m_U msg) (m_u msg) asks bids Genuine = Some (\<lparr>success = True, deltas = ds\<rparr>, b')"
  shows "handleWsMessage t (WsMessage (Some (streamMessage stream e msg)) nlj) A0 = Some ([(s, ds, e)],
    putMetrics s (recordUpdate t (m\<lparr>lastEventLagMs := wall t - e\<rparr>)) (putBook s b'
      (putMetrics s (m\<lparr>lastEventLagMs := wall t - e\<rparr>) (A0\<lparr>lastActivity := steady t\<rparr>))))"
proof -
  let ?doc = "streamMessage stream e msg"
  define A where "A = A0\<lparr>lastActivity := steady t\<rparr>"
  have f: "bin_canonical A (streamToSymbol stream) = Some s" "bin_books A s = Some b" "bin_metrics A s = Some m" "liveReady m" "hasCallback A"
    using feed by (simp_all add: live_feed_def A_def)
  have stream: "bind_exn (sjField ?doc ''stream'') sjString = Inr stream"
    by (simp add: streamMessage_def sjField_def json_access sjString_def)
  have r: "routeMessage (Some ?doc) A = Some (?doc, s, b, m)" using f(1-3) by (simp add: routeMessage_def stream)
  have "in_ll (m_U msg)" "in_ll (m_u msg)" "map_exn parseLevel (m_a msg) = Inr asks" "map_exn parseLevel (m_b msg) = Inr bids"
    using msg by (simp_all add: continues_def)
  then have sj: "sjUpdate ?doc = Inr (e, m_U msg, m_u msg, asks, bids)" by (rule sjUpdate_message [OF e(1)])
  show ?thesis unfolding A_def [symmetric] handleWsMessage_def ws_event.case handleMessage_def r option.case prod.case
    using f(4,5) e(2) core by (simp add: fastPath_def sj ll_def finishUpdate_def)
qed

lemma live_step:
  assumes feed: "live_feed (adp (lob_binance L)) stream s b m" and msg: "continues b msg asks bids"
    and e: "in_ll e" "in_ll (wall t - e)"
    and core: "applyUpdateCore b (m_U msg) (m_u msg) asks bids Genuine = Some (\<lparr>success = True, deltas = ds\<rparr>, b')"
    and sent: "broadcastUpdate E ''binance'' s ds e (fst (batchOfi ds)) (lob_server L) = (sent, V')"
  obtains L' m' where "lob_step n E L (FromBinance (Ws t (WsMessage (Some (streamMessage stream e msg)) nlj))) sent L'"
    "bin_books (adp (lob_binance L')) s = Some b'" "lob_ptrs L' = lob_ptrs L" "lob_server L' = V'"
    "bin_metrics (adp (lob_binance L')) s = Some m'"
    "ofiAccumulator m' = (if snd (batchOfi ds) then checkedAdd (ofiAccumulator m) (fst (batchOfi ds)) else ofiAccumulator m)"
    "live_feed (adp (lob_binance L')) stream s b' m'"
proof -
  let ?doc = "streamMessage stream e msg"
  define A where "A = (adp (lob_binance L))\<lparr>lastActivity := steady t\<rparr>"
  define m1 where "m1 = m\<lparr>lastEventLagMs := wall t - e\<rparr>"
  define A' where "A' = putMetrics s (recordUpdate t m1) (putBook s b' (putMetrics s m1 A))"
  have f: "bin_canonical A (streamToSymbol stream) = Some s" "liveReady m" "hasCallback A"
    using feed by (simp_all add: live_feed_def A_def)
  have "handleWsMessage t (WsMessage (Some ?doc) nlj) (adp (lob_binance L)) = Some ([(s, ds, e)], A')"
    using live_handled [OF feed msg e core, of nlj] by (simp add: A'_def m1_def A_def)
  then have step: "bin_step n (lob_binance L) (Ws t (WsMessage (Some ?doc) nlj)) [Callback s ds e] ((lob_binance L)\<lparr>adp := A'\<rparr>)"
    using bin_step.ws [of t _ "lob_binance L" "[(s, ds, e)]" A' n] by simp
  let ?M = "accumulateOfi (bin_metrics A') s ds"
  have calls: "runCallbacks E ''binance'' (bin_calls [Callback s ds e]) (bin_metrics (adp ((lob_binance L)\<lparr>adp := A'\<rparr>)), lob_server L) = (sent, ?M, V')"
    using sent by (simp add: bin_calls_def List.map_filter_def updateCallback_def split_def)
  have M: "\<exists>m'. ?M s = Some m' \<and> liveReady m' \<and>
      ofiAccumulator m' = (if snd (batchOfi ds) then checkedAdd (ofiAccumulator m) (fst (batchOfi ds)) else ofiAccumulator m)"
    using f(2) by (simp add: accumulateOfi_def A'_def m1_def split_def)
  then obtain m' where m': "?M s = Some m'" "liveReady m'"
    "ofiAccumulator m' = (if snd (batchOfi ds) then checkedAdd (ofiAccumulator m) (fst (batchOfi ds)) else ofiAccumulator m)" by blast
  let ?L = "L\<lparr>lob_binance := bin_withMetrics ?M ((lob_binance L)\<lparr>adp := A'\<rparr>), lob_server := V'\<rparr>"
  show thesis
  proof (rule that [OF lob_step.from_binance [OF step calls]])
    show "bin_metrics (adp (lob_binance ?L)) s = Some m'" using m'(1) by (simp add: bin_withMetrics_def)
    have "bin_books A' s = Some b'" "bin_canonical A' = bin_canonical A" "hasCallback A' = hasCallback A" by (simp_all add: A'_def)
    then show "live_feed (adp (lob_binance ?L)) stream s b' m'" using f m'(1,2) by (simp add: live_feed_def bin_withMetrics_def)
  qed (use m'(3) in \<open>simp_all add: bin_withMetrics_def A'_def\<close>)
qed

text \<open>What a client makes of the broadcast, and what the accumulator becomes.\<close>

lemma follow_broadcast:
  assumes "srv_inv V" "subscribed cid (streamKey exch s) V" "alive E cid" "bufferedAmount E cid \<le> kBackpressureLimit"
    and "broadcastUpdate E exch s ds ts ofi V = (sent, V')"
    and "\<And>d. d \<in> set ds \<Longrightarrow> d_kind d = Genuine \<Longrightarrow> in_ll (d_price d) \<and> in_ll (d_newQty d)"
  shows "follow side cid (streamKey exch s) sent m = replay m (filter (\<lambda>d. d_kind d = Genuine \<and> d_isBid d = side) ds)"
proof (cases "genuineLevels True ds = [] \<and> genuineLevels False ds = []")
  case True
  then have "filter (\<lambda>d. d_kind d = Genuine \<and> d_isBid d = side) ds = []" by (cases side) (simp_all add: genuineLevels_def)
  then show ?thesis using broadcast_sent [OF assms(1-5)] True by (simp add: follow_def replay_def)
next
  case False
  then have "follow side cid (streamKey exch s) sent m = read_levels (genuineLevels side ds) m"
    using broadcast_sent [OF assms(1-5)] by (auto simp: follow_def)
  then show ?thesis using parse_genuine [OF assms(6)] by simp
qed

lemma exact_ofi_none: "\<not> (\<exists>d \<in> set ds. counted d) \<Longrightarrow> exact_ofi ds = 0"
  by (induction ds) auto

lemma exact_ofi_bound: "\<bar>exact_ofi ds\<bar> \<le> traffic ds"
  by (induction ds) (auto simp: ofi_weight_def)

lemma accumulated_exact:
  assumes "\<bar>acc\<bar> + traffic ds \<le> LLONG_MAX"
  shows "(if snd (batchOfi ds) then checkedAdd acc (fst (batchOfi ds)) else acc) = acc + exact_ofi ds"
proof -
  have "traffic ds \<le> LLONG_MAX" using assms by linarith
  note b = batchOfi_exact [OF this]
  show ?thesis using assms exact_ofi_bound [of ds] exact_ofi_none [of ds] by (auto simp: b checkedAdd_def int_limits)
qed

end
