(* ===== verification/Lob_Follow.thy ===== *)
theory Lob_Follow
  imports Lob_Delivery
begin

text \<open>
  A series of live messages of Binance for one symbol, with everything else in the process
  between them: what the other events leave alone, and the copy of a client that follows.
\<close>

section \<open>What does not concern a symbol\<close>

definition addressed :: "binance \<Rightarrow> json option \<Rightarrow> string option" where
  "addressed A sj = (case sj of
       None \<Rightarrow> None
     | Some doc \<Rightarrow> (case bind_exn (sjField doc ''stream'') sjString of
         Inl _ \<Rightarrow> None
       | Inr stream \<Rightarrow> bin_canonical A (streamToSymbol stream)))"

definition apart :: "string \<Rightarrow> binance \<Rightarrow> binance \<Rightarrow> bool" where
  "apart s A A' \<longleftrightarrow> bin_books A' s = bin_books A s \<and> bin_metrics A' s = bin_metrics A s \<and>
     bin_canonical A' = bin_canonical A \<and> hasCallback A' = hasCallback A"

definition elsewhere :: "string \<Rightarrow> callback_call list \<Rightarrow> bool" where
  "elsewhere s cs \<longleftrightarrow> list_all (\<lambda>(x, ds, ts). x \<noteq> s) cs"

lemma apart_refl [simp]: "apart s A A"
  by (simp add: apart_def)

lemma elsewhere_Nil [simp]: "elsewhere s []"
  by (simp add: elsewhere_def)

lemma finish_apart:
  "x \<noteq> s \<Longrightarrow> apart s A B \<Longrightarrow> finishUpdate t x e r b m B = (calls, A') \<Longrightarrow> apart s A A' \<and> elsewhere s calls"
  by (auto simp: finishUpdate_def requeueSymbol_def apart_def elsewhere_def split: if_splits)

lemma metrics_apart: "x \<noteq> s \<Longrightarrow> apart s A (putMetrics x m B) = apart s A B"
  by (simp add: apart_def)

lemma fastPath_apart:
  assumes "x \<noteq> s" "fastPath t x b m doc A = Some (calls, A')"
  shows "apart s A A' \<and> elsewhere s calls"
proof (cases "sjUpdate doc")
  case (Inl err)
  then show ?thesis using assms(2) by (simp add: fastPath_def)
next
  case (Inr u)
  obtain e fi la asks bids where u: "u = (e, fi, la, asks, bids)" by (cases u)
  obtain m1 r b' where "finishUpdate t x e r b' m1 (putMetrics x m1 A) = (calls, A')"
    using assms(2) by (auto simp: fastPath_def Inr u Let_def split: Option.bind_splits)
  from finish_apart [OF assms(1) _ this, of A] show ?thesis using metrics_apart [OF assms(1)] by simp
qed

lemma firstLive_apart:
  assumes "x \<noteq> s" "firstLiveUpdate t x b m j A = Some (calls, A')"
  shows "apart s A A' \<and> elsewhere s calls"
proof -
  note m = metrics_apart [OF assms(1)]
  consider m1 where "calls = []" "A' = putMetrics x m1 A"
    | m1 m2 where "calls = []" "A' = putMetrics x m2 (putMetrics x m1 A)"
    | e r b' m1 m2 where "finishUpdate t x e r b' m2 (putMetrics x m2 (putMetrics x m1 A)) = (calls, A')"
    using assms(2) by (auto simp: firstLiveUpdate_def Let_def split: option.splits sum.splits Option.bind_splits)
  then show ?thesis
  proof cases
    case 3
    from finish_apart [OF assms(1) _ 3, of A] show ?thesis by (simp add: m)
  qed (simp_all add: m)
qed

lemma slowPath_apart:
  assumes "x \<noteq> s" "slowPath t x b m nl A = Some (calls, A')"
  shows "apart s A A' \<and> elsewhere s calls"
proof (cases "Option.bind nl outerData")
  case None
  then show ?thesis using assms(2) by (simp add: slowPath_def)
next
  case (Some j)
  show ?thesis
  proof (cases "snapshotApplied b")
    case True
    then show ?thesis using assms Some firstLive_apart by (simp add: slowPath_def)
  next
    case False
    then show ?thesis using assms Some by (auto simp: slowPath_def bufferMessage_def apart_def split: if_splits)
  qed
qed

lemma message_apart:
  assumes "addressed A sj \<noteq> Some s" "handleMessage t sj nl A = Some (calls, A')"
  shows "apart s A A' \<and> elsewhere s calls"
proof (cases "routeMessage sj A")
  case None
  then show ?thesis using assms(2) by (auto simp: handleMessage_def)
next
  case (Some r)
  obtain doc x b m where r: "r = (doc, x, b, m)" by (cases r)
  have "addressed A sj = Some x" using Some
    by (auto simp: r routeMessage_def addressed_def split: option.splits sum.splits Option.bind_splits)
  then have "x \<noteq> s" using assms(1) by simp
  then show ?thesis using assms(2) fastPath_apart slowPath_apart by (auto simp: handleMessage_def Some r split: if_splits)
qed

lemma fetch_apart:
  assumes "x \<noteq> s" "fetchAndApplySnapshot http name x A = Some (ok, A')"
  shows "apart s A A'"
proof -
  have install: "apart s A A'" if "installSnapshot j x b A = Some (ok, A')" for j b
    using that assms(1) by (auto simp: installSnapshot_def apart_def split: option.splits sum.splits bool.splits)
  show ?thesis using assms(2) install by (auto simp: fetchAndApplySnapshot_def Let_def split: option.splits if_splits)
qed

text \<open>Events of the adapter that leave the book of a symbol alone.\<close>

definition passes_by :: "string \<Rightarrow> bin_sys \<Rightarrow> bin_event \<Rightarrow> bool" where
  "passes_by s S e \<longleftrightarrow> (case e of
       Ws t WsOpen \<Rightarrow> \<not> wsConnected (adp S)
     | Ws t (WsMessage sj nl) \<Rightarrow> addressed (adp S) sj \<noteq> Some s
     | StartFetch http before after \<Rightarrow> (case starting S of Fetching (x # ss) k ok \<Rightarrow> x \<noteq> s | _ \<Rightarrow> True)
     | Attempt http stop \<Rightarrow> (case resyncer S of Trying x k \<Rightarrow> x \<noteq> s | _ \<Rightarrow> True)
     | _ \<Rightarrow> True)"

lemma apart_activity [simp]: "apart s (A\<lparr>lastActivity := x\<rparr>) A' = apart s A A'" "apart s A (A'\<lparr>lastActivity := x\<rparr>) = apart s A A'"
  by (simp_all add: apart_def)

lemma addressed_activity [simp]: "addressed (A\<lparr>lastActivity := x\<rparr>) sj = addressed A sj"
proof -
  have same: "bin_canonical (A\<lparr>lastActivity := x\<rparr>) = bin_canonical A" by simp
  show ?thesis unfolding addressed_def same ..
qed

lemma handle_apart:
  assumes "passes_by s S (Ws t ev)" "handleWsMessage t ev (adp S) = Some (calls, A')"
  shows "apart s (adp S) A' \<and> elsewhere s calls"
proof (cases ev)
  case WsOpen
  then show ?thesis using assms by (auto simp: passes_by_def handleWsMessage_def onOpen_def apart_def)
next
  case (WsMessage sj nl)
  then have "addressed (adp S) sj \<noteq> Some s" using assms(1) by (simp add: passes_by_def)
  then show ?thesis using assms(2) message_apart [of "(adp S)\<lparr>lastActivity := steady t\<rparr>" sj s t nl calls A']
    by (simp add: handleWsMessage_def WsMessage)
qed (use assms(2) in \<open>auto simp: handleWsMessage_def\<close>)

lemma bin_calls_callbacks: "bin_calls (map (\<lambda>(s, ds, ts). Callback s ds ts) calls) = calls"
  by (induction calls) (auto simp: bin_calls_def List.map_filter_def)

lemma attempts_apart:
  assumes "x \<noteq> s"
  shows "startAttempt n http sb sa x ss k ok A = Some (p, A') \<Longrightarrow> apart s A A'"
    "workerAttempt n http stop x k A = Some (out, w, A') \<Longrightarrow> apart s A A' \<and> bin_calls out = []"
proof -
  show "startAttempt n http sb sa x ss k ok A = Some (p, A') \<Longrightarrow> apart s A A'"
    using fetch_apart [OF assms] by (auto simp: startAttempt_def split: if_splits Option.bind_splits)
  have e: "endSymbol x stop B = Some (out, w) \<Longrightarrow> bin_calls out = []" for B out w
    by (auto simp: endSymbol_def bin_calls_def List.map_filter_def split: option.splits)
  show "workerAttempt n http stop x k A = Some (out, w, A') \<Longrightarrow> apart s A A' \<and> bin_calls out = []"
    using fetch_apart [OF assms] e
    by (auto simp: workerAttempt_def bin_calls_def List.map_filter_def split: if_splits Option.bind_splits)
qed

lemma bin_step_apart:
  assumes "bin_step n S e out S'" "passes_by s S e"
  shows "apart s (adp S) (adp S') \<and> elsewhere s (bin_calls out)"
  using assms(1)
proof cases
  case (ws t ev calls A)
  then show ?thesis using handle_apart [of s S t ev calls A] assms(2) by (simp add: bin_calls_callbacks)
next
  case (start_fetch x ss k allOk http stopBefore stopAfter p A)
  then have "x \<noteq> s" using assms(2) by (simp add: passes_by_def)
  from attempts_apart(1) [OF this] start_fetch show ?thesis by (auto simp: bin_calls_def List.map_filter_def)
next
  case (start_fails x ss k allOk http stopBefore stopAfter A)
  then have "x \<noteq> s" using assms(2) by (simp add: passes_by_def)
  from attempts_apart(1) [OF this] start_fails show ?thesis by (auto simp: stopAdapter_def bin_calls_def List.map_filter_def)
next
  case (attempt x k http stop w A)
  then have "x \<noteq> s" using assms(2) by (simp add: passes_by_def)
  from attempts_apart(2) [OF this] attempt show ?thesis by auto
qed (auto simp: takeSymbol_def apart_def bin_calls_def List.map_filter_def split: list.splits)

text \<open>Neither a reconnect nor a new snapshot calls back: no subscriber is told that the book changed.\<close>

lemma recovery_unannounced:
  assumes "bin_step n S e out S'" "(\<exists>t. e = Ws t WsOpen) \<or> (\<exists>http stop. e = Attempt http stop) \<or> (\<exists>http sb sa. e = StartFetch http sb sa)"
  shows "bin_calls out = []"
  using assms(1)
proof cases
  case (ws t ev calls A)
  then show ?thesis using assms(2) by (auto simp: handleWsMessage_def bin_calls_def List.map_filter_def)
next
  case (attempt x k http stop w A)
  have "x \<noteq> CHR ''x'' # x" by simp
  from attempts_apart(2) [OF this] attempt show ?thesis by auto
qed (use assms(2) in \<open>auto simp: bin_calls_def List.map_filter_def\<close>)

section \<open>Callbacks and answers for other streams\<close>

lemma runCallbacks_apart:
  "runCallbacks E exch cs (M, V) = (sent, M', V') \<Longrightarrow> elsewhere s cs \<Longrightarrow> M' s = M s"
proof (induction cs arbitrary: M V sent)
  case (Cons c cs)
  obtain x ds ts where c: "c = (x, ds, ts)" by (cases c)
  obtain out V1 where b: "broadcastUpdate E exch x ds ts (fst (batchOfi ds)) V = (out, V1)"
    by (cases "broadcastUpdate E exch x ds ts (fst (batchOfi ds)) V")
  then have "updateCallback E exch c (M, V) = (out, accumulateOfi M x ds, V1)" by (simp add: updateCallback_def c split_def)
  then obtain rest where "runCallbacks E exch cs (accumulateOfi M x ds, V1) = (rest, M', V')"
    using Cons.prems(1) by (auto split: prod.splits)
  then have "M' s = accumulateOfi M x ds s" using Cons.IH Cons.prems(2) by (simp add: elsewhere_def)
  moreover have "x \<noteq> s" using Cons.prems(2) by (simp add: elsewhere_def c)
  ultimately show ?case by (simp add: accumulateOfi_def split_def Let_def split: option.split)
qed simp

lemma broadcast_other:
  assumes "broadcastUpdate E exch x ds ts ofi V = (out, V')" "streamKey exch x \<noteq> key"
  shows "filter (update_of cid key) out = []"
  using assms by (auto simp: broadcastUpdate_def Let_def split_def filter_empty_conv update_of_def split: if_splits)

lemma runCallbacks_silent:
  "runCallbacks E exch cs (M, V) = (sent, M', V') \<Longrightarrow> list_all (\<lambda>(x, ds, ts). streamKey exch x \<noteq> key) cs \<Longrightarrow>
     filter (update_of cid key) sent = []"
proof (induction cs arbitrary: M V sent)
  case (Cons c cs)
  obtain x ds ts where c: "c = (x, ds, ts)" by (cases c)
  obtain out V1 where b: "broadcastUpdate E exch x ds ts (fst (batchOfi ds)) V = (out, V1)"
    by (cases "broadcastUpdate E exch x ds ts (fst (batchOfi ds)) V")
  then have "updateCallback E exch c (M, V) = (out, accumulateOfi M x ds, V1)" by (simp add: updateCallback_def c split_def)
  then obtain rest where r: "runCallbacks E exch cs (accumulateOfi M x ds, V1) = (rest, M', V')" "sent = out @ rest"
    using Cons.prems(1) by (auto split: prod.splits)
  have "filter (update_of cid key) out = []" using broadcast_other [OF b] Cons.prems(2) by (simp add: c)
  moreover have "filter (update_of cid key) rest = []" using Cons.IH [OF r(1)] Cons.prems(2) by simp
  ultimately show ?case by (simp add: r(2))
qed simp

lemma streamKey_differs:
  "streamKey ''binance'' x = streamKey ''binance'' y \<longleftrightarrow> x = y" "streamKey ''kraken'' x \<noteq> streamKey ''binance'' y"
  by (simp_all add: streamKey_def)

text \<open>An answer to a client holds no update.\<close>

lemma answers_silent:
  assumes "srv_inv V" "subscribed cid key V" "keeps cid (E, books, a)" "client_action a" "srv_step E books a V = Some (sent, V')"
  shows "filter (update_of cid key) sent = []"
proof (cases a)
  case (Request i now msg)
  then obtain out where m: "onMessage E books now i msg V = Some (out, V')" "sent = map (Pair i) out"
    using assms(5) by (auto simp: srv_step_def split: Option.bind_splits)
  have own: "i = cid \<Longrightarrow> (\<forall>r. parseClientMessage msg = Some r \<longrightarrow> op r = ''subscribe'')"
    using assms(3) Request by (simp add: keeps_def)
  have "seqs_of cid key sent = []" using onMessage_law(4) [OF assms(1,2) m(1) own] by (simp add: m(2) seqs_of_none)
  then show ?thesis by (simp add: seqs_of_def)
qed (use assms(4,5) in \<open>simp_all add: srv_step_def client_action_def\<close>)

section \<open>The series\<close>

text \<open>
  A run of the process in which the messages of one stream are live and continue the book;
  any other event may come between them, but none that touches the symbol: no reconnect of
  the Binance socket, no snapshot of the symbol.
\<close>

definition beside :: "string \<Rightarrow> lob \<Rightarrow> lob_event \<Rightarrow> bool" where
  "beside s L e \<longleftrightarrow> (case e of FromBinance b \<Rightarrow> passes_by s (lob_binance L) b | _ \<Rightarrow> True)"

inductive feed_run :: "int \<Rightarrow> string \<Rightarrow> string \<Rightarrow> lob \<Rightarrow> (env \<times> lob_event) list \<Rightarrow> (string \<times> server_msg) list \<Rightarrow> lob \<Rightarrow> bool" for n stream s where
  feed_done: "feed_run n stream s L [] [] L"
| feed_message: "bin_books (adp (lob_binance L)) s = Some b \<Longrightarrow> continues b msg asks bids \<Longrightarrow> in_ll e \<Longrightarrow> in_ll (wall t - e) \<Longrightarrow>
    lob_step n E L (FromBinance (Ws t (WsMessage (Some (streamMessage stream e msg)) nlj))) sent L1 \<Longrightarrow> feed_run n stream s L1 es rest L2 \<Longrightarrow>
    feed_run n stream s L ((E, FromBinance (Ws t (WsMessage (Some (streamMessage stream e msg)) nlj))) # es) (sent @ rest) L2"
| feed_beside: "beside s L e \<Longrightarrow> lob_step n E L e sent L1 \<Longrightarrow> feed_run n stream s L1 es rest L2 \<Longrightarrow>
    feed_run n stream s L ((E, e) # es) (sent @ rest) L2"

lemma feed_run_is_run: "feed_run n stream s L es sent L' \<Longrightarrow> lob_run n L es sent L'"
  by (induction rule: feed_run.induct) (auto intro: lob_run.intros)

lemma message_step_unique:
  assumes "lob_step n E L (FromBinance (Ws t ev)) sent L1" "lob_step n E L (FromBinance (Ws t ev)) sent' L2"
  shows "sent' = sent" "L2 = L1"
  using assms by (auto elim!: lob_stepE bin_stepE)

lemma follow_append: "follow side cid key (sent @ rest) c = follow side cid key rest (follow side cid key sent c)"
  by (simp add: follow_def)

lemma follow_none: "filter (update_of cid key) sent = [] \<Longrightarrow> follow side cid key sent c = c"
  by (simp add: follow_def)

lemma message_followed:
  assumes feed: "live_feed (adp (lob_binance L)) stream s b m" and msg: "continues b msg asks bids"
    and e: "in_ll e" "in_ll (wall t - e)"
    and srv: "srv_inv (lob_server L)" "subscribed cid (streamKey ''binance'' s) (lob_server L)" "alive E cid" "bufferedAmount E cid \<le> kBackpressureLimit"
    and step: "lob_step n E L (FromBinance (Ws t (WsMessage (Some (streamMessage stream e msg)) nlj))) sent L'"
  obtains b' m' where "live_feed (adp (lob_binance L')) stream s b' m'"
    "\<And>side. follow side cid (streamKey ''binance'' s) sent (qty_at (sideLadder side b)) = qty_at (sideLadder side b')"
proof -
  obtain ds b' where u: "applyUpdateCore b (m_U msg) (m_u msg) asks bids Genuine = Some (\<lparr>success = True, deltas = ds\<rparr>, b')"
    "\<And>side. replay (qty_at (sideLadder side b)) (filter (\<lambda>d. d_kind d = Genuine \<and> d_isBid d = side) ds) = qty_at (sideLadder side b')"
    "\<And>d. d \<in> set ds \<Longrightarrow> d_kind d = Genuine \<Longrightarrow> in_ll (d_price d) \<and> in_ll (d_newQty d)"
    by (rule live_update [OF msg]) blast
  obtain sent' V' where sent: "broadcastUpdate E ''binance'' s ds e (fst (batchOfi ds)) (lob_server L) = (sent', V')"
    by (cases "broadcastUpdate E ''binance'' s ds e (fst (batchOfi ds)) (lob_server L)")
  obtain L2 m' where L2: "lob_step n E L (FromBinance (Ws t (WsMessage (Some (streamMessage stream e msg)) nlj))) sent' L2"
    "live_feed (adp (lob_binance L2)) stream s b' m'"
    by (rule live_step [OF feed msg e u(1) sent]) blast
  have same: "sent' = sent" "L2 = L'" using message_step_unique [OF step L2(1)] by simp_all
  show thesis
    by (rule that [OF L2(2) [unfolded same]]) (use follow_broadcast [OF srv sent u(3)] u(2) in \<open>simp add: same(1)\<close>)
qed

lemma beside_kept:
  assumes "beside s L e" "lob_step n E L e sent L'"
    and srv: "srv_inv (lob_server L)" "subscribed cid (streamKey ''binance'' s) (lob_server L)" "keeps_up cid (E, e)"
    and feed: "live_feed (adp (lob_binance L)) stream s b m"
  shows "live_feed (adp (lob_binance L')) stream s b m \<and> filter (update_of cid (streamKey ''binance'' s)) sent = []"
  using assms(2)
proof cases
  case (from_binance ev out B M V)
  have a: "apart s (adp (lob_binance L)) (adp B)" "elsewhere s (bin_calls out)"
    using bin_step_apart [OF from_binance(3)] assms(1) by (simp_all add: beside_def from_binance(1))
  then have "M s = bin_metrics (adp (lob_binance L)) s" using runCallbacks_apart [OF from_binance(4)] by (simp add: apart_def)
  moreover have "list_all (\<lambda>(x, ds, ts). streamKey ''binance'' x \<noteq> streamKey ''binance'' s) (bin_calls out)"
    using a(2) by (simp add: elsewhere_def streamKey_differs)
  ultimately show ?thesis using runCallbacks_silent [OF from_binance(4)] a(1) feed from_binance(2)
    by (simp add: live_feed_def bin_withMetrics_def apart_def)
next
  case (from_kraken ev out K M V)
  have "list_all (\<lambda>(x, ds, ts). streamKey ''kraken'' x \<noteq> streamKey ''binance'' s) (kr_calls out)"
    by (simp add: streamKey_differs list_all_iff split_def)
  then show ?thesis using runCallbacks_silent [OF from_kraken(4)] feed from_kraken(2) by simp
next
  case (from_client a V)
  have "keeps cid (E, liveBooks L, a)" using srv(3) keeps_books [of _ E "liveBooks L" a Map.empty] by (simp add: keeps_up_def from_client(1))
  then show ?thesis using answers_silent [OF srv(1,2) _ from_client(3,4)] feed from_client(2) by simp
qed

lemma step_keeps_subscribed:
  assumes "lob_step n E L e sent L'" "lob_ok L" "lob_event_safe e" "subscribed cid key (lob_server L)" "keeps_up cid (E, e)"
  shows "subscribed cid key (lob_server L')"
proof -
  obtain acts where "srv_run acts (lob_server L) = Some (sent, lob_server L')" "\<forall>a \<in> set acts. keeps cid a"
    using lob_step_kept(4) [OF assms(1-3)] assms(5) by blast
  then show ?thesis using run_seqs_mod [of acts] assms(2,4) by (auto simp: lob_ok_def)
qed

lemma feed_followed:
  "feed_run n stream s L es sent L' \<Longrightarrow> lob_ok L \<Longrightarrow> \<forall>(E, e) \<in> set es. lob_event_safe e \<Longrightarrow> \<forall>x \<in> set es. keeps_up cid x \<Longrightarrow>
     subscribed cid (streamKey ''binance'' s) (lob_server L) \<Longrightarrow> live_feed (adp (lob_binance L)) stream s b m \<Longrightarrow>
     \<exists>b' m'. live_feed (adp (lob_binance L')) stream s b' m' \<and>
       (\<forall>side. follow side cid (streamKey ''binance'' s) sent (qty_at (sideLadder side b)) = qty_at (sideLadder side b'))"
proof (induction arbitrary: b m rule: feed_run.induct)
  case (feed_done L)
  then show ?case by (auto simp: follow_none)
next
  case (feed_message L b0 msg asks bids e t E nlj sent L1 es rest L2)
  let ?ev = "FromBinance (Ws t (WsMessage (Some (streamMessage stream e msg)) nlj))"
  have b0: "b0 = b" using feed_message.hyps(1) feed_message.prems(5) by (simp add: live_feed_def)
  have k: "keeps_up cid (E, ?ev)" and safe: "lob_event_safe ?ev" and inv: "srv_inv (lob_server L)"
    using feed_message.prems(1-3) by (simp_all add: lob_ok_def)
  have alive: "alive E cid" "bufferedAmount E cid \<le> kBackpressureLimit" using k by (simp_all add: keeps_up_def)
  obtain b1 m1 where b1: "live_feed (adp (lob_binance L1)) stream s b1 m1"
    "\<And>side. follow side cid (streamKey ''binance'' s) sent (qty_at (sideLadder side b)) = qty_at (sideLadder side b1)"
    by (rule message_followed [OF feed_message.prems(5) feed_message.hyps(2) [unfolded b0] feed_message.hyps(3,4) inv feed_message.prems(4) alive
        feed_message.hyps(5)]) blast
  note kept = lob_step_kept(1) [OF feed_message.hyps(5) feed_message.prems(1) safe]
    step_keeps_subscribed [OF feed_message.hyps(5) feed_message.prems(1) safe feed_message.prems(4) k]
  have "\<exists>b' m'. live_feed (adp (lob_binance L2)) stream s b' m' \<and>
       (\<forall>side. follow side cid (streamKey ''binance'' s) rest (qty_at (sideLadder side b1)) = qty_at (sideLadder side b'))"
    by (rule feed_message.IH [OF kept(1) _ _ kept(2) b1(1)]) (use feed_message.prems(2,3) in simp_all)
  then show ?case by (simp add: follow_append b1(2))
next
  case (feed_beside L e E sent L1 es rest L2)
  have k: "keeps_up cid (E, e)" and safe: "lob_event_safe e" and inv: "srv_inv (lob_server L)"
    using feed_beside.prems(1-3) by (simp_all add: lob_ok_def)
  note b1 = beside_kept [OF feed_beside.hyps(1,2) inv feed_beside.prems(4) k feed_beside.prems(5)]
  note kept = lob_step_kept(1) [OF feed_beside.hyps(2) feed_beside.prems(1) safe]
    step_keeps_subscribed [OF feed_beside.hyps(2) feed_beside.prems(1) safe feed_beside.prems(4) k]
  have "\<exists>b' m'. live_feed (adp (lob_binance L2)) stream s b' m' \<and>
       (\<forall>side. follow side cid (streamKey ''binance'' s) rest (qty_at (sideLadder side b)) = qty_at (sideLadder side b'))"
    by (rule feed_beside.IH [OF kept(1) _ _ kept(2) conjunct1 [OF b1]]) (use feed_beside.prems(2,3) in simp_all)
  then show ?case using b1 by (simp add: follow_append follow_none)
qed

end
