(* ===== verification/Lob_Kraken.thy ===== *)
theory Lob_Kraken
  imports Lob_Delivery
begin

text \<open>
  From a message of Kraken to the subscribers: the counterpart of the delivery of Binance.
  Kraken sends its levels as JSON numbers and no update ids, bids are applied first.
\<close>

section \<open>The update\<close>

definition kr_continues :: "orderbook \<Rightarrow> level list \<Rightarrow> level list \<Rightarrow> bool" where
  "kr_continues b asks bids \<longleftrightarrow> book_inv b \<and> levels_ok b asks bids \<and> (\<forall>l \<in> set bids \<union> set asks. exact_level l) \<and>
     windows_kept b asks bids"

lemma kr_update:
  assumes "kr_continues b asks bids"
  obtains d1 b1 ds b' where "foldM (applyLevelChange Genuine True) ([], b) bids = Some (d1, b1)"
    "foldM (applyLevelChange Genuine False) (d1, b1) asks = Some (ds, b')" "book_inv b'" "snapshotApplied b' = snapshotApplied b"
    "exact_ofi ds = (view_sum (ofiBids b') - view_sum (ofiBids b)) - (view_sum (ofiAsks b') - view_sum (ofiAsks b))"
    "\<And>s. replay (qty_at (sideLadder s b)) (filter (\<lambda>d. d_kind d = Genuine \<and> d_isBid d = s) ds) = qty_at (sideLadder s b')"
    "\<And>d. d \<in> set ds \<Longrightarrow> d_kind d = Genuine \<Longrightarrow> in_ll (d_price d) \<and> in_ll (d_newQty d)"
proof -
  have b: "book_inv b" and ok: "levels_ok b asks bids" and w: "window_kept False (window_of (sideLadder False b)) asks" "window_kept True (window_of (sideLadder True b)) bids"
    using assms by (simp_all add: kr_continues_def windows_kept_def)
  have "\<forall>l \<in> set bids. level_ok (sideLadder True b) l" using ok by (simp add: levels_ok_def)
  then obtain db b1 where 1: "foldM (applyLevelChange Genuine True) ([], b) bids = Some ([] @ db, b1)"
    "level_run Genuine True b bids db b1" "book_inv b1"
    by (rule run_exists [OF b])
  have "sideLadder False b1 = sideLadder False b" using level_run_same [OF 1(2)] by (simp add: same_but_def)
  then have "\<forall>l \<in> set asks. level_ok (sideLadder False b1) l" using ok by (simp add: levels_ok_def)
  then obtain da b2 where 2: "foldM (applyLevelChange Genuine False) (db, b1) asks = Some (db @ da, b2)"
    "level_run Genuine False b1 asks da b2" "book_inv b2"
    by (rule run_exists [OF 1(3)])
  have lls: "in_ll (fst l) \<and> in_ll (snd l)" if "l \<in> set bids \<union> set asks" for l
    using that ok level_ok_in_ll unfolding levels_ok_def by blast
  note laws = two_runs [OF 1(2) _ w(2) _ lls, simplified, OF 2(2) w(1) [simplified]]
  show thesis
    by (rule that [OF 1(1) [simplified] 2(1,3)])
      (use laws level_run_same [OF 1(2)] level_run_same [OF 2(2)] in \<open>simp_all add: same_but_def\<close>)
qed

section \<open>The message\<close>

definition kr_live_feed :: "kraken \<Rightarrow> string \<Rightarrow> string \<Rightarrow> orderbook \<Rightarrow> metrics \<Rightarrow> bool" where
  "kr_live_feed K krakenSym s b m \<longleftrightarrow> toCanonical (kr_normalizer K) ''kraken'' krakenSym = Some s \<and> kr_books K s = Some b \<and>
     kr_metrics K s = Some m \<and> snapshotApplied b \<and> kr_callback K"

lemma kr_live_step:
  assumes feed: "kr_live_feed (kr (lob_kraken L)) krakenSym s b m" and msg: "kr_continues b asks bids"
    and e: "isoTimestampToMs stamp = Some ms" "0 < ms" "in_ll (wall t - ms)"
    and core: "foldM (applyLevelChange Genuine True) ([], b) bids = Some (d1, b1)"
      "foldM (applyLevelChange Genuine False) (d1, b1) asks = Some (ds, b')"
    and sent: "broadcastUpdate E ''kraken'' s ds ms (fst (batchOfi ds)) (lob_server L) = (sent, V')"
  obtains L' m' where "lob_step n E L (FromKraken (KrWs t (WsMessage sj (Some (krakenMessage ''update'' (krakenItem krakenSym bids asks stamp)))))) sent L'"
    "kr_books (kr (lob_kraken L')) s = Some b'" "lob_ptrs L' = lob_ptrs L" "lob_server L' = V'"
    "kr_metrics (kr (lob_kraken L')) s = Some m'"
    "ofiAccumulator m' = (if snd (batchOfi ds) then checkedAdd (ofiAccumulator m) (fst (batchOfi ds)) else ofiAccumulator m)"
proof -
  let ?K = "kr (lob_kraken L)"
  let ?ev = "WsMessage sj (Some (krakenMessage ''update'' (krakenItem krakenSym bids asks stamp)))"
  define K' where "K' = ?K\<lparr>kr_activity := steady t, kr_books := (kr_books ?K)(s \<mapsto> b'),
      kr_metrics := (kr_metrics ?K)(s \<mapsto> recordUpdate t (m\<lparr>lastEventLagMs := wall t - ms\<rparr>))\<rparr>"
  have f: "toCanonical (kr_normalizer ?K) ''kraken'' krakenSym = Some s" "kr_books ?K s = Some b" "kr_metrics ?K s = Some m"
    "snapshotApplied b" "kr_callback ?K"
    using feed by (simp_all add: kr_live_feed_def)
  have ls: "\<forall>l \<in> set bids \<union> set asks. exact_level l" using msg by (simp add: kr_continues_def)
  have step: "kr_step (lob_kraken L) (KrWs t ?ev) [KrCallback s ds ms] ((lob_kraken L)\<lparr>kr := K'\<rparr>)"
    using kr_step.kr_ws [OF kr_update_handled [OF ls f(1-4) e core f(5)]] by (simp add: K'_def)
  let ?M = "accumulateOfi (kr_metrics K') s ds"
  have calls: "runCallbacks E ''kraken'' (kr_calls [KrCallback s ds ms]) (kr_metrics (kr ((lob_kraken L)\<lparr>kr := K'\<rparr>)), lob_server L) = (sent, ?M, V')"
    using sent by (simp add: kr_calls_def List.map_filter_def updateCallback_def split_def)
  have "\<exists>m'. ?M s = Some m' \<and> ofiAccumulator m' = (if snd (batchOfi ds) then checkedAdd (ofiAccumulator m) (fst (batchOfi ds)) else ofiAccumulator m)"
    by (simp add: accumulateOfi_def K'_def split_def)
  then obtain m' where m': "?M s = Some m'"
    "ofiAccumulator m' = (if snd (batchOfi ds) then checkedAdd (ofiAccumulator m) (fst (batchOfi ds)) else ofiAccumulator m)" by blast
  show thesis
  proof (rule that [OF lob_step.from_kraken [OF step calls]])
    show "kr_metrics (kr (lob_kraken (L\<lparr>lob_kraken := kr_withMetrics ?M ((lob_kraken L)\<lparr>kr := K'\<rparr>), lob_server := V'\<rparr>))) s = Some m'"
      using m'(1) by (simp add: kr_withMetrics_def)
  qed (use m'(2) in \<open>simp_all add: kr_withMetrics_def K'_def\<close>)
qed

end
