(* ===== verification/Lob_Copy.thy ===== *)
theory Lob_Copy
  imports Lob_Follow Lob_Kraken
begin

text \<open>
  What a client makes of everything it is sent on a stream, snapshots included, and when its
  copy is in step with a book whose callbacks are still under way.
\<close>

section \<open>The view of a client\<close>

text \<open>A snapshot replaces the copy of both sides, an update overwrites the levels it lists.\<close>

fun view_msg :: "string \<Rightarrow> server_msg \<Rightarrow> (bool \<Rightarrow> int \<Rightarrow> int) \<Rightarrow> bool \<Rightarrow> int \<Rightarrow> int" where
  "view_msg key (Snapshot e y ts bids asks depth seq) c =
     (if streamKey e y = key then (\<lambda>side. read_levels (if side then bids else asks) (\<lambda>_. 0)) else c)"
| "view_msg key (Update e y ts bids asks ofi seq) c =
     (if streamKey e y = key then (\<lambda>side. read_levels (if side then bids else asks) (c side)) else c)"
| "view_msg key (Error t) c = c"

definition client_view :: "string \<Rightarrow> string \<Rightarrow> (string \<times> server_msg) list \<Rightarrow> (bool \<Rightarrow> int \<Rightarrow> int) \<Rightarrow> bool \<Rightarrow> int \<Rightarrow> int" where
  "client_view cid key sent c = foldl (\<lambda>c (i, m). if i = cid then view_msg key m c else c) c sent"

lemma client_view_simps [simp]:
  "client_view cid key [] c = c"
  "client_view cid key ((i, m) # sent) c = client_view cid key sent (if i = cid then view_msg key m c else c)"
  "client_view cid key (sent @ rest) c = client_view cid key rest (client_view cid key sent c)"
  by (simp_all add: client_view_def)

text \<open>A snapshot that arrives after updates of its stream undoes them, whatever their sequence numbers.\<close>

lemma late_snapshot:
  "streamKey e y = key \<Longrightarrow> client_view cid key (sent @ [(cid, Snapshot e y ts bids asks depth seq)]) c =
     (\<lambda>side. read_levels (if side then bids else asks) (\<lambda>_. 0))"
  by simp

lemma client_view_other: "i \<noteq> cid \<Longrightarrow> client_view cid key (map (Pair i) ms) c = c"
  by (induction ms) simp_all

definition is_update :: "server_msg \<Rightarrow> bool" where
  "is_update m \<longleftrightarrow> (case m of Update _ _ _ _ _ _ _ \<Rightarrow> True | _ \<Rightarrow> False)"

lemma client_view_updates:
  "\<forall>(i, m) \<in> set sent. is_update m \<Longrightarrow> client_view cid key sent c = client_view cid key (filter (update_of cid key) sent) c"
proof (induction sent arbitrary: c)
  case (Cons x sent)
  obtain i m where x: "x = (i, m)" by (cases x)
  then have "is_update m" using Cons.prems by simp
  then show ?case using Cons by (cases m) (simp_all add: x update_of_def is_update_def)
qed simp

lemma broadcast_updates: "broadcastUpdate E exch s ds ts ofi V = (out, V') \<Longrightarrow> \<forall>(i, m) \<in> set out. is_update m"
  by (auto simp: broadcastUpdate_def Let_def split_def is_update_def split: if_splits)

section \<open>Snapshots\<close>

text \<open>The levels that a snapshot lists are those of the side.\<close>

lemma upd_level_distinct:
  assumes "distinct (map fst ls)"
  shows "foldl upd_level m ls p = (case map_of ls p of Some q \<Rightarrow> q | None \<Rightarrow> m p)"
  using assms
proof (induction ls arbitrary: m)
  case (Cons l ls)
  then have "fst l \<notin> dom (map_of ls)" by (simp add: dom_map_of_conv_image_fst)
  with Cons show ?case by (cases l) (auto simp: upd_level_def split: option.splits)
qed simp

lemma read_json:
  assumes "\<And>l. l \<in> set ls \<Longrightarrow> in_ll (fst l) \<and> in_ll (snd l)"
  shows "read_levels (bookLevelsToJson ls) m = foldl upd_level m ls"
proof -
  have "parseDecimal (formatScaled x) = Inr x" if "in_ll x" for x
    using that formatScaled_denotes parseDecimal_denotes by blast
  then have "map_exn parseLevel (bookLevelsToJson ls) = Inr (map id ls)"
    unfolding bookLevelsToJson_def using assms by (intro map_exn_map) (auto simp: parseLevel_def split: prod.split)
  then show ?thesis by (simp add: read_levels_def)
qed

lemma read_side:
  assumes "ladder_small L" "ls = levels L \<or> ls = rev (levels L)"
  shows "read_levels (bookLevelsToJson ls) (\<lambda>_. 0) = qty_at L"
proof -
  have inv: "ladder_inv L" and small: "\<And>p. 0 < qty_at L p \<Longrightarrow> small p" using assms(1) by (simp_all add: ladder_small_def)
  have ls: "set ls = {(p, qty_at L p) | p. 0 < qty_at L p}" using levels_set [OF inv] assms(2) by auto
  have dist: "distinct (map fst ls)"
    using levels_sorted [OF inv] assms(2) by (auto simp: strict_sorted_iff rev_map [symmetric])
  have q: "0 \<le> qty_at L p \<and> in_ll (qty_at L p)" for p using qty_at_nonneg [OF inv, of p] qty_at_le [OF inv, of p] by (auto simp: in_ll_def int_limits)
  have "in_ll p" if "0 < qty_at L p" for p using small [OF that] by (simp add: small_def in_ll_def int_limits abs_le_iff)
  then have "in_ll (fst l) \<and> in_ll (snd l)" if "l \<in> set ls" for l using that q by (auto simp: ls)
  then have read: "read_levels (bookLevelsToJson ls) (\<lambda>_. 0) = foldl upd_level (\<lambda>_. 0) ls" by (rule read_json)
  have "foldl upd_level (\<lambda>_. 0) ls p = qty_at L p" for p
  proof (cases "0 < qty_at L p")
    case True
    then have "(p, qty_at L p) \<in> set ls" by (auto simp: ls)
    then show ?thesis using map_of_is_SomeI [OF dist] by (simp add: upd_level_distinct [OF dist])
  next
    case False
    then have "p \<notin> fst ` set ls" by (auto simp: ls)
    then have "map_of ls p = None" by (simp add: map_of_eq_None_iff)
    moreover have "qty_at L p = 0" using q [of p] False by linarith
    ultimately show ?thesis by (simp add: upd_level_distinct [OF dist])
  qed
  then show ?thesis unfolding read by blast
qed

definition asks_for :: "string \<Rightarrow> string \<Rightarrow> bool" where
  "asks_for key s \<longleftrightarrow> (case parseStream s of None \<Rightarrow> False | Some (e, y) \<Rightarrow> streamKey e y = key)"

text \<open>The answer to a request: a copy is left alone or becomes the book, the latter when the stream is among those asked for.\<close>

lemma subscribe_view:
  assumes snap: "getSnapshot b = Some snap" "applied snap" and key: "books key = Some b"
    and exact: "\<And>side. read_levels (bookLevelsToJson (if side then snap_bids snap else snap_asks snap)) (\<lambda>_. 0) = book side"
  shows "foldM (subscribeStream books now cid) (out, V) ss = Some (out', V') \<Longrightarrow>
    \<exists>new. out' = out @ new \<and> (\<forall>c. client_view cid key (map (Pair cid) new) c =
      (if \<exists>s \<in> set ss. asks_for key s then book else c))"
proof (induction ss arbitrary: out V)
  case (Cons s ss)
  obtain out1 V1 where st: "subscribeStream books now cid (out, V) s = Some (out1, V1)"
    and rest: "foldM (subscribeStream books now cid) (out1, V1) ss = Some (out', V')"
    using Cons.prems by (auto split: Option.bind_splits)
  obtain new where new: "out' = out1 @ new" "\<And>c. client_view cid key (map (Pair cid) new) c =
      (if \<exists>s \<in> set ss. asks_for key s then book else c)"
    using Cons.IH [OF rest] by blast
  have "\<exists>n1. out1 = out @ n1 \<and> (\<forall>c. client_view cid key (map (Pair cid) n1) c =
      (if asks_for key s then book else c))"
  proof (cases "parseStream s")
    case None
    then show ?thesis using st by (intro exI [of _ "[Error (''bad stream: '' @ s)]"]) (simp add: subscribeStream_def asks_for_def)
  next
    case (Some p)
    obtain e y where p: "p = (e, y)" by (cases p)
    obtain sn where k: "subscribeKey books cid (streamKey e y) V = Some (sn, V1)"
      "out1 = (case sn of None \<Rightarrow> out | Some (s, seq) \<Rightarrow> out @ [Snapshot e y now (bookLevelsToJson (snap_bids s))
                         (bookLevelsToJson (snap_asks s)) (srvOfiDepth V1) seq])"
      using st by (auto simp: subscribeStream_def Some p split: Option.bind_splits option.splits)
    show ?thesis
    proof (cases "streamKey e y = key")
      case True
      then have "sn = Some (snap, seqMap V key)" using k(1) snap key by (auto simp: subscribeKey_def Let_def)
      then have o: "out1 = out @ [Snapshot e y now (bookLevelsToJson (snap_bids snap)) (bookLevelsToJson (snap_asks snap)) (srvOfiDepth V1) (seqMap V key)]"
        using k(2) by simp
      have "(\<lambda>side. read_levels (if side then bookLevelsToJson (snap_bids snap) else bookLevelsToJson (snap_asks snap)) (\<lambda>_. 0)) = book"
        using exact [of True] exact [of False] by (auto simp: fun_eq_iff)
      then show ?thesis using True by (intro exI) (auto simp: o Some p asks_for_def)
    next
      case False
      then show ?thesis using k(2) by (cases sn) (auto simp: Some p asks_for_def)
    qed
  qed
  then obtain n1 where n1: "out1 = out @ n1" "\<And>c. client_view cid key (map (Pair cid) n1) c =
      (if asks_for key s then book else c)" by blast
  have "out' = out @ (n1 @ new)" using n1(1) new(1) by simp
  moreover have "client_view cid key (map (Pair cid) (n1 @ new)) c =
      (if \<exists>s' \<in> set (s # ss). asks_for key s' then book else c)" for c
    by (auto simp: n1(2) new(2))
  ultimately show ?case by blast
qed simp

text \<open>A request of an open connection subscribes it to the streams it names.\<close>

definition present :: "string \<Rightarrow> server \<Rightarrow> bool" where
  "present cid V \<longleftrightarrow> (\<exists>c. map_of (clients V) cid = Some c \<and> hasWs c)"

lemma subscribeKey_done:
  assumes "subscribeKey books cid k V = Some (snap, V')" "present cid V"
  shows "present cid V'" "subscribed cid k V'" "subscribed cid key V \<Longrightarrow> subscribed cid key V'"
proof -
  obtain c where c: "map_of (clients V) cid = Some c" "hasWs c" using assms(2) by (auto simp: present_def)
  have "V' = V\<lparr>clients := AList.update cid (c\<lparr>streams := insert k (streams c)\<rparr>) (clients V)\<rparr>"
    using assms(1) c(1) by (auto simp: subscribeKey_def Let_def split: Option.bind_splits)
  then show "present cid V'" "subscribed cid k V'" "subscribed cid key V \<Longrightarrow> subscribed cid key V'"
    using c by (auto simp: present_def subscribed_def update_conv')
qed

lemma subscribe_done:
  "foldM (subscribeStream books now cid) (out, V) ss = Some (out', V') \<Longrightarrow> present cid V \<Longrightarrow>
     present cid V' \<and> (subscribed cid key V \<or> (\<exists>s \<in> set ss. asks_for key s) \<longrightarrow> subscribed cid key V')"
proof (induction ss arbitrary: out V)
  case (Cons s ss)
  obtain out1 V1 where st: "subscribeStream books now cid (out, V) s = Some (out1, V1)"
    and rest: "foldM (subscribeStream books now cid) (out1, V1) ss = Some (out', V')"
    using Cons.prems(1) by (auto split: Option.bind_splits)
  have "present cid V1 \<and> (subscribed cid key V \<or> asks_for key s \<longrightarrow> subscribed cid key V1)"
  proof (cases "parseStream s")
    case None
    then show ?thesis using st Cons.prems(2) by (simp add: subscribeStream_def asks_for_def)
  next
    case (Some p)
    obtain e y where p: "p = (e, y)" by (cases p)
    obtain sn where "subscribeKey books cid (streamKey e y) V = Some (sn, V1)"
      using st by (auto simp: subscribeStream_def Some p split: Option.bind_splits option.splits)
    from subscribeKey_done [OF this Cons.prems(2)] show ?thesis by (auto simp: asks_for_def Some p)
  qed
  then show ?case using Cons.IH [OF rest] by auto
qed simp

section \<open>Callbacks under way\<close>

abbreviation levelsOf :: "bool \<Rightarrow> orderbook \<Rightarrow> int \<Rightarrow> int" where
  "levelsOf side b \<equiv> qty_at (sideLadder side b)"

definition imbalance :: "orderbook \<Rightarrow> int" where
  "imbalance b = view_sum (ofiBids b) - view_sum (ofiAsks b)"

definition deltas_for :: "string \<Rightarrow> callback_call list \<Rightarrow> level_delta list" where
  "deltas_for s cs = concat (map (\<lambda>(x, ds, ts). if x = s then ds else []) cs)"

definition genuine :: "bool \<Rightarrow> level_delta list \<Rightarrow> level_delta list" where
  "genuine side ds = filter (\<lambda>d. d_kind d = Genuine \<and> d_isBid d = side) ds"

definition readable_deltas :: "level_delta list \<Rightarrow> bool" where
  "readable_deltas ds \<longleftrightarrow> (\<forall>d \<in> set ds. d_kind d = Genuine \<longrightarrow> in_ll (d_price d) \<and> in_ll (d_newQty d))"

lemma deltas_for_simps [simp]:
  "deltas_for s [] = []" "deltas_for s ((x, ds, ts) # cs) = (if x = s then ds @ deltas_for s cs else deltas_for s cs)"
  "deltas_for s (cs @ cs') = deltas_for s cs @ deltas_for s cs'"
  by (simp_all add: deltas_for_def)

lemma deltas_for_elsewhere: "elsewhere s cs \<Longrightarrow> deltas_for s cs = []"
  by (induction cs) (auto simp: elsewhere_def)

lemma genuine_append [simp]: "genuine side (ds @ ds') = genuine side ds @ genuine side ds'"
  by (simp add: genuine_def)

lemma genuine_Nil [simp]: "genuine side [] = []"
  by (simp add: genuine_def)

lemma replay_Nil [simp]: "replay m [] = m"
  by (simp add: replay_def)

lemma readable_deltas_simps [simp]: "readable_deltas []" "readable_deltas (ds @ ds') \<longleftrightarrow> readable_deltas ds \<and> readable_deltas ds'"
  by (auto simp: readable_deltas_def)

text \<open>Calls that carry a book from one state to the next.\<close>

definition carries :: "string \<Rightarrow> callback_call list \<Rightarrow> orderbook \<Rightarrow> orderbook \<Rightarrow> bool" where
  "carries s cs b b' \<longleftrightarrow> readable_deltas (deltas_for s cs) \<and> exact_ofi (deltas_for s cs) = imbalance b' - imbalance b \<and>
     (\<forall>side. replay (levelsOf side b) (genuine side (deltas_for s cs)) = levelsOf side b')"

text \<open>
  A copy is in step with the book when the calls that are due take it there; the book
  itself has them already, so that they change nothing on it.
\<close>

definition settled :: "string \<Rightarrow> orderbook \<Rightarrow> callback_call list \<Rightarrow> bool" where
  "settled s b due \<longleftrightarrow> readable_deltas (deltas_for s due) \<and> (\<forall>side. replay (levelsOf side b) (genuine side (deltas_for s due)) = levelsOf side b)"

definition in_step :: "string \<Rightarrow> orderbook \<Rightarrow> callback_call list \<Rightarrow> (bool \<Rightarrow> int \<Rightarrow> int) \<Rightarrow> bool" where
  "in_step s b due c \<longleftrightarrow> settled s b due \<and> (\<forall>side. replay (c side) (genuine side (deltas_for s due)) = levelsOf side b)"

lemma replay_drop:
  assumes "replay (replay m ds) ds' = m"
  shows "replay m ds' = m"
proof
  fix p
  have "replay m ds' p = (if p \<in> d_price ` set ds' then replay (replay m ds) ds' p else m p)" by (rule replay_same)
  then show "replay m ds' p = m p" using assms by (simp split: if_splits)
qed

lemma settled_emit:
  assumes "settled s b due" "carries s cs b b'"
  shows "settled s b' (due @ cs)"
proof -
  have "replay (levelsOf side b') (genuine side (deltas_for s (due @ cs))) = levelsOf side b'" for side
  proof -
    have "levelsOf side b' = replay (levelsOf side b) (genuine side (deltas_for s (due @ cs)))"
      using assms by (simp add: settled_def carries_def)
    then show ?thesis by (metis replay_again)
  qed
  then show ?thesis using assms by (simp add: settled_def carries_def)
qed

lemma in_step_emit:
  assumes "in_step s b due c" "carries s cs b b'"
  shows "in_step s b' (due @ cs) c"
  using assms settled_emit [OF _ assms(2), of due] unfolding in_step_def by (simp add: carries_def)

lemma settled_deliver: "settled s b ((x, ds, ts) # due) \<Longrightarrow> settled s b due"
  by (auto simp: settled_def intro: replay_drop split: if_splits)

lemma in_step_deliver:
  "in_step s b ((x, ds, ts) # due) c \<Longrightarrow> in_step s b due (\<lambda>side. if x = s then replay (c side) (genuine side ds) else c side)"
  by (auto simp: in_step_def dest: settled_deliver)

lemma in_step_snapshot: "settled s b due \<Longrightarrow> in_step s b due (\<lambda>side. levelsOf side b)"
  by (simp add: in_step_def settled_def)

lemma in_step_settled: "in_step s b due c \<Longrightarrow> settled s b due"
  by (simp add: in_step_def)

text \<open>What the delivery of a call does to the copy of a client that keeps up.\<close>

lemma deliver_view:
  assumes "srv_inv V" "subscribed cid (streamKey exch s) V" "alive E cid" "bufferedAmount E cid \<le> kBackpressureLimit"
    and "broadcastUpdate E exch s ds ts ofi V = (sent, V')" "readable_deltas ds"
  shows "client_view cid (streamKey exch s) sent c = (\<lambda>side. replay (c side) (genuine side ds))"
proof -
  have rd: "read_levels (genuineLevels side ds) m = replay m (genuine side ds)" for side m
    unfolding genuine_def by (rule parse_genuine) (use assms(6) in \<open>auto simp: readable_deltas_def\<close>)
  have "client_view cid (streamKey exch s) sent c = client_view cid (streamKey exch s) (filter (update_of cid (streamKey exch s)) sent) c"
    using broadcast_updates [OF assms(5)] by (rule client_view_updates)
  also have "\<dots> = (\<lambda>side. read_levels (genuineLevels side ds) (c side))"
  proof (cases "genuineLevels True ds = [] \<and> genuineLevels False ds = []")
    case True
    then have "genuineLevels side ds = []" for side by (cases side) simp_all
    then show ?thesis using True unfolding broadcast_sent [OF assms(1-5)] by (simp add: read_levels_def)
  next
    case False
    have "(\<lambda>side. read_levels (if side then genuineLevels True ds else genuineLevels False ds) (c side)) = (\<lambda>side. read_levels (genuineLevels side ds) (c side))"
      by (auto simp: fun_eq_iff)
    then show ?thesis using False unfolding broadcast_sent [OF assms(1-5)] by (auto simp: fun_eq_iff)
  qed
  finally show ?thesis by (simp add: rd)
qed

lemma deliver_view_other:
  assumes "broadcastUpdate E exch x ds ts ofi V = (sent, V')" "streamKey exch x \<noteq> key"
  shows "client_view cid key sent c = c"
  using client_view_updates [OF broadcast_updates [OF assms(1)]] broadcast_other [OF assms] by simp

text \<open>What any request of a client does to the copy of a client that stays subscribed.\<close>

lemma request_view:
  assumes a: "client_action a" and keep: "keeps cid (E, books', a)" and step: "srv_step E books a V = Some (sent, V')"
    and snap: "getSnapshot b = Some snap" "applied snap" and key: "books key = Some b"
    and exact: "\<And>side. read_levels (bookLevelsToJson (if side then snap_bids snap else snap_asks snap)) (\<lambda>_. 0) = book side"
  shows "client_view cid key sent c = c \<or> client_view cid key sent c = book"
proof (cases a)
  case (Request i now msg)
  then obtain out where m: "onMessage E books now i msg V = Some (out, V')" "sent = map (Pair i) out"
    using step by (auto simp: srv_step_def split: Option.bind_splits)
  show ?thesis
  proof (cases "i = cid")
    case False
    then show ?thesis by (simp add: m(2) client_view_other)
  next
    case True
    have "alive E cid" using keep by (simp add: keeps_def)
    show ?thesis
    proof (cases "parseClientMessage msg")
      case None
      then show ?thesis using m \<open>alive E cid\<close> True by (auto simp: onMessage_def)
    next
      case (Some r)
      then have "op r = ''subscribe''" using keep True by (simp add: keeps_def Request)
      then have "foldM (subscribeStream books now cid) ([], V) (req_streams r) = Some (out, V')"
        using m(1) Some \<open>alive E cid\<close> True by (simp add: onMessage_def handleSubscribe_def)
      from subscribe_view [OF snap key exact this] show ?thesis by (auto simp: m(2) True)
    qed
  qed
qed (use a step in \<open>auto simp: srv_step_def client_action_def\<close>)

end
