(* ===== verification/Lob_Feeds.thy ===== *)
theory Lob_Feeds
  imports Lob_Copy
begin

text \<open>
  A feed of one symbol that a client can follow: the contract \<open>followed_feed\<close> of an adapter
  whose messages for the symbol are live, and the two adapters as instances.
\<close>

section \<open>The contract\<close>

text \<open>
  \<open>live\<close> says that the messages of a source change the book of a symbol, \<open>attends\<close> that an
  event is such a message, in sequence, or does not touch the symbol.
\<close>

locale followed_feed = exchange_adapter step enabled safe ok calls metricsOf withMetrics books
  for step :: "'s \<Rightarrow> 'e \<Rightarrow> 'o list \<Rightarrow> 's \<Rightarrow> bool" and enabled safe ok and calls :: "'o list \<Rightarrow> callback_call list"
    and metricsOf withMetrics books +
  fixes live :: "'s \<Rightarrow> string \<Rightarrow> string \<Rightarrow> orderbook \<Rightarrow> metrics \<Rightarrow> bool"
    and attends :: "string \<Rightarrow> string \<Rightarrow> 's \<Rightarrow> 'e \<Rightarrow> bool"
  assumes live_book: "live S src s b m \<Longrightarrow> books S s = Some b"
    and live_metrics: "live S src s b m \<Longrightarrow> metricsOf S s = Some m"
    and live_applied: "ok S \<Longrightarrow> live S src s b m \<Longrightarrow> snapshotApplied b"
    and live_fed: "live S src s b m \<Longrightarrow> M s = Some m' \<Longrightarrow> liveReady m' = liveReady m \<Longrightarrow> live (withMetrics M S) src s b m'"
    and attended: "live S src s b m \<Longrightarrow> attends src s S e \<Longrightarrow> step S e out S' \<Longrightarrow>
      \<exists>b' m'. live S' src s b' m' \<and> carries s (calls out) b b' \<and> ofiAccumulator m' = ofiAccumulator m"
begin

text \<open>A snapshot of the book of the symbol lists its levels.\<close>

lemma live_snapshot:
  assumes "ok S" "live S src s b m"
  obtains snap where "getSnapshot b = Some snap" "applied snap"
    "\<And>side. read_levels (bookLevelsToJson (if side then snap_bids snap else snap_asks snap)) (\<lambda>_. 0) = levelsOf side b"
proof -
  have "book_small b" using readable [OF assms(1) live_book [OF assms(2)]] .
  then have small: "ladder_small (askLadder b)" "ladder_small (bidLadder b)" by (simp_all add: book_small_sides)
  then have "getSnapshot b = Some \<lparr>applied = True, snap_asks = levels (askLadder b), snap_bids = rev (levels (bidLadder b))\<rparr>"
    using live_applied [OF assms] forEach_law by (simp add: getSnapshot_def ladder_small_def)
  then show thesis by (rule that) (use read_side [OF small(1)] read_side [OF small(2)] in \<open>simp_all add: sideLadder_def\<close>)
qed

text \<open>The delivery of a call: the feed stays live, the accumulator takes the order flow of the call.\<close>

lemma delivered:
  assumes "live S src s b m" "updateCallback E exch (x, ds, ts) (metricsOf S, V) = (sent, M, V')"
  obtains m' where "live (withMetrics M S) src s b m'"
    "\<bar>ofiAccumulator m\<bar> + traffic (deltas_for s [(x, ds, ts)]) \<le> LLONG_MAX \<Longrightarrow> ofiAccumulator m' = ofiAccumulator m + exact_ofi (deltas_for s [(x, ds, ts)])"
    "broadcastUpdate E exch x ds ts (fst (batchOfi ds)) V = (sent, V')"
proof -
  have u: "M = accumulateOfi (metricsOf S) x ds" "broadcastUpdate E exch x ds ts (fst (batchOfi ds)) V = (sent, V')"
    using assms(2) by (auto simp: updateCallback_def split_def Let_def)
  have ms: "metricsOf S s = Some m" by (rule live_metrics [OF assms(1)])
  have "\<exists>m'. M s = Some m' \<and> liveReady m' = liveReady m \<and>
    (\<bar>ofiAccumulator m\<bar> + traffic (deltas_for s [(x, ds, ts)]) \<le> LLONG_MAX \<longrightarrow> ofiAccumulator m' = ofiAccumulator m + exact_ofi (deltas_for s [(x, ds, ts)]))"
  proof (cases "x = s")
    case True
    then have "M s = Some (if snd (batchOfi ds) then m\<lparr>ofiAccumulator := checkedAdd (ofiAccumulator m) (fst (batchOfi ds))\<rparr> else m)"
      using ms by (simp add: u(1) accumulateOfi_def split_def)
    then show ?thesis using accumulated_exact [of "ofiAccumulator m" ds] True by (auto split: if_splits)
  next
    case False
    then have "M s = Some m" using ms by (auto simp: u(1) accumulateOfi_def split_def Let_def split: option.split)
    then show ?thesis using False by simp
  qed
  then show thesis using live_fed [OF assms(1)] u(2) that by blast
qed

end

section \<open>Binance\<close>

text \<open>A message of the stream that continues the book, in the ranges of the clocks.\<close>

definition bin_live_message :: "string \<Rightarrow> string \<Rightarrow> bin_sys \<Rightarrow> bin_event \<Rightarrow> bool" where
  "bin_live_message stream s S ev \<longleftrightarrow> (\<exists>t e msg asks bids nlj b. ev = Ws t (WsMessage (Some (streamMessage stream e msg)) nlj) \<and>
     bin_books (adp S) s = Some b \<and> continues b msg asks bids \<and> in_ll e \<and> in_ll (wall t - e))"

definition bin_attends :: "string \<Rightarrow> string \<Rightarrow> bin_sys \<Rightarrow> bin_event \<Rightarrow> bool" where
  "bin_attends stream s S ev \<longleftrightarrow> bin_live_message stream s S ev \<or> passes_by s S ev"

text \<open>The live message in the adapter alone.\<close>

lemma bin_live_step:
  assumes feed: "live_feed (adp S) stream s b m" and msg: "continues b msg asks bids" and e: "in_ll e" "in_ll (wall t - e)"
    and step: "bin_step n S (Ws t (WsMessage (Some (streamMessage stream e msg)) nlj)) out S'"
  shows "\<exists>b' m'. live_feed (adp S') stream s b' m' \<and> carries s (bin_calls out) b b' \<and> ofiAccumulator m' = ofiAccumulator m"
proof -
  let ?doc = "streamMessage stream e msg"
  define A where "A = (adp S)\<lparr>lastActivity := steady t\<rparr>"
  obtain ds b' where u: "applyUpdateCore b (m_U msg) (m_u msg) asks bids Genuine = Some (\<lparr>success = True, deltas = ds\<rparr>, b')"
    "exact_ofi ds = (view_sum (ofiBids b') - view_sum (ofiBids b)) - (view_sum (ofiAsks b') - view_sum (ofiAsks b))"
    "\<And>side. replay (levelsOf side b) (filter (\<lambda>d. d_kind d = Genuine \<and> d_isBid d = side) ds) = levelsOf side b'"
    "\<And>d. d \<in> set ds \<Longrightarrow> d_kind d = Genuine \<Longrightarrow> in_ll (d_price d) \<and> in_ll (d_newQty d)"
    by (rule live_update [OF msg]) blast
  define m1 where "m1 = m\<lparr>lastEventLagMs := wall t - e\<rparr>"
  define A' where "A' = putMetrics s (recordUpdate t m1) (putBook s b' (putMetrics s m1 A))"
  have h: "handleWsMessage t (WsMessage (Some ?doc) nlj) (adp S) = Some ([(s, ds, e)], A')"
    using live_handled [OF feed msg e u(1), of nlj] by (simp add: A'_def m1_def A_def)
  have S': "adp S' = A'" "bin_calls out = [(s, ds, e)]"
    using step h by (auto elim!: bin_stepE simp: bin_calls_def List.map_filter_def)
  have "live_feed A' stream s b' (recordUpdate t m1)" using feed by (simp add: live_feed_def A'_def A_def m1_def)
  moreover have "carries s [(s, ds, e)] b b'" using u(2-4) by (simp add: carries_def readable_deltas_def imbalance_def genuine_def)
  moreover have "ofiAccumulator (recordUpdate t m1) = ofiAccumulator m" by (simp add: m1_def)
  ultimately show ?thesis unfolding S' by blast
qed

lemma bin_attended:
  assumes "live_feed (adp S) stream s b m" "bin_attends stream s S ev" "bin_step n S ev out S'"
  shows "\<exists>b' m'. live_feed (adp S') stream s b' m' \<and> carries s (bin_calls out) b b' \<and> ofiAccumulator m' = ofiAccumulator m"
proof (cases "passes_by s S ev")
  case True
  note a = bin_step_apart [OF assms(3) True]
  have "live_feed (adp S') stream s b m" using a assms(1) by (simp add: live_feed_def apart_def)
  moreover have "carries s (bin_calls out) b b" using a by (simp add: carries_def deltas_for_elsewhere)
  ultimately show ?thesis by blast
next
  case False
  then obtain t e msg asks bids nlj b0 where ev: "ev = Ws t (WsMessage (Some (streamMessage stream e msg)) nlj)"
    and b0: "bin_books (adp S) s = Some b0" "continues b0 msg asks bids" and e: "in_ll e" "in_ll (wall t - e)"
    using assms(2) by (auto simp: bin_attends_def bin_live_message_def)
  have "b0 = b" using b0(1) assms(1) by (simp add: live_feed_def)
  then show ?thesis using bin_live_step [OF assms(1) _ e assms(3) [unfolded ev]] b0(2) by blast
qed

interpretation binance_live: followed_feed "bin_step n" enabled event_safe sys_ok bin_calls
  "\<lambda>B. bin_metrics (adp B)" bin_withMetrics "\<lambda>B. bin_books (adp B)" "\<lambda>B. live_feed (adp B)" bin_attends for n
proof
  fix S :: bin_sys and src s b m M m' e out S'
  show "live_feed (adp S) src s b m \<Longrightarrow> bin_books (adp S) s = Some b" "live_feed (adp S) src s b m \<Longrightarrow> bin_metrics (adp S) s = Some m"
    by (simp_all add: live_feed_def)
  show "sys_ok S \<Longrightarrow> live_feed (adp S) src s b m \<Longrightarrow> snapshotApplied b"
    using bin_okD(9) by (auto simp: sys_ok_def live_feed_def)
  show "live_feed (adp S) src s b m \<Longrightarrow> M s = Some m' \<Longrightarrow> liveReady m' = liveReady m \<Longrightarrow> live_feed (adp (bin_withMetrics M S)) src s b m'"
    by (simp add: live_feed_def bin_withMetrics_def)
  show "live_feed (adp S) src s b m \<Longrightarrow> bin_attends src s S e \<Longrightarrow> bin_step n S e out S' \<Longrightarrow>
      \<exists>b' m'. live_feed (adp S') src s b' m' \<and> carries s (bin_calls out) b b' \<and> ofiAccumulator m' = ofiAccumulator m"
    by (rule bin_attended)
qed

section \<open>Kraken\<close>

text \<open>The symbol an element of the data is for, and events that leave a symbol alone.\<close>

definition item_for :: "kraken \<Rightarrow> json \<Rightarrow> string option" where
  "item_for K item = (case bind_res (const_at item ''symbol'') get_string of
       Some (Inr krakenSym) \<Rightarrow> toCanonical (kr_normalizer K) ''kraken'' krakenSym
     | _ \<Rightarrow> None)"

definition kr_apart :: "string \<Rightarrow> kraken \<Rightarrow> kraken \<Rightarrow> bool" where
  "kr_apart s K K' \<longleftrightarrow> kr_books K' s = kr_books K s \<and> kr_metrics K' s = kr_metrics K s \<and>
     kr_normalizer K' = kr_normalizer K \<and> kr_callback K' = kr_callback K"

definition kr_passes_by :: "string \<Rightarrow> kr_sys \<Rightarrow> kr_event \<Rightarrow> bool" where
  "kr_passes_by s S e \<longleftrightarrow> (case e of
       KrWs t WsOpen \<Rightarrow> \<not> kr_connected (kr S)
     | KrWs t (WsMessage sj (Some j)) \<Rightarrow>
         (case bookData j of None \<Rightarrow> True | Some (ty, xs) \<Rightarrow> list_all (\<lambda>item. item_for (kr S) item \<noteq> Some s) xs)
     | _ \<Rightarrow> True)"

lemma kr_apart_refl [simp]: "kr_apart s K K"
  by (simp add: kr_apart_def)

lemma kr_apart_trans: "kr_apart s K K' \<Longrightarrow> kr_apart s K' K'' \<Longrightarrow> kr_apart s K K''"
  by (simp add: kr_apart_def)

lemma item_for_normalizer:
  assumes "kr_normalizer K' = kr_normalizer K"
  shows "item_for K' item = item_for K item"
  unfolding item_for_def assms ..

lemma bind_res_InrD:
  assumes "bind_res m f = Some (Inr y)"
  obtains x where "m = Some (Inr x)" "f x = Some (Inr y)"
proof (cases m)
  case (Some r)
  then show thesis using assms that by (cases r) simp_all
qed (use assms in simp)

lemma snapshot_apart:
  assumes "item_for K item \<noteq> Some s" "handleBookSnapshot t item K = Some (Inr K')"
  shows "kr_apart s K K'"
proof -
  obtain ks where ks: "bind_res (const_at item ''symbol'') get_string = Some (Inr ks)"
    using assms(2) unfolding handleBookSnapshot_def by (rule bind_res_InrD)
  show ?thesis
  proof (cases "toCanonical (kr_normalizer K) ''kraken'' ks")
    case None
    then show ?thesis using assms(2) ks by (simp add: handleBookSnapshot_def ret_def)
  next
    case (Some c)
    then have c: "c \<noteq> s" using assms(1) ks by (simp add: item_for_def)
    show ?thesis
    proof (cases "kr_books K c")
      case None
      then show ?thesis using assms(2) ks Some by (simp add: handleBookSnapshot_def ret_def)
    next
      case b: (Some b)
      show ?thesis using assms(2) c unfolding handleBookSnapshot_def
        by (auto elim!: bind_res_InrD simp: ks Some b ret_def kr_apart_def split: option.splits)
    qed
  qed
qed

lemma update_apart:
  assumes "item_for K item \<noteq> Some s" "handleBookUpdate t item K = Some (Inr (calls, K'))"
  shows "kr_apart s K K' \<and> elsewhere s calls"
proof -
  obtain ks where ks: "bind_res (const_at item ''symbol'') get_string = Some (Inr ks)"
    using assms(2) unfolding handleBookUpdate_def by (rule bind_res_InrD)
  show ?thesis
  proof (cases "toCanonical (kr_normalizer K) ''kraken'' ks")
    case None
    then show ?thesis using assms(2) ks by (simp add: handleBookUpdate_def ret_def)
  next
    case (Some c)
    then have c: "c \<noteq> s" using assms(1) ks by (simp add: item_for_def)
    show ?thesis
    proof (cases "(\<exists>b m. kr_books K c = Some b \<and> kr_metrics K c = Some m \<and> snapshotApplied b)")
      case False
      then have "calls = []" "K' = K" using assms(2) ks Some by (auto simp: handleBookUpdate_def ret_def split: option.splits if_splits)
      then show ?thesis by simp
    next
      case True
      then obtain b m where bm: "kr_books K c = Some b" "kr_metrics K c = Some m" "snapshotApplied b" by blast
      show ?thesis using assms(2) c unfolding handleBookUpdate_def
        by (auto elim!: bind_res_InrD simp: ks Some bm ret_def kr_apart_def elsewhere_def split: prod.splits)
    qed
  qed
qed

lemma items_apart:
  "list_all (\<lambda>item. item_for K item \<noteq> Some s) xs \<Longrightarrow> handleItems t ty xs K = Some (calls, K') \<Longrightarrow> kr_apart s K K' \<and> elsewhere s calls"
proof (induction xs arbitrary: K calls)
  case (Cons item xs)
  have it: "item_for K item \<noteq> Some s" using Cons.prems(1) by simp
  obtain r where r: "handleItem t ty item K = Some r" using Cons.prems(2) by (cases "handleItem t ty item K") simp_all
  show ?case
  proof (cases r)
    case (Inl x)
    then show ?thesis using Cons.prems(2) r by simp
  next
    case (Inr p)
    obtain c1 K1 where p: "p = (c1, K1)" by (cases p)
    have one: "kr_apart s K K1 \<and> elsewhere s c1"
    proof (cases "ty = ''snapshot''")
      case True
      then have "bind_res (handleBookSnapshot t item K) (\<lambda>K'. ret ([], K')) = Some (Inr (c1, K1))" using r by (simp add: handleItem_def Inr p)
      then obtain K2 where "handleBookSnapshot t item K = Some (Inr K2)" "c1 = []" "K1 = K2"
        by (auto elim!: bind_res_InrD simp: ret_def)
      then show ?thesis using snapshot_apart [OF it] by simp
    next
      case False
      then show ?thesis using r update_apart [OF it, of t c1 K1] by (auto simp: handleItem_def Inr p ret_def split: if_splits)
    qed
    obtain c2 where c2: "handleItems t ty xs K1 = Some (c2, K')" "calls = c1 @ c2"
      using Cons.prems(2) r by (auto simp: Inr p split: Option.bind_splits)
    have "kr_normalizer K1 = kr_normalizer K" using one by (simp add: kr_apart_def)
    then have "list_all (\<lambda>item. item_for K1 item \<noteq> Some s) xs" using Cons.prems(1) item_for_normalizer [of K1 K] by simp
    from Cons.IH [OF this c2(1)] show ?thesis using one kr_apart_trans by (auto simp: c2(2) elsewhere_def)
  qed
qed simp

lemma ack_apart:
  assumes "handleSubscribeAck j K = Some (Inr K')"
  shows "kr_apart s K K'"
  using assms unfolding handleSubscribeAck_def
  by (auto elim!: bind_res_InrD simp: ret_def kr_apart_def split: if_splits option.splits)

lemma kr_calls_callbacks: "kr_calls (map (\<lambda>(s, ds, ts). KrCallback s ds ts) calls) = calls"
  by (induction calls) (auto simp: kr_calls_def List.map_filter_def)

lemma kr_message_apart:
  assumes "\<And>j ty xs. msg = Some j \<Longrightarrow> bookData j = Some (ty, xs) \<Longrightarrow> list_all (\<lambda>item. item_for K item \<noteq> Some s) xs"
    and "kr_message t msg K = Some (calls, K')"
  shows "kr_apart s K K' \<and> elsewhere s calls"
proof (cases msg)
  case None
  then show ?thesis using assms(2) by (simp add: kr_message_def)
next
  case (Some j)
  show ?thesis
  proof (cases "isSubscribeAck j")
    case True
    then show ?thesis using assms(2) ack_apart by (auto simp: kr_message_def Some split: option.splits sum.splits)
  next
    case False
    show ?thesis
    proof (cases "bookData j")
      case None
      then show ?thesis using assms(2) False by (simp add: kr_message_def Some)
    next
      case d: (Some p)
      obtain ty xs where p: "p = (ty, xs)" by (cases p)
      have "handleItems t ty xs K = Some (calls, K')" using assms(2) False d by (simp add: kr_message_def Some p)
      then show ?thesis using items_apart [OF assms(1) [OF Some]] d p by simp
    qed
  qed
qed

lemma kr_apart_activity [simp]: "kr_apart s (K\<lparr>kr_activity := x\<rparr>) K' = kr_apart s K K'" "kr_apart s K (K'\<lparr>kr_activity := x\<rparr>) = kr_apart s K K'"
  by (simp_all add: kr_apart_def)

lemma kr_step_apart:
  assumes "kr_step S e out S'" "kr_passes_by s S e"
  shows "kr_apart s (kr S) (kr S') \<and> elsewhere s (kr_calls out)"
  using assms(1)
proof cases
  case (kr_ws t ev K)
  show ?thesis
  proof (cases ev)
    case WsOpen
    then show ?thesis using kr_ws assms(2)
      by (auto simp: kr_passes_by_def kr_handleWsMessage_def kr_open_def kr_apart_def kr_calls_def List.map_filter_def)
  next
    case (WsMessage sj msg)
    then obtain calls where c: "kr_message t msg ((kr S)\<lparr>kr_activity := steady t\<rparr>) = Some (calls, K)"
      "out = map (\<lambda>(s, ds, ts). KrCallback s ds ts) calls"
      using kr_ws by (auto simp: kr_handleWsMessage_def split: Option.bind_splits)
    have "list_all (\<lambda>item. item_for ((kr S)\<lparr>kr_activity := steady t\<rparr>) item \<noteq> Some s) xs"
      if "msg = Some j" "bookData j = Some (ty, xs)" for j ty xs
      using assms(2) that kr_ws(1) item_for_normalizer [of "(kr S)\<lparr>kr_activity := steady t\<rparr>" "kr S"]
      by (simp add: kr_passes_by_def WsMessage)
    from kr_message_apart [OF this c(1)] show ?thesis using kr_ws by (simp add: c(2) kr_calls_callbacks)
  qed (use kr_ws in \<open>auto simp: kr_handleWsMessage_def kr_calls_def List.map_filter_def\<close>)
qed (auto simp: kr_wake_def kr_calls_def List.map_filter_def split: kr_phase.splits if_splits)

text \<open>A message with one element for the symbol.\<close>

definition kr_live_message :: "string \<Rightarrow> string \<Rightarrow> kr_sys \<Rightarrow> kr_event \<Rightarrow> bool" where
  "kr_live_message krakenSym s S ev \<longleftrightarrow> (\<exists>t sj bids asks stamp ms b.
     ev = KrWs t (WsMessage sj (Some (krakenMessage ''update'' (krakenItem krakenSym bids asks stamp)))) \<and>
     kr_books (kr S) s = Some b \<and> kr_continues b asks bids \<and> isoTimestampToMs stamp = Some ms \<and> 0 < ms \<and> in_ll (wall t - ms))"

definition kr_attends :: "string \<Rightarrow> string \<Rightarrow> kr_sys \<Rightarrow> kr_event \<Rightarrow> bool" where
  "kr_attends krakenSym s S ev \<longleftrightarrow> kr_live_message krakenSym s S ev \<or> kr_passes_by s S ev"

lemma kr_attended:
  assumes "kr_live_feed (kr S) krakenSym s b m" "kr_attends krakenSym s S ev" "kr_step S ev out S'"
  shows "\<exists>b' m'. kr_live_feed (kr S') krakenSym s b' m' \<and> carries s (kr_calls out) b b' \<and> ofiAccumulator m' = ofiAccumulator m"
proof (cases "kr_passes_by s S ev")
  case True
  note a = kr_step_apart [OF assms(3) True]
  have "kr_live_feed (kr S') krakenSym s b m" using a assms(1) by (simp add: kr_live_feed_def kr_apart_def)
  moreover have "carries s (kr_calls out) b b" using a by (simp add: carries_def deltas_for_elsewhere)
  ultimately show ?thesis by blast
next
  case False
  then obtain t sj bids asks stamp ms b0 where
    ev: "ev = KrWs t (WsMessage sj (Some (krakenMessage ''update'' (krakenItem krakenSym bids asks stamp))))"
    and b0: "kr_books (kr S) s = Some b0" "kr_continues b0 asks bids" and e: "isoTimestampToMs stamp = Some ms" "0 < ms" "in_ll (wall t - ms)"
    using assms(2) by (auto simp: kr_attends_def kr_live_message_def)
  have f: "toCanonical (kr_normalizer (kr S)) ''kraken'' krakenSym = Some s" "kr_books (kr S) s = Some b" "kr_metrics (kr S) s = Some m"
    "snapshotApplied b" "kr_callback (kr S)"
    using assms(1) by (simp_all add: kr_live_feed_def)
  have c: "kr_continues b asks bids" using b0 f(2) by simp
  obtain d1 b1 ds b' where u: "foldM (applyLevelChange Genuine True) ([], b) bids = Some (d1, b1)"
    "foldM (applyLevelChange Genuine False) (d1, b1) asks = Some (ds, b')"
    "exact_ofi ds = (view_sum (ofiBids b') - view_sum (ofiBids b)) - (view_sum (ofiAsks b') - view_sum (ofiAsks b))"
    "\<And>side. replay (levelsOf side b) (filter (\<lambda>d. d_kind d = Genuine \<and> d_isBid d = side) ds) = levelsOf side b'"
    "\<And>d. d \<in> set ds \<Longrightarrow> d_kind d = Genuine \<Longrightarrow> in_ll (d_price d) \<and> in_ll (d_newQty d)"
    and same: "snapshotApplied b' = snapshotApplied b"
    by (rule kr_update [OF c]) blast
  have ls: "\<forall>l \<in> set bids \<union> set asks. exact_level l" using c by (simp add: kr_continues_def)
  note h = kr_update_handled [OF ls f(1-4) e u(1,2) f(5), of sj]
  have S': "kr S' = (kr S)\<lparr>kr_activity := steady t, kr_books := (kr_books (kr S))(s \<mapsto> b'),
      kr_metrics := (kr_metrics (kr S))(s \<mapsto> recordUpdate t (m\<lparr>lastEventLagMs := wall t - ms\<rparr>))\<rparr>" "kr_calls out = [(s, ds, ms)]"
    using assms(3) h unfolding ev by (auto elim!: kr_stepE simp: kr_calls_def List.map_filter_def)
  have "kr_live_feed (kr S') krakenSym s b' (recordUpdate t (m\<lparr>lastEventLagMs := wall t - ms\<rparr>))"
    using f same by (simp add: kr_live_feed_def S'(1))
  moreover have "carries s [(s, ds, ms)] b b'" using u(3-5) by (simp add: carries_def readable_deltas_def imbalance_def genuine_def)
  moreover have "ofiAccumulator (recordUpdate t (m\<lparr>lastEventLagMs := wall t - ms\<rparr>)) = ofiAccumulator m" by simp
  ultimately show ?thesis unfolding S'(2) by blast
qed

interpretation kraken_live: followed_feed kr_step kr_enabled kr_event_safe "\<lambda>K. kr_ok (kr K)" kr_calls
  "\<lambda>K. kr_metrics (kr K)" kr_withMetrics "\<lambda>K. kr_books (kr K)" "\<lambda>K. kr_live_feed (kr K)" kr_attends
proof
  fix S :: kr_sys and src s b m M m' e out S'
  show "kr_live_feed (kr S) src s b m \<Longrightarrow> kr_books (kr S) s = Some b" "kr_live_feed (kr S) src s b m \<Longrightarrow> kr_metrics (kr S) s = Some m"
    "kr_live_feed (kr S) src s b m \<Longrightarrow> snapshotApplied b"
    by (simp_all add: kr_live_feed_def)
  show "kr_live_feed (kr S) src s b m \<Longrightarrow> M s = Some m' \<Longrightarrow> liveReady m' = liveReady m \<Longrightarrow> kr_live_feed (kr (kr_withMetrics M S)) src s b m'"
    by (simp add: kr_live_feed_def kr_withMetrics_def)
  show "kr_live_feed (kr S) src s b m \<Longrightarrow> kr_attends src s S e \<Longrightarrow> kr_step S e out S' \<Longrightarrow>
      \<exists>b' m'. kr_live_feed (kr S') src s b' m' \<and> carries s (kr_calls out) b b' \<and> ofiAccumulator m' = ofiAccumulator m"
    by (rule kr_attended)
qed

end
