(* ===== verification/Lob_Fine.thy ===== *)
theory Lob_Fine
  imports Lob_Feeds
begin

text \<open>
  The process at a finer grain: the callback of a message runs on the thread of its socket
  after the adapter has released the locks of the book and the metrics, so that clients and other
  threads may come between a book's update and its broadcast. What a handler has called
  and \<open>main\<close> has not worked off is due; the steps interleave handlers, callbacks and clients.
\<close>

section \<open>The process with callbacks under way\<close>

record fine =
  proc :: lob
  bin_due :: "callback_call list"
  kr_due :: "callback_call list"

datatype fine_event =
    Handle lob_event
  | Deliver string

text \<open>A socket thread takes the next message when its callbacks have returned; the other threads do not wait.\<close>

definition bin_socket :: "bin_event \<Rightarrow> bool" where
  "bin_socket e \<longleftrightarrow> (case e of Ws t ev \<Rightarrow> True | _ \<Rightarrow> False)"

definition kr_socket :: "kr_event \<Rightarrow> bool" where
  "kr_socket e \<longleftrightarrow> (case e of KrWs t ev \<Rightarrow> True | _ \<Rightarrow> False)"

inductive fine_step ::
  "int \<Rightarrow> env \<Rightarrow> fine \<Rightarrow> fine_event \<Rightarrow> (string \<times> server_msg) list \<Rightarrow> (string \<times> callback_call) list \<Rightarrow> fine \<Rightarrow> bool" for maxRetries E where
  fine_binance: "bin_step maxRetries (lob_binance (proc F)) e out B \<Longrightarrow> (bin_socket e \<Longrightarrow> bin_due F = []) \<Longrightarrow>
    fine_step maxRetries E F (Handle (FromBinance e)) [] (map (Pair ''binance'') (bin_calls out))
      (F\<lparr>proc := (proc F)\<lparr>lob_binance := B\<rparr>, bin_due := bin_due F @ bin_calls out\<rparr>)"
| fine_kraken: "kr_step (lob_kraken (proc F)) e out K \<Longrightarrow> (kr_socket e \<Longrightarrow> kr_due F = []) \<Longrightarrow>
    fine_step maxRetries E F (Handle (FromKraken e)) [] (map (Pair ''kraken'') (kr_calls out))
      (F\<lparr>proc := (proc F)\<lparr>lob_kraken := K\<rparr>, kr_due := kr_due F @ kr_calls out\<rparr>)"
| fine_deliver_binance: "bin_due F = c # cs \<Longrightarrow>
    updateCallback E ''binance'' c (bin_metrics (adp (lob_binance (proc F))), lob_server (proc F)) = (sent, M, V) \<Longrightarrow>
    fine_step maxRetries E F (Deliver ''binance'') sent []
      (F\<lparr>proc := (proc F)\<lparr>lob_binance := bin_withMetrics M (lob_binance (proc F)), lob_server := V\<rparr>, bin_due := cs\<rparr>)"
| fine_deliver_kraken: "kr_due F = c # cs \<Longrightarrow>
    updateCallback E ''kraken'' c (kr_metrics (kr (lob_kraken (proc F))), lob_server (proc F)) = (sent, M, V) \<Longrightarrow>
    fine_step maxRetries E F (Deliver ''kraken'') sent []
      (F\<lparr>proc := (proc F)\<lparr>lob_kraken := kr_withMetrics M (lob_kraken (proc F)), lob_server := V\<rparr>, kr_due := cs\<rparr>)"
| fine_client: "client_action a \<Longrightarrow> srv_step E (liveBooks (proc F)) a (lob_server (proc F)) = Some (sent, V) \<Longrightarrow>
    fine_step maxRetries E F (Handle (FromClient a)) sent [] (F\<lparr>proc := (proc F)\<lparr>lob_server := V\<rparr>\<rparr>)"

inductive fine_run ::
  "int \<Rightarrow> fine \<Rightarrow> (env \<times> fine_event) list \<Rightarrow> (string \<times> server_msg) list \<Rightarrow> (string \<times> callback_call) list \<Rightarrow> fine \<Rightarrow> bool" for maxRetries where
  fine_nothing: "fine_run maxRetries F [] [] [] F"
| fine_more: "fine_step maxRetries E F e sent made F1 \<Longrightarrow> fine_run maxRetries F1 es rest later F2 \<Longrightarrow>
    fine_run maxRetries F ((E, e) # es) (sent @ rest) (made @ later) F2"

inductive_cases fine_stepE: "fine_step maxRetries E F e sent made F'"

definition idle :: "lob \<Rightarrow> fine" where
  "idle L = \<lparr>proc = L, bin_due = [], kr_due = []\<rparr>"

section \<open>The steps of the whole process are runs\<close>

lemma fine_run_append:
  "fine_run n F es sent made F1 \<Longrightarrow> fine_run n F1 es' sent' made' F2 \<Longrightarrow> fine_run n F (es @ es') (sent @ sent') (made @ made') F2"
  by (induction rule: fine_run.induct) (auto intro: fine_run.fine_more)

lemma deliver_binance_all:
  "runCallbacks E ''binance'' cs (bin_metrics (adp (lob_binance L)), lob_server L) = (sent, M, V) \<Longrightarrow>
     fine_run n (F\<lparr>proc := L, bin_due := cs\<rparr>) (map (\<lambda>_. (E, Deliver ''binance'')) cs) sent []
       (F\<lparr>proc := L\<lparr>lob_binance := bin_withMetrics M (lob_binance L), lob_server := V\<rparr>, bin_due := []\<rparr>)"
proof (induction cs arbitrary: L sent)
  case Nil
  then show ?case by (auto simp: bin_withMetrics_def intro: fine_run.fine_nothing)
next
  case (Cons c cs)
  obtain s1 M1 V1 rest where u: "updateCallback E ''binance'' c (bin_metrics (adp (lob_binance L)), lob_server L) = (s1, M1, V1)"
    and r: "runCallbacks E ''binance'' cs (M1, V1) = (rest, M, V)" "sent = s1 @ rest"
    using Cons.prems by (auto split: prod.splits)
  let ?L = "L\<lparr>lob_binance := bin_withMetrics M1 (lob_binance L), lob_server := V1\<rparr>"
  have "fine_step n E (F\<lparr>proc := L, bin_due := c # cs\<rparr>) (Deliver ''binance'') s1 [] (F\<lparr>proc := ?L, bin_due := cs\<rparr>)"
    using fine_step.fine_deliver_binance [of "F\<lparr>proc := L, bin_due := c # cs\<rparr>" c cs E s1 M1 V1 n] u by simp
  from fine_run.fine_more [OF this Cons.IH [of ?L rest]] r show ?case by (simp add: bin_withMetrics_def)
qed

lemma deliver_kraken_all:
  "runCallbacks E ''kraken'' cs (kr_metrics (kr (lob_kraken L)), lob_server L) = (sent, M, V) \<Longrightarrow>
     fine_run n (F\<lparr>proc := L, kr_due := cs\<rparr>) (map (\<lambda>_. (E, Deliver ''kraken'')) cs) sent []
       (F\<lparr>proc := L\<lparr>lob_kraken := kr_withMetrics M (lob_kraken L), lob_server := V\<rparr>, kr_due := []\<rparr>)"
proof (induction cs arbitrary: L sent)
  case Nil
  then show ?case by (auto simp: kr_withMetrics_def intro: fine_run.fine_nothing)
next
  case (Cons c cs)
  obtain s1 M1 V1 rest where u: "updateCallback E ''kraken'' c (kr_metrics (kr (lob_kraken L)), lob_server L) = (s1, M1, V1)"
    and r: "runCallbacks E ''kraken'' cs (M1, V1) = (rest, M, V)" "sent = s1 @ rest"
    using Cons.prems by (auto split: prod.splits)
  let ?L = "L\<lparr>lob_kraken := kr_withMetrics M1 (lob_kraken L), lob_server := V1\<rparr>"
  have "fine_step n E (F\<lparr>proc := L, kr_due := c # cs\<rparr>) (Deliver ''kraken'') s1 [] (F\<lparr>proc := ?L, kr_due := cs\<rparr>)"
    using fine_step.fine_deliver_kraken [of "F\<lparr>proc := L, kr_due := c # cs\<rparr>" c cs E s1 M1 V1 n] u by simp
  from fine_run.fine_more [OF this Cons.IH [of ?L rest]] r show ?case by (simp add: kr_withMetrics_def)
qed

lemma coarse_step_fine:
  assumes "lob_step n E L e sent L'"
  shows "\<exists>made k x. fine_run n (idle L) ((E, Handle e) # replicate k (E, Deliver x)) sent made (idle L')"
  using assms
proof cases
  case (from_binance b out B M V)
  have s: "fine_step n E (idle L) (Handle e) [] (map (Pair ''binance'') (bin_calls out)) ((idle L)\<lparr>proc := L\<lparr>lob_binance := B\<rparr>, bin_due := bin_calls out\<rparr>)"
    using fine_step.fine_binance [of n "idle L" b out B E] from_binance by (simp add: idle_def)
  have "fine_run n ((idle L)\<lparr>proc := L\<lparr>lob_binance := B\<rparr>, bin_due := bin_calls out\<rparr>) (map (\<lambda>_. (E, Deliver ''binance'')) (bin_calls out)) sent [] (idle L')"
    using deliver_binance_all [of E "bin_calls out" "L\<lparr>lob_binance := B\<rparr>" sent M V n "idle L"] from_binance by (simp add: idle_def)
  from fine_run.fine_more [OF s this] show ?thesis unfolding map_replicate_const by auto
next
  case (from_kraken b out K M V)
  have s: "fine_step n E (idle L) (Handle e) [] (map (Pair ''kraken'') (kr_calls out)) ((idle L)\<lparr>proc := L\<lparr>lob_kraken := K\<rparr>, kr_due := kr_calls out\<rparr>)"
    using fine_step.fine_kraken [of "idle L" b out K n E] from_kraken by (simp add: idle_def)
  have "fine_run n ((idle L)\<lparr>proc := L\<lparr>lob_kraken := K\<rparr>, kr_due := kr_calls out\<rparr>) (map (\<lambda>_. (E, Deliver ''kraken'')) (kr_calls out)) sent [] (idle L')"
    using deliver_kraken_all [of E "kr_calls out" "L\<lparr>lob_kraken := K\<rparr>" sent M V n "idle L"] from_kraken by (simp add: idle_def)
  from fine_run.fine_more [OF s this] show ?thesis unfolding map_replicate_const by auto
next
  case (from_client a V)
  have "fine_step n E (idle L) (Handle e) sent [] (idle L')"
    using fine_step.fine_client [of a E "idle L" sent V n] from_client by (simp add: idle_def)
  from fine_run.fine_more [OF this fine_run.fine_nothing] show ?thesis by (intro exI [of _ "[]"] exI [of _ 0]) simp
qed

lemma coarse_run_fine: "lob_run n L es sent L' \<Longrightarrow> \<exists>es' made. fine_run n (idle L) es' sent made (idle L')"
proof (induction rule: lob_run.induct)
  case (lob_nothing L)
  then show ?case using fine_run.fine_nothing by blast
next
  case (lob_more E L e sent L1 es rest L2)
  then show ?case using coarse_step_fine [OF lob_more.hyps(1)] fine_run_append by blast
qed

section \<open>What every step keeps\<close>

definition fine_safe :: "fine_event \<Rightarrow> bool" where
  "fine_safe e \<longleftrightarrow> (case e of Handle ev \<Rightarrow> lob_event_safe ev | Deliver x \<Rightarrow> True)"

definition fine_keeps_up :: "string \<Rightarrow> env \<times> fine_event \<Rightarrow> bool" where
  "fine_keeps_up cid = (\<lambda>(E, e). alive E cid \<and> bufferedAmount E cid \<le> kBackpressureLimit \<and>
     (case e of Handle (FromClient a) \<Rightarrow> keeps cid (E, Map.empty, a) | _ \<Rightarrow> True))"

lemma updateCallback_law:
  assumes "updateCallback E exch c (M, V) = (sent, M', V')"
  shows "ofi_only M M'" "\<exists>x ds ts. c = (x, ds, ts) \<and> broadcastUpdate E exch x ds ts (fst (batchOfi ds)) V = (sent, V')"
proof -
  obtain x ds ts where "c = (x, ds, ts)" by (cases c)
  then show "ofi_only M M'" "\<exists>x ds ts. c = (x, ds, ts) \<and> broadcastUpdate E exch x ds ts (fst (batchOfi ds)) V = (sent, V')"
    using assms ofi_only_accumulate by (auto simp: updateCallback_def split_def Let_def)
qed

lemma fine_step_kept:
  assumes "fine_step n E F e sent made F'" "lob_ok (proc F)" "fine_safe e"
  shows "lob_ok (proc F') \<and> lob_ptrs (proc F') = lob_ptrs (proc F) \<and>
    (subscribed cid key (lob_server (proc F)) \<and> fine_keeps_up cid (E, e) \<longrightarrow> subscribed cid key (lob_server (proc F')))"
  using assms(1)
proof cases
  case (fine_binance e' out B)
  have "sys_ok B" by (rule binance_feed.preserved [OF _ _ fine_binance(5)])
      (use assms(2,3) fine_binance(1) in \<open>simp_all add: lob_ok_def fine_safe_def lob_event_safe_def\<close>)
  then show ?thesis using fine_binance assms(2) by (simp add: lob_ok_def)
next
  case (fine_kraken e' out K)
  have "kr_ok (kr K)" by (rule kraken_feed.preserved [OF _ _ fine_kraken(5)])
      (use assms(2,3) fine_kraken(1) in \<open>simp_all add: lob_ok_def fine_safe_def lob_event_safe_def\<close>)
  then show ?thesis using fine_kraken assms(2) by (simp add: lob_ok_def)
next
  case (fine_deliver_binance c cs M V)
  note u = updateCallback_law [OF fine_deliver_binance(5)]
  then obtain x ds ts where b: "broadcastUpdate E ''binance'' x ds ts (fst (batchOfi ds)) (lob_server (proc F)) = (sent, V)" by blast
  have ok: "sys_ok (bin_withMetrics M (lob_binance (proc F)))" "srv_inv (lob_server (proc F))"
    using binance_feed.accumulators u(1) assms(2) by (simp_all add: lob_ok_def)
  show ?thesis using ok broadcast_inv [OF ok(2) b] broadcast_law(2) [OF ok(2) _ _ _ b] fine_deliver_binance assms(2)
    by (simp add: lob_ok_def fine_keeps_up_def)
next
  case (fine_deliver_kraken c cs M V)
  note u = updateCallback_law [OF fine_deliver_kraken(5)]
  then obtain x ds ts where b: "broadcastUpdate E ''kraken'' x ds ts (fst (batchOfi ds)) (lob_server (proc F)) = (sent, V)" by blast
  have ok: "kr_ok (kr (kr_withMetrics M (lob_kraken (proc F))))" "srv_inv (lob_server (proc F))"
    using kraken_feed.accumulators u(1) assms(2) by (simp_all add: lob_ok_def)
  show ?thesis using ok broadcast_inv [OF ok(2) b] broadcast_law(2) [OF ok(2) _ _ _ b] fine_deliver_kraken assms(2)
    by (simp add: lob_ok_def fine_keeps_up_def)
next
  case (fine_client a V)
  have inv: "srv_inv (lob_server (proc F))" using assms(2) by (simp add: lob_ok_def)
  have "fine_keeps_up cid (E, e) \<Longrightarrow> keeps cid (E, liveBooks (proc F), a)"
    using keeps_books [of _ E "liveBooks (proc F)" a Map.empty] by (simp add: fine_keeps_up_def fine_client(1))
  then show ?thesis using fine_client srv_step_inv [OF inv fine_client(5)] srv_step_law(2) [OF inv _ _ fine_client(5)] assms(2)
    by (simp add: lob_ok_def)
qed

section \<open>A feed that is followed\<close>

definition due :: "string \<Rightarrow> fine \<Rightarrow> callback_call list" where
  "due exch F = (if exch = ''binance'' then bin_due F else kr_due F)"

definition made_for :: "string \<Rightarrow> (string \<times> callback_call) list \<Rightarrow> callback_call list" where
  "made_for exch made = map snd (filter (\<lambda>(x, c). x = exch) made)"

definition feed_live :: "string \<Rightarrow> string \<Rightarrow> string \<Rightarrow> lob \<Rightarrow> orderbook \<Rightarrow> metrics \<Rightarrow> bool" where
  "feed_live exch src s L b m \<longleftrightarrow>
     (if exch = ''binance'' then live_feed (adp (lob_binance L)) src s b m
      else exch = ''kraken'' \<and> kr_live_feed (kr (lob_kraken L)) src s b m)"

definition attends :: "string \<Rightarrow> string \<Rightarrow> string \<Rightarrow> fine \<Rightarrow> fine_event \<Rightarrow> bool" where
  "attends exch src s F e \<longleftrightarrow> (case e of
       Handle (FromBinance ev) \<Rightarrow> exch = ''binance'' \<longrightarrow> bin_attends src s (lob_binance (proc F)) ev
     | Handle (FromKraken ev) \<Rightarrow> exch = ''kraken'' \<longrightarrow> kr_attends src s (lob_kraken (proc F)) ev
     | _ \<Rightarrow> True)"

lemma made_for_simps [simp]:
  "made_for exch [] = []" "made_for exch (made @ later) = made_for exch made @ made_for exch later"
  "made_for exch (map (Pair x) cs) = (if x = exch then cs else [])"
  by (simp_all add: made_for_def filter_map o_def)

lemma feed_exch: "feed_live exch src s L b m \<Longrightarrow> exch = ''binance'' \<or> exch = ''kraken''"
  by (simp add: feed_live_def split: if_splits)

lemma feed_book: "feed_live exch src s L b m \<Longrightarrow> lob_ptrs L key = Some (exch, s) \<Longrightarrow> liveBooks L key = Some b"
  using binance_live.live_book kraken_live.live_book by (auto simp: feed_live_def liveBooks_def split: if_splits)

lemma feed_snapshot:
  assumes "lob_ok L" "feed_live exch src s L b m"
  obtains snap where "getSnapshot b = Some snap" "applied snap"
    "\<And>side. read_levels (bookLevelsToJson (if side then snap_bids snap else snap_asks snap)) (\<lambda>_. 0) = levelsOf side b"
proof (cases "exch = ''binance''")
  case True
  then show thesis using binance_live.live_snapshot [of "lob_binance L" src s b m] assms that by (auto simp: lob_ok_def feed_live_def)
next
  case False
  then show thesis using kraken_live.live_snapshot [of "lob_kraken L" src s b m] assms that by (auto simp: lob_ok_def feed_live_def)
qed

text \<open>
  What a step does to a feed that is followed: the book, its calls under way, the copy of a
  client and the account of the order flow.
\<close>

definition account :: "string \<Rightarrow> orderbook \<Rightarrow> metrics \<Rightarrow> callback_call list \<Rightarrow> int" where
  "account s b m cs = ofiAccumulator m + exact_ofi (deltas_for s cs) - imbalance b"

definition exposure :: "string \<Rightarrow> metrics \<Rightarrow> callback_call list \<Rightarrow> int" where
  "exposure s m cs = \<bar>ofiAccumulator m\<bar> + traffic (deltas_for s cs)"

definition follows ::
  "string \<Rightarrow> string \<Rightarrow> orderbook \<Rightarrow> metrics \<Rightarrow> fine \<Rightarrow> orderbook \<Rightarrow> metrics \<Rightarrow> fine \<Rightarrow> (string \<times> server_msg) list \<Rightarrow>
   (string \<times> callback_call) list \<Rightarrow> string set \<Rightarrow> bool" where
  "follows exch s b m F b' m' F' sent made cids \<longleftrightarrow>
     settled s b' (due exch F') \<and>
     (\<forall>cid \<in> cids. \<forall>c. in_step s b (due exch F) c \<longrightarrow> in_step s b' (due exch F') (client_view cid (streamKey exch s) sent c)) \<and>
     (exposure s m (due exch F) + traffic (deltas_for s (made_for exch made)) \<le> LLONG_MAX \<longrightarrow>
       account s b' m' (due exch F') = account s b m (due exch F) \<and>
       exposure s m' (due exch F') \<le> exposure s m (due exch F) + traffic (deltas_for s (made_for exch made)))"

lemma traffic_append [simp]: "traffic (ds @ ds') = traffic ds + traffic ds'"
  by (simp add: traffic_def)

lemma exact_ofi_append [simp]: "exact_ofi (ds @ ds') = exact_ofi ds + exact_ofi ds'"
  by (induction ds) auto

lemma follows_emit:
  assumes "settled s b (due exch F)" "carries s cs b b'" "ofiAccumulator m' = ofiAccumulator m"
    and "due exch F' = due exch F @ cs" "made_for exch made = cs"
  shows "follows exch s b m F b' m' F' [] made cids"
  using assms settled_emit [OF assms(1,2)] in_step_emit [OF _ assms(2)]
  by (simp add: follows_def account_def exposure_def carries_def)

lemma follows_other:
  assumes "settled s b (due exch F)" "due exch F' = due exch F" "made_for exch made = []"
    and "\<And>cid c. cid \<in> cids \<Longrightarrow> client_view cid (streamKey exch s) sent c = c \<or> client_view cid (streamKey exch s) sent c = (\<lambda>side. levelsOf side b)"
  shows "follows exch s b m F b m F' sent made cids"
proof -
  have "in_step s b (due exch F) (client_view cid (streamKey exch s) sent c)" if "in_step s b (due exch F) c" "cid \<in> cids" for cid c
    using assms(4) [OF that(2), of c] that(1) in_step_snapshot [OF assms(1)] by auto
  then show ?thesis using assms(1-3) by (simp add: follows_def)
qed

lemma follows_deliver:
  assumes "settled s b (due exch F)" "due exch F = (x, ds, ts) # due exch F'" "made = []"
    and view: "\<And>cid c. cid \<in> cids \<Longrightarrow> client_view cid (streamKey exch s) sent c = (if x = s then (\<lambda>side. replay (c side) (genuine side ds)) else c)"
    and acc: "\<bar>ofiAccumulator m\<bar> + traffic (deltas_for s [(x, ds, ts)]) \<le> LLONG_MAX \<Longrightarrow> ofiAccumulator m' = ofiAccumulator m + exact_ofi (deltas_for s [(x, ds, ts)])"
  shows "follows exch s b m F b m' F' sent made cids"
proof -
  let ?cs = "due exch F'" and ?d = "deltas_for s [(x, ds, ts)]"
  have split: "deltas_for s (due exch F) = ?d @ deltas_for s ?cs" by (simp add: assms(2))
  have st: "settled s b ?cs" using assms(1,2) settled_deliver by simp
  have copy: "in_step s b ?cs (client_view cid (streamKey exch s) sent c)" if "in_step s b (due exch F) c" "cid \<in> cids" for cid c
  proof -
    have "client_view cid (streamKey exch s) sent c = (\<lambda>side. if x = s then replay (c side) (genuine side ds) else c side)"
      by (simp add: view [OF that(2)] fun_eq_iff)
    then show ?thesis using in_step_deliver that(1) unfolding assms(2) by simp
  qed
  have "account s b m' ?cs = account s b m (due exch F) \<and> exposure s m' ?cs \<le> exposure s m (due exch F)"
    if "exposure s m (due exch F) \<le> LLONG_MAX"
  proof -
    have "0 \<le> traffic (deltas_for s ?cs)" by (rule traffic_nonneg)
    then have "ofiAccumulator m' = ofiAccumulator m + exact_ofi ?d" using acc that by (simp add: exposure_def split)
    then show ?thesis using exact_ofi_bound [of ?d] by (simp add: account_def exposure_def split)
  qed
  then show ?thesis using st copy by (simp add: follows_def assms(3))
qed

section \<open>Every step follows the feed\<close>

lemma feed_at:
  "exch = ''binance'' \<Longrightarrow> feed_live exch src s L b m \<longleftrightarrow> live_feed (adp (lob_binance L)) src s b m"
  "exch = ''kraken'' \<Longrightarrow> feed_live exch src s L b m \<longleftrightarrow> kr_live_feed (kr (lob_kraken L)) src s b m"
  by (simp_all add: feed_live_def)

lemma follows_binance:
  assumes exch: "exch = ''binance'' \<or> exch = ''kraken''" and live: "feed_live exch src s (proc F) b m" and st: "settled s b (due exch F)"
    and att: "exch = ''binance'' \<longrightarrow> bin_attends src s (lob_binance (proc F)) ev" and step: "bin_step n (lob_binance (proc F)) ev out B"
    and F': "F' = F\<lparr>proc := (proc F)\<lparr>lob_binance := B\<rparr>, bin_due := bin_due F @ bin_calls out\<rparr>"
  shows "\<exists>b' m'. feed_live exch src s (proc F') b' m' \<and> follows exch s b m F b' m' F' [] (map (Pair ''binance'') (bin_calls out)) cids"
proof (cases "exch = ''binance''")
  case True
  have a: "live_feed (adp (lob_binance (proc F))) src s b m" "bin_attends src s (lob_binance (proc F)) ev" using live att True by (simp_all add: feed_at)
  obtain b' m' where c: "live_feed (adp B) src s b' m'" "carries s (bin_calls out) b b'" "ofiAccumulator m' = ofiAccumulator m"
    using binance_live.attended [OF a step] by blast
  have "follows exch s b m F b' m' F' [] (map (Pair ''binance'') (bin_calls out)) cids"
    by (rule follows_emit [OF st c(2,3)]) (simp_all add: True F' due_def)
  then show ?thesis using c(1) by (intro exI [of _ b'] exI [of _ m']) (simp add: feed_at True F')
next
  case False
  then have k: "exch = ''kraken''" using exch by simp
  have "follows exch s b m F b m F' [] (map (Pair ''binance'') (bin_calls out)) cids"
    by (rule follows_other [OF st]) (simp_all add: k F' due_def)
  then show ?thesis using live by (intro exI [of _ b] exI [of _ m]) (simp add: feed_at k F')
qed

lemma follows_kraken:
  assumes exch: "exch = ''binance'' \<or> exch = ''kraken''" and live: "feed_live exch src s (proc F) b m" and st: "settled s b (due exch F)"
    and att: "exch = ''kraken'' \<longrightarrow> kr_attends src s (lob_kraken (proc F)) ev" and step: "kr_step (lob_kraken (proc F)) ev out K"
    and F': "F' = F\<lparr>proc := (proc F)\<lparr>lob_kraken := K\<rparr>, kr_due := kr_due F @ kr_calls out\<rparr>"
  shows "\<exists>b' m'. feed_live exch src s (proc F') b' m' \<and> follows exch s b m F b' m' F' [] (map (Pair ''kraken'') (kr_calls out)) cids"
proof (cases "exch = ''kraken''")
  case True
  have a: "kr_live_feed (kr (lob_kraken (proc F))) src s b m" "kr_attends src s (lob_kraken (proc F)) ev" using live att True by (simp_all add: feed_at)
  obtain b' m' where c: "kr_live_feed (kr K) src s b' m'" "carries s (kr_calls out) b b'" "ofiAccumulator m' = ofiAccumulator m"
    using kraken_live.attended [OF a step] by blast
  have "follows exch s b m F b' m' F' [] (map (Pair ''kraken'') (kr_calls out)) cids"
    by (rule follows_emit [OF st c(2,3)]) (simp_all add: True F' due_def)
  then show ?thesis using c(1) by (intro exI [of _ b'] exI [of _ m']) (simp add: feed_at True F')
next
  case False
  then have k: "exch = ''binance''" using exch by simp
  have "follows exch s b m F b m F' [] (map (Pair ''kraken'') (kr_calls out)) cids"
    by (rule follows_other [OF st]) (simp_all add: k F' due_def)
  then show ?thesis using live by (intro exI [of _ b] exI [of _ m]) (simp add: feed_at k F')
qed

lemma follows_delivered:
  assumes srv: "srv_inv V" "\<And>cid. cid \<in> cids \<Longrightarrow> subscribed cid (streamKey exch s) V \<and> alive E cid \<and> bufferedAmount E cid \<le> kBackpressureLimit"
    and st: "settled s b (due exch F)" and d: "due exch F = (x, ds, ts) # due exch F'"
    and b: "broadcastUpdate E exch x ds ts ofi V = (sent, V')" and key: "x \<noteq> s \<Longrightarrow> streamKey exch x \<noteq> streamKey exch s"
    and acc: "\<bar>ofiAccumulator m\<bar> + traffic (deltas_for s [(x, ds, ts)]) \<le> LLONG_MAX \<Longrightarrow>
      ofiAccumulator m' = ofiAccumulator m + exact_ofi (deltas_for s [(x, ds, ts)])"
  shows "follows exch s b m F b m' F' sent [] cids"
proof (rule follows_deliver [OF st d])
  fix cid c
  assume cid: "cid \<in> cids"
  show "client_view cid (streamKey exch s) sent c = (if x = s then (\<lambda>side. replay (c side) (genuine side ds)) else c)"
  proof (cases "x = s")
    case True
    have "readable_deltas ds" using st True by (simp add: settled_def d)
    then show ?thesis using deliver_view [OF srv(1) _ _ _ b [unfolded True]] srv(2) [OF cid] True by simp
  next
    case False
    then show ?thesis using deliver_view_other [OF b key] by simp
  qed
qed (use acc in simp_all)

text \<open>The delivery of a call, for the exchange of the feed and for the other one.\<close>

lemma follows_deliver_binance:
  assumes exch: "exch = ''binance'' \<or> exch = ''kraken''" and live: "feed_live exch src s (proc F) b m" and st: "settled s b (due exch F)"
    and srv: "srv_inv (lob_server (proc F))"
      "\<And>cid. cid \<in> cids \<Longrightarrow> subscribed cid (streamKey exch s) (lob_server (proc F)) \<and> alive E cid \<and> bufferedAmount E cid \<le> kBackpressureLimit"
    and c: "bin_due F = c # cs" and u: "updateCallback E ''binance'' c (bin_metrics (adp (lob_binance (proc F))), lob_server (proc F)) = (sent, M, V)"
    and F': "F' = F\<lparr>proc := (proc F)\<lparr>lob_binance := bin_withMetrics M (lob_binance (proc F)), lob_server := V\<rparr>, bin_due := cs\<rparr>"
  shows "\<exists>b' m'. feed_live exch src s (proc F') b' m' \<and> follows exch s b m F b' m' F' sent [] cids"
proof -
  obtain x ds ts where x: "c = (x, ds, ts)" by (cases c)
  show ?thesis
  proof (cases "exch = ''binance''")
    case True
    have l: "live_feed (adp (lob_binance (proc F))) src s b m" using live True by (simp add: feed_at)
    obtain m' where d: "live_feed (adp (bin_withMetrics M (lob_binance (proc F)))) src s b m'"
      "\<bar>ofiAccumulator m\<bar> + traffic (deltas_for s [(x, ds, ts)]) \<le> LLONG_MAX \<Longrightarrow> ofiAccumulator m' = ofiAccumulator m + exact_ofi (deltas_for s [(x, ds, ts)])"
      "broadcastUpdate E ''binance'' x ds ts (fst (batchOfi ds)) (lob_server (proc F)) = (sent, V)"
      using binance_live.delivered [OF l u [unfolded x]] by blast
    have "follows exch s b m F b m' F' sent [] cids"
      by (rule follows_delivered [OF srv st _ d(3) [folded True] _ d(2)]) (simp_all add: True F' due_def c x streamKey_def)
    then show ?thesis using d(1) by (intro exI [of _ b] exI [of _ m']) (simp add: feed_at True F')
  next
    case False
    then have k: "exch = ''kraken''" using exch by simp
    obtain y es z where b: "broadcastUpdate E ''binance'' y es z (fst (batchOfi es)) (lob_server (proc F)) = (sent, V)"
      using updateCallback_law(2) [OF u] by blast
    have "client_view cid (streamKey exch s) sent c = c" for cid c
      by (rule deliver_view_other [OF b]) (simp add: k streamKey_def)
    then have "follows exch s b m F b m F' sent [] cids"
      by (intro follows_other [OF st]) (simp_all add: k F' due_def)
    then show ?thesis using live by (intro exI [of _ b] exI [of _ m]) (simp add: feed_at k F')
  qed
qed

lemma follows_deliver_kraken:
  assumes exch: "exch = ''binance'' \<or> exch = ''kraken''" and live: "feed_live exch src s (proc F) b m" and st: "settled s b (due exch F)"
    and srv: "srv_inv (lob_server (proc F))"
      "\<And>cid. cid \<in> cids \<Longrightarrow> subscribed cid (streamKey exch s) (lob_server (proc F)) \<and> alive E cid \<and> bufferedAmount E cid \<le> kBackpressureLimit"
    and c: "kr_due F = c # cs" and u: "updateCallback E ''kraken'' c (kr_metrics (kr (lob_kraken (proc F))), lob_server (proc F)) = (sent, M, V)"
    and F': "F' = F\<lparr>proc := (proc F)\<lparr>lob_kraken := kr_withMetrics M (lob_kraken (proc F)), lob_server := V\<rparr>, kr_due := cs\<rparr>"
  shows "\<exists>b' m'. feed_live exch src s (proc F') b' m' \<and> follows exch s b m F b' m' F' sent [] cids"
proof -
  obtain x ds ts where x: "c = (x, ds, ts)" by (cases c)
  show ?thesis
  proof (cases "exch = ''kraken''")
    case True
    have l: "kr_live_feed (kr (lob_kraken (proc F))) src s b m" using live True by (simp add: feed_at)
    obtain m' where d: "kr_live_feed (kr (kr_withMetrics M (lob_kraken (proc F)))) src s b m'"
      "\<bar>ofiAccumulator m\<bar> + traffic (deltas_for s [(x, ds, ts)]) \<le> LLONG_MAX \<Longrightarrow> ofiAccumulator m' = ofiAccumulator m + exact_ofi (deltas_for s [(x, ds, ts)])"
      "broadcastUpdate E ''kraken'' x ds ts (fst (batchOfi ds)) (lob_server (proc F)) = (sent, V)"
      using kraken_live.delivered [OF l u [unfolded x]] by blast
    have "follows exch s b m F b m' F' sent [] cids"
      by (rule follows_delivered [OF srv st _ d(3) [folded True] _ d(2)]) (simp_all add: True F' due_def c x streamKey_def)
    then show ?thesis using d(1) by (intro exI [of _ b] exI [of _ m']) (simp add: feed_at True F')
  next
    case False
    then have k: "exch = ''binance''" using exch by simp
    obtain y es z where b: "broadcastUpdate E ''kraken'' y es z (fst (batchOfi es)) (lob_server (proc F)) = (sent, V)"
      using updateCallback_law(2) [OF u] by blast
    have "client_view cid (streamKey exch s) sent c = c" for cid c
      by (rule deliver_view_other [OF b]) (simp add: k streamKey_def)
    then have "follows exch s b m F b m F' sent [] cids"
      by (intro follows_other [OF st]) (simp_all add: k F' due_def)
    then show ?thesis using live by (intro exI [of _ b] exI [of _ m]) (simp add: feed_at k F')
  qed
qed

lemma followed_step:
  assumes step: "fine_step n E F e sent made F'" and ok: "lob_ok (proc F)" and att: "attends exch src s F e"
    and live: "feed_live exch src s (proc F) b m" and st: "settled s b (due exch F)"
    and served: "\<And>cid. cid \<in> cids \<Longrightarrow> subscribed cid (streamKey exch s) (lob_server (proc F)) \<and> fine_keeps_up cid (E, e)"
    and ptr: "lob_ptrs (proc F) (streamKey exch s) = Some (exch, s)"
  shows "\<exists>b' m'. feed_live exch src s (proc F') b' m' \<and> follows exch s b m F b' m' F' sent made cids"
proof -
  have exch: "exch = ''binance'' \<or> exch = ''kraken''" by (rule feed_exch [OF live])
  have srv: "srv_inv (lob_server (proc F))"
    "cid \<in> cids \<Longrightarrow> subscribed cid (streamKey exch s) (lob_server (proc F)) \<and> alive E cid \<and> bufferedAmount E cid \<le> kBackpressureLimit" for cid
    using ok served by (simp_all add: lob_ok_def fine_keeps_up_def)
  show ?thesis using step
  proof cases
    case (fine_binance ev out B)
    have a: "exch = ''binance'' \<longrightarrow> bin_attends src s (lob_binance (proc F)) ev" using att by (simp add: attends_def fine_binance(1))
    show ?thesis using follows_binance [OF exch live st a fine_binance(5,4)] fine_binance(2,3) by simp
  next
    case (fine_kraken ev out K)
    have a: "exch = ''kraken'' \<longrightarrow> kr_attends src s (lob_kraken (proc F)) ev" using att by (simp add: attends_def fine_kraken(1))
    show ?thesis using follows_kraken [OF exch live st a fine_kraken(5,4)] fine_kraken(2,3) by simp
  next
    case (fine_deliver_binance c cs M V)
    show ?thesis using follows_deliver_binance [OF exch live st srv fine_deliver_binance(4,5,3)] fine_deliver_binance(2) by simp
  next
    case (fine_deliver_kraken c cs M V)
    show ?thesis using follows_deliver_kraken [OF exch live st srv fine_deliver_kraken(4,5,3)] fine_deliver_kraken(2) by simp
  next
    case (fine_client a V)
    obtain snap where snap: "getSnapshot b = Some snap" "applied snap"
      "\<And>side. read_levels (bookLevelsToJson (if side then snap_bids snap else snap_asks snap)) (\<lambda>_. 0) = levelsOf side b"
      by (rule feed_snapshot [OF ok live]) blast
    have "client_view cid (streamKey exch s) sent c = c \<or> client_view cid (streamKey exch s) sent c = (\<lambda>side. levelsOf side b)" if "cid \<in> cids" for cid c
    proof (rule request_view [OF fine_client(4) _ fine_client(5) snap(1,2) feed_book [OF live ptr] snap(3)])
      show "keeps cid (E, Map.empty, a)" using served [OF that] by (simp add: fine_keeps_up_def fine_client(1))
    qed
    then have "follows exch s b m F b m F' sent made cids"
      by (intro follows_other [OF st]) (simp_all add: fine_client due_def)
    then show ?thesis using live by (intro exI [of _ b] exI [of _ m]) (simp add: feed_live_def fine_client)
  qed
qed

section \<open>Runs that follow the feed\<close>

text \<open>A run in which every event of the adapter of the feed is a live message of its source or leaves the symbol alone.\<close>

inductive attended_run ::
  "int \<Rightarrow> string \<Rightarrow> string \<Rightarrow> string \<Rightarrow> fine \<Rightarrow> (env \<times> fine_event) list \<Rightarrow> (string \<times> server_msg) list \<Rightarrow>
   (string \<times> callback_call) list \<Rightarrow> fine \<Rightarrow> bool" for n exch src s where
  attended_nothing: "attended_run n exch src s F [] [] [] F"
| attended_more: "attends exch src s F e \<Longrightarrow> fine_step n E F e sent made F1 \<Longrightarrow> attended_run n exch src s F1 es rest later F2 \<Longrightarrow>
    attended_run n exch src s F ((E, e) # es) (sent @ rest) (made @ later) F2"

lemma attended_is_run: "attended_run n exch src s F es sent made F' \<Longrightarrow> fine_run n F es sent made F'"
  by (induction rule: attended_run.induct) (auto intro: fine_run.intros)

lemma follows_refl: "settled s b (due exch F) \<Longrightarrow> follows exch s b m F b m F [] [] cids"
  by (simp add: follows_def)

lemma follows_trans:
  assumes one: "follows exch s b m F b1 m1 F1 sent made cids" and two: "follows exch s b1 m1 F1 b2 m2 F2 rest later cids"
  shows "follows exch s b m F b2 m2 F2 (sent @ rest) (made @ later) cids"
proof -
  let ?t1 = "traffic (deltas_for s (made_for exch made))" and ?t2 = "traffic (deltas_for s (made_for exch later))"
  have "account s b2 m2 (due exch F2) = account s b m (due exch F) \<and> exposure s m2 (due exch F2) \<le> exposure s m (due exch F) + (?t1 + ?t2)"
    if e: "exposure s m (due exch F) + (?t1 + ?t2) \<le> LLONG_MAX"
  proof -
    have "0 \<le> ?t2" by (rule traffic_nonneg)
    then have "account s b1 m1 (due exch F1) = account s b m (due exch F)" "exposure s m1 (due exch F1) \<le> exposure s m (due exch F) + ?t1"
      using one e by (simp_all add: follows_def)
    then show ?thesis using two e by (simp add: follows_def)
  qed
  then show ?thesis using one two by (simp add: follows_def)
qed

lemma followed_run:
  "attended_run n exch src s F es sent made F' \<Longrightarrow> lob_ok (proc F) \<Longrightarrow> \<forall>(E, e) \<in> set es. fine_safe e \<Longrightarrow>
     feed_live exch src s (proc F) b m \<Longrightarrow> settled s b (due exch F) \<Longrightarrow> lob_ptrs (proc F) (streamKey exch s) = Some (exch, s) \<Longrightarrow>
     \<forall>cid \<in> cids. subscribed cid (streamKey exch s) (lob_server (proc F)) \<and> (\<forall>x \<in> set es. fine_keeps_up cid x) \<Longrightarrow>
     \<exists>b' m'. feed_live exch src s (proc F') b' m' \<and> follows exch s b m F b' m' F' sent made cids \<and>
       lob_ok (proc F') \<and> lob_ptrs (proc F') = lob_ptrs (proc F)"
proof (induction arbitrary: b m rule: attended_run.induct)
  case (attended_nothing F)
  then show ?case using follows_refl by blast
next
  case (attended_more F e E sent made F1 es rest later F2)
  have safe: "fine_safe e" using attended_more.prems(2) by simp
  have served: "subscribed cid (streamKey exch s) (lob_server (proc F)) \<and> fine_keeps_up cid (E, e)" if "cid \<in> cids" for cid
    using attended_more.prems(6) that by simp
  obtain b1 m1 where one: "feed_live exch src s (proc F1) b1 m1" "follows exch s b m F b1 m1 F1 sent made cids"
    using followed_step [OF attended_more.hyps(2) attended_more.prems(1) attended_more.hyps(1) attended_more.prems(3,4) served attended_more.prems(5)]
    by blast
  note kept = fine_step_kept [OF attended_more.hyps(2) attended_more.prems(1) safe]
  have "\<exists>b' m'. feed_live exch src s (proc F2) b' m' \<and> follows exch s b1 m1 F1 b' m' F2 rest later cids \<and>
       lob_ok (proc F2) \<and> lob_ptrs (proc F2) = lob_ptrs (proc F1)" (is "\<exists>b' m'. ?rest b' m'")
  proof (rule attended_more.IH [OF _ _ one(1)])
    show "lob_ok (proc F1)" "lob_ptrs (proc F1) (streamKey exch s) = Some (exch, s)" using kept attended_more.prems(5) by simp_all
    show "\<forall>(E, e) \<in> set es. fine_safe e" using attended_more.prems(2) by simp
    show "settled s b1 (due exch F1)" using one(2) by (simp add: follows_def)
    show "\<forall>cid \<in> cids. subscribed cid (streamKey exch s) (lob_server (proc F1)) \<and> (\<forall>x \<in> set es. fine_keeps_up cid x)"
      using kept served attended_more.prems(6) by simp
  qed
  then obtain b' m' where "?rest b' m'" by blast
  then show ?case using follows_trans [OF one(2), of b' m' F2 rest later] kept by (intro exI [of _ b'] exI [of _ m']) simp
qed

text \<open>
  The request of a stream: whatever the client holds, what it is sent makes its copy the book,
  while the calls that are under way change nothing on it.
\<close>

lemma request_in_step:
  assumes step: "fine_step n E F (Handle (FromClient (Request cid now msg))) sent made F'" and ok: "lob_ok (proc F)"
    and live: "feed_live exch src s (proc F) b m" and st: "settled s b (due exch F)"
    and ptr: "lob_ptrs (proc F) (streamKey exch s) = Some (exch, s)"
    and msg: "parseClientMessage msg = Some r" "op r = ''subscribe''" "\<exists>x \<in> set (req_streams r). asks_for (streamKey exch s) x"
    and cl: "present cid (lob_server (proc F))" "alive E cid"
  shows "feed_live exch src s (proc F') b m" "settled s b (due exch F')" "lob_ok (proc F')" "lob_ptrs (proc F') = lob_ptrs (proc F)"
    "subscribed cid (streamKey exch s) (lob_server (proc F'))" "in_step s b (due exch F') (client_view cid (streamKey exch s) sent c)"
proof -
  obtain V where F': "F' = F\<lparr>proc := (proc F)\<lparr>lob_server := V\<rparr>\<rparr>"
    and s: "srv_step E (liveBooks (proc F)) (Request cid now msg) (lob_server (proc F)) = Some (sent, V)"
    using step by cases blast
  have kept: "lob_ok (proc F') \<and> lob_ptrs (proc F') = lob_ptrs (proc F)"
    using fine_step_kept [OF step ok] by (simp add: fine_safe_def lob_event_safe_def client_action_def)
  obtain out where "onMessage E (liveBooks (proc F)) now cid msg (lob_server (proc F)) = Some (out, V)" and sent: "sent = map (Pair cid) out"
    using s by (auto simp: srv_step_def split: Option.bind_splits)
  then have fold: "foldM (subscribeStream (liveBooks (proc F)) now cid) ([], lob_server (proc F)) (req_streams r) = Some (out, V)"
    using msg(1,2) cl(2) by (simp add: onMessage_def handleSubscribe_def)
  obtain snap where snap: "getSnapshot b = Some snap" "applied snap"
    "\<And>side. read_levels (bookLevelsToJson (if side then snap_bids snap else snap_asks snap)) (\<lambda>_. 0) = levelsOf side b"
    by (rule feed_snapshot [OF ok live]) blast
  have view: "client_view cid (streamKey exch s) sent c = (\<lambda>side. levelsOf side b)"
    using subscribe_view [OF snap(1,2) feed_book [OF live ptr] snap(3) fold] msg(3) by (auto simp: sent)
  show "feed_live exch src s (proc F') b m" using live by (simp add: feed_live_def F')
  have "due exch F' = due exch F" by (simp add: due_def F')
  then show d: "settled s b (due exch F')" using st by simp
  show "lob_ok (proc F')" "lob_ptrs (proc F') = lob_ptrs (proc F)" using kept by simp_all
  show "subscribed cid (streamKey exch s) (lob_server (proc F'))" using subscribe_done [OF fold cl(1)] msg(3) by (simp add: F')
  show "in_step s b (due exch F') (client_view cid (streamKey exch s) sent c)" unfolding view by (rule in_step_snapshot [OF d])
qed

lemma settled_idle: "settled s b (due exch (idle L))"
  by (simp add: settled_def due_def idle_def)

definition metricsAt :: "string \<Rightarrow> lob \<Rightarrow> string \<rightharpoonup> metrics" where
  "metricsAt exch L = (if exch = ''binance'' then bin_metrics (adp (lob_binance L)) else kr_metrics (kr (lob_kraken L)))"

lemma feed_metrics: "feed_live exch src s L b m \<Longrightarrow> metricsAt exch L s = Some m"
  using binance_live.live_metrics kraken_live.live_metrics by (auto simp: feed_live_def metricsAt_def split: if_splits)

text \<open>The account of a run that starts with nothing under way.\<close>

lemma accounted_run:
  assumes ok: "lob_ok L" and live: "feed_live exch src s L b m" and ptr: "lob_ptrs L (streamKey exch s) = Some (exch, s)"
    and run: "attended_run n exch src s (idle L) es sent made F" and safe: "\<forall>(E, e) \<in> set es. fine_safe e"
    and range: "\<bar>ofiAccumulator m\<bar> + traffic (deltas_for s (made_for exch made)) \<le> LLONG_MAX"
  obtains b' m' where "feed_live exch src s (proc F) b' m'" "liveBooks (proc F) (streamKey exch s) = Some b'"
    "ofiAccumulator m' + exact_ofi (deltas_for s (due exch F)) = ofiAccumulator m + (imbalance b' - imbalance b)"
proof -
  have idle: "proc (idle L) = L" "due exch (idle L) = []" by (simp_all add: idle_def due_def)
  obtain b' m' where f: "feed_live exch src s (proc F) b' m'" "follows exch s b m (idle L) b' m' F sent made {}" "lob_ptrs (proc F) = lob_ptrs L"
    using followed_run [OF run _ safe _ settled_idle, of b m "{}"] ok live ptr by (auto simp: idle)
  have "account s b' m' (due exch F) = account s b m []"
    using f(2) range by (simp add: follows_def idle(2) exposure_def)
  then show thesis by (intro that [OF f(1) feed_book [OF f(1)]]) (simp_all add: f(3) ptr account_def)
qed

end
