(* ===== verification/Lob_Scrape.thy ===== *)
theory Lob_Scrape
  imports Lob_Fine Prometheus_Properties
begin

text \<open>What a request to the metrics server answers while the process runs.\<close>

definition booksAt :: "string \<Rightarrow> lob \<Rightarrow> string \<rightharpoonup> orderbook" where
  "booksAt exch L = (if exch = ''binance'' then bin_books (adp (lob_binance L)) else kr_books (kr (lob_kraken L)))"

text \<open>
  The entries of a map in the order of its iteration, and the views that \<open>main\<close> gives the
  metrics server: the name of each exchange with both its maps.
\<close>

definition entries :: "(string \<rightharpoonup> 'a) \<Rightarrow> string list \<Rightarrow> (string \<times> 'a) list" where
  "entries f order = List.map_filter (\<lambda>s. map_option (Pair s) (f s)) order"

definition metricsViews ::
  "(string \<times> string list \<times> string list) list \<Rightarrow> (string \<Rightarrow> int) \<Rightarrow> (string \<Rightarrow> int option) \<Rightarrow> lob \<Rightarrow> metrics_view list" where
  "metricsViews exchanges now rss L = map (\<lambda>(name, metricsOrder, booksOrder).
     \<lparr>view_name = name, view_metrics = entries (metricsAt name L) metricsOrder, view_books = entries (booksAt name L) booksOrder,
      view_now = now name, view_rss = rss name\<rparr>) exchanges"

text \<open>The answer to a path, with the statistics of the subscriber server at that moment.\<close>

definition scrape ::
  "(string \<times> string list \<times> string list) list \<Rightarrow> (string \<Rightarrow> int) \<Rightarrow> (string \<Rightarrow> int option) \<Rightarrow> lob \<Rightarrow> string \<Rightarrow> (string \<times> string) option" where
  "scrape exchanges now rss L path = metricsRoutes (Some (srv_getStats (lob_server L))) (metricsViews exchanges now rss L) path"

section \<open>The samples of a symbol\<close>

lemma entries_mem: "s \<in> set order \<Longrightarrow> f s = Some y \<Longrightarrow> (s, y) \<in> set (entries f order)"
  by (force simp: entries_def List.map_filter_def)

lemma samples_of_view:
  "v \<in> set views \<Longrightarrow> x \<in> set (samples (view_now v) (view_rss v) (view_name v) (view_metrics v) (view_books v) None) \<Longrightarrow> x \<in> set (all_samples st views)"
proof (induction st views rule: all_samples.induct)
  case (2 st w ws)
  have sub: "set (samples n r a ms bs None) \<subseteq> set (samples n r a ms bs st)" for n r a ms bs
    by (auto simp: samples_def)
  show ?case
  proof (cases "v = w")
    case True
    then show ?thesis using "2.prems"(2) subsetD [OF sub] by simp
  next
    case False
    then show ?thesis using 2 by simp
  qed
qed simp

lemma family_mem: "(s, v) \<in> set vs \<Longrightarrow> float_sample x name s v \<in> set (family x name vs)"
  by (force simp: family_def)

lemma samples_of_symbol:
  assumes "(s, m) \<in> set ms" "(s, b) \<in> set books"
  shows "float_sample x ''lob_ofi_value'' s (unscaled (ofiAccumulator m)) \<in> set (samples now rss x ms books None)"
    "float_sample x ''lob_messages_total'' s (int_double (msgCount m)) \<in> set (samples now rss x ms books None)"
    "float_sample x ''lob_orderbook_asks_count'' s (int_double (int (asksCount (getStats b)))) \<in> set (samples now rss x ms books None)"
    "float_sample x ''lob_orderbook_bids_count'' s (int_double (int (bidsCount (getStats b)))) \<in> set (samples now rss x ms books None)"
    "0 < bestAsk (getStats b) \<Longrightarrow>
      float_sample x ''lob_orderbook_best_ask_price'' s (bestAsk (getStats b)) \<in> set (samples now rss x ms books None)"
    "0 < bestBid (getStats b) \<Longrightarrow>
      float_sample x ''lob_orderbook_best_bid_price'' s (bestBid (getStats b)) \<in> set (samples now rss x ms books None)"
proof -
  have m: "(s, f m) \<in> set (map (\<lambda>(s, m). (s, f m)) ms)" for f :: "metrics \<Rightarrow> rat" using assms(1) by force
  have b: "(s, f (getStats b)) \<in> set (map (\<lambda>(s, b). (s, f (getStats b))) books)" for f :: "book_stats \<Rightarrow> rat" using assms(2) by force
  show "float_sample x ''lob_ofi_value'' s (unscaled (ofiAccumulator m)) \<in> set (samples now rss x ms books None)"
    using family_mem [OF m [of "\<lambda>m. unscaled (ofiAccumulator m)"]] by (simp add: samples_def)
  show "float_sample x ''lob_messages_total'' s (int_double (msgCount m)) \<in> set (samples now rss x ms books None)"
    using family_mem [OF m [of "\<lambda>m. int_double (msgCount m)"]] by (simp add: samples_def)
  show "float_sample x ''lob_orderbook_asks_count'' s (int_double (int (asksCount (getStats b)))) \<in> set (samples now rss x ms books None)"
    using family_mem [OF b [of "\<lambda>b. int_double (int (asksCount b))"]] by (simp add: samples_def)
  show "float_sample x ''lob_orderbook_bids_count'' s (int_double (int (bidsCount (getStats b)))) \<in> set (samples now rss x ms books None)"
    using family_mem [OF b [of "\<lambda>b. int_double (int (bidsCount b))"]] by (simp add: samples_def)
  have p: "(s, f (getStats b)) \<in> set (book_prices f books)" if "0 < f (getStats b)" for f
    using b [of f] that by (simp add: book_prices_def)
  show "0 < bestAsk (getStats b) \<Longrightarrow>
      float_sample x ''lob_orderbook_best_ask_price'' s (bestAsk (getStats b)) \<in> set (samples now rss x ms books None)"
    using family_mem [OF p [of bestAsk]] by (simp add: samples_def)
  show "0 < bestBid (getStats b) \<Longrightarrow>
      float_sample x ''lob_orderbook_best_bid_price'' s (bestBid (getStats b)) \<in> set (samples now rss x ms books None)"
    using family_mem [OF p [of bestBid]] by (simp add: samples_def)
qed

lemma scrape_reads:
  "\<exists>body. scrape exchanges now rss L ''/metrics'' = Some (body, ''text/plain; version=0.0.4; charset=utf-8'') \<and>
     readExposition body = Some (all_samples (Some (srv_getStats (lob_server L))) (metricsViews exchanges now rss L))"
  by (simp add: scrape_def metricsRoutes_def served_text_reads_back)

lemma scraped_symbol:
  assumes ex: "(exch, os, bs) \<in> set exchanges" "s \<in> set os" "s \<in> set bs" and at: "metricsAt exch L s = Some m" "booksAt exch L s = Some b"
    and x: "\<And>ms books. (s, m) \<in> set ms \<Longrightarrow> (s, b) \<in> set books \<Longrightarrow> x \<in> set (samples (now exch) (rss exch) exch ms books None)"
  shows "x \<in> set (all_samples st (metricsViews exchanges now rss L))"
proof (rule samples_of_view)
  let ?v = "\<lparr>view_name = exch, view_metrics = entries (metricsAt exch L) os, view_books = entries (booksAt exch L) bs, view_now = now exch, view_rss = rss exch\<rparr>"
  show "?v \<in> set (metricsViews exchanges now rss L)" using ex(1) by (force simp: metricsViews_def)
  show "x \<in> set (samples (view_now ?v) (view_rss ?v) (view_name ?v) (view_metrics ?v) (view_books ?v) None)"
    using x entries_mem [of s os "metricsAt exch L" m] entries_mem [of s bs "booksAt exch L" b] ex at by simp
qed

lemma feed_booksAt: "feed_live exch src s L b m \<Longrightarrow> booksAt exch L s = Some b"
  using binance_live.live_book kraken_live.live_book by (auto simp: feed_live_def booksAt_def split: if_splits)

text \<open>The samples of a symbol in the answer.\<close>

lemma scraped_samples:
  assumes ex: "(exch, os, bs) \<in> set exchanges" "s \<in> set os" "s \<in> set bs" and at: "metricsAt exch L s = Some m" "booksAt exch L s = Some b"
  obtains body ss where "scrape exchanges now rss L ''/metrics'' = Some (body, ''text/plain; version=0.0.4; charset=utf-8'')" "readExposition body = Some ss"
    "float_sample exch ''lob_ofi_value'' s (unscaled (ofiAccumulator m)) \<in> set ss"
    "float_sample exch ''lob_orderbook_asks_count'' s (int_double (int (asksCount (getStats b)))) \<in> set ss"
    "float_sample exch ''lob_orderbook_bids_count'' s (int_double (int (bidsCount (getStats b)))) \<in> set ss"
    "0 < bestAsk (getStats b) \<Longrightarrow> float_sample exch ''lob_orderbook_best_ask_price'' s (bestAsk (getStats b)) \<in> set ss"
    "0 < bestBid (getStats b) \<Longrightarrow> float_sample exch ''lob_orderbook_best_bid_price'' s (bestBid (getStats b)) \<in> set ss"
proof -
  obtain body where body: "scrape exchanges now rss L ''/metrics'' = Some (body, ''text/plain; version=0.0.4; charset=utf-8'')"
    "readExposition body = Some (all_samples (Some (srv_getStats (lob_server L))) (metricsViews exchanges now rss L))"
    using scrape_reads by blast
  note mem = scraped_symbol [OF ex at]
  show thesis
    by (rule that [OF body mem [OF samples_of_symbol(1)] mem [OF samples_of_symbol(3)] mem [OF samples_of_symbol(4)]
          mem [OF samples_of_symbol(5)] mem [OF samples_of_symbol(6)]]) assumption+
qed

end
