(* ===== verification/Example_Process.thy ===== *)
theory Example_Process
  imports Lob_Scrape Binance_Properties Kraken_Properties Subscriber_Properties
begin

text \<open>A process for the instances of its properties: both adapters just started, or a live book with a subscriber.\<close>

definition demo_ptrs :: "string \<rightharpoonup> (string \<times> string)" where
  "demo_ptrs = [''binance.BTC-USDT'' \<mapsto> (''binance'', ''BTC-USDT''), ''kraken.BTC-USD'' \<mapsto> (''kraken'', ''BTC-USD'')]"

definition demo_lob :: lob where
  "demo_lob = lob_start demo_feed kr_demo 10 demo_ptrs"

lemma demo_lob_ok: "lob_ok demo_lob"
  unfolding demo_lob_def by (rule lob_start_ok [OF demo_start demo_fresh kr_demo_start kr_demo_fresh])

text \<open>The Binance adapter with a snapshot, and one client on its stream.\<close>

definition demo_live_adapter :: binance where
  "demo_live_adapter = demo_feed\<lparr>bin_books := [demo_symbol \<mapsto> demo_book],
     bin_metrics := [demo_symbol \<mapsto> newMetrics\<lparr>liveReady := True\<rparr>], bin_canonical := [''BTCUSDT'' \<mapsto> demo_symbol]\<rparr>"

definition demo_subscribed :: server where
  "demo_subscribed = (newServer 10)\<lparr>clients := [(''a'', \<lparr>hasWs = True, streams = {''binance.BTC-USDT''}\<rparr>)]\<rparr>"

definition demo_live :: lob where
  "demo_live = \<lparr>lob_binance = prepared demo_live_adapter, lob_kraken = kr_prepared kr_demo, lob_server = demo_subscribed, lob_ptrs = demo_ptrs\<rparr>"

definition demo_change :: update_msg where
  "demo_change = \<lparr>m_U = 8, m_u = 9, m_a = [(''0.00000011'', ''0.00000001''), (''0.00000012'', ''0'')], m_b = [(''0.00000011'', ''0.00000009'')]\<rparr>"

lemma demo_key: "streamKey ''binance'' demo_symbol = ''binance.BTC-USDT''"
  by (simp add: streamKey_def demo_symbol_def)

lemma demo_book_small: "book_small demo_book"
proof -
  have s: "side_inv (sideLadder s demo_book)" for s using book_invD(2) [OF demo_book_inv] .
  have "ladder_small (sideLadder s demo_book)" for s
    using side_invD [OF s [of s]] by (auto simp: ladder_small_def small_def)
  from this [of True] this [of False] show ?thesis
    by (simp add: book_small_sides sideLadder_def) (simp add: demo_book_def view_small_def small_def amount_def int_limits)
qed

lemma demo_live_ok: "lob_ok demo_live"
proof -
  have "book_ok demo_book" using demo_book_small demo_ids(1) by (simp add: book_ok_def)
  moreover have "snapshotApplied demo_book" by (simp add: demo_book_def)
  ultimately have "bin_ok demo_live_adapter"
    by (simp add: bin_ok_def demo_live_adapter_def demo_feed_fields has_book_def newMetrics_def)
  then have "sys_ok (prepared demo_live_adapter)" by (simp add: sys_ok_def prepared_def)
  then show ?thesis using demo_lob_ok by (simp add: lob_ok_def demo_lob_def lob_start_def demo_live_def srv_inv_def demo_subscribed_def)
qed

lemma demo_live_feed: "live_feed (adp (lob_binance demo_live)) ''BTCUSDT@depth'' demo_symbol demo_book (newMetrics\<lparr>liveReady := True\<rparr>)"
proof -
  have "streamToSymbol ''BTCUSDT@depth'' = ''BTCUSDT''" by code_simp
  moreover have "hasCallback demo_feed" by (simp add: demo_feed_def prepareStart_def demo_books_def demo_metrics_def Let_def demo_new_def)
  ultimately show ?thesis by (simp add: live_feed_def demo_live_def prepared_def demo_live_adapter_def)
qed

lemma demo_continues: "continues demo_book demo_change [(11, 1), (12, 0)] [(11, 9)]"
proof -
  have "map_exn parseLevel (m_a demo_change) = Inr [(11, 1), (12, 0)]" "map_exn parseLevel (m_b demo_change) = Inr [(11, 9)]"
    by (simp_all add: demo_change_def) code_simp+
  then show ?thesis using demo_facts by (simp add: continues_def) (simp add: demo_change_def in_ll_def int_limits)
qed

lemma demo_client: "subscribed ''a'' ''binance.BTC-USDT'' (lob_server demo_live)" "srv_inv (lob_server demo_live)"
  "alive demo_env ''a''" "bufferedAmount demo_env ''a'' \<le> kBackpressureLimit" "lob_ptrs demo_live ''binance.BTC-USDT'' = Some (''binance'', demo_symbol)"
  by (simp_all add: demo_live_def demo_subscribed_def subscribed_def srv_inv_def demo_env_def demo_ptrs_def demo_symbol_def)

lemma demo_times: "in_ll 4000" "in_ll (wall demo_time - 4000)"
  by (simp_all add: demo_time_def in_ll_def int_limits)

text \<open>The Kraken adapter with a snapshot, and one client on its stream.\<close>

definition kr_demo_followed :: lob where
  "kr_demo_followed = \<lparr>lob_binance = prepared demo_feed, lob_kraken = kr_prepared kr_demo_live,
     lob_server = (newServer 10)\<lparr>clients := [(''a'', \<lparr>hasWs = True, streams = {''kraken.BTC-USD''}\<rparr>)]\<rparr>, lob_ptrs = demo_ptrs\<rparr>"

lemma kr_demo_key: "streamKey ''kraken'' ''BTC-USD'' = ''kraken.BTC-USD''"
  by (simp add: streamKey_def)

lemma kr_demo_live_feed: "kr_live_feed (kr (lob_kraken kr_demo_followed)) ''BTC/USD'' ''BTC-USD'' demo_book (newMetrics\<lparr>lastUpdateTimeMs := 0\<rparr>)"
  by (simp add: kr_live_feed_def kr_demo_followed_def kr_prepared_def kr_demo_live_def kr_demo_fields kr_demo_name demo_book_def)

lemma kr_demo_continues: "kr_continues demo_book [(12, 0)] [(11, 9)]"
proof -
  have "windows_kept demo_book [(12, 0)] [(11, 9)]"
    using demo_windowed by (intro windowed_windows_kept [OF demo_book_inv]) (simp_all add: windowed_def)
  then show ?thesis using demo_book_inv demo_levels_ok by (simp add: kr_continues_def exact_level_def) (simp add: levels_ok_def)
qed

lemma kr_demo_client: "subscribed ''a'' ''kraken.BTC-USD'' (lob_server kr_demo_followed)" "srv_inv (lob_server kr_demo_followed)"
  "alive demo_env ''a''" "bufferedAmount demo_env ''a'' \<le> kBackpressureLimit" "lob_ptrs kr_demo_followed ''kraken.BTC-USD'' = Some (''kraken'', ''BTC-USD'')"
  by (simp_all add: kr_demo_followed_def subscribed_def srv_inv_def demo_env_def demo_ptrs_def)

text \<open>A run of the live process: a message, then another client connects.\<close>

definition demo_message :: lob_event where
  "demo_message = FromBinance (Ws demo_time (WsMessage (Some (streamMessage ''BTCUSDT@depth'' 4000 demo_change)) None))"

lemma demo_message_safe: "lob_event_safe demo_message"
proof -
  note c = demo_continues [unfolded continues_def]
  have "sjUpdate (streamMessage ''BTCUSDT@depth'' 4000 demo_change) = Inr (4000, m_U demo_change, m_u demo_change, [(11, 1), (12, 0)], [(11, 9)])"
    using sjUpdate_message [OF demo_times(1)] c by simp
  then have "fast_safe demo_time (streamMessage ''BTCUSDT@depth'' 4000 demo_change)"
    using c demo_times(2) by (simp add: fast_safe_def feed_ok_def amount_def int_limits)
  then show ?thesis by (simp add: lob_event_safe_def demo_message_def event_safe_def ws_safe_def)
qed

lemma demo_feed_run:
  "\<exists>sent L'. feed_run 5 ''BTCUSDT@depth'' demo_symbol demo_live [(demo_env, demo_message), (demo_env, FromClient (action.Connect ''b''))] sent L'"
proof -
  obtain ds b' where u: "applyUpdateCore demo_book (m_U demo_change) (m_u demo_change) [(11, 1), (12, 0)] [(11, 9)] Genuine
      = Some (\<lparr>success = True, deltas = ds\<rparr>, b')"
    by (rule live_update [OF demo_continues]) blast
  obtain sent V' where sent: "broadcastUpdate demo_env ''binance'' demo_symbol ds 4000 (fst (batchOfi ds)) (lob_server demo_live) = (sent, V')"
    by (cases "broadcastUpdate demo_env ''binance'' demo_symbol ds 4000 (fst (batchOfi ds)) (lob_server demo_live)")
  obtain L1 where s1: "lob_step 5 demo_env demo_live demo_message sent L1"
    unfolding demo_message_def by (rule live_step [OF demo_live_feed demo_continues demo_times u sent]) blast
  have "lob_ok L1" by (rule lob_step_kept(1) [OF s1 demo_live_ok demo_message_safe])
  then obtain sent' L2 where s2: "lob_step 5 demo_env L1 (FromClient (action.Connect ''b'')) sent' L2"
    using lob_step_total [of L1 "FromClient (action.Connect ''b'')" 5 demo_env]
    by (auto simp: lob_event_safe_def client_action_def lob_enabled_def)
  have "feed_run 5 ''BTCUSDT@depth'' demo_symbol L1 [(demo_env, FromClient (action.Connect ''b''))] (sent' @ []) L2"
    by (rule feed_run.feed_beside [OF _ s2 feed_run.feed_done]) (simp add: beside_def)
  from feed_run.feed_message [OF _ demo_continues demo_times s1 [unfolded demo_message_def] this] demo_live_feed
  show ?thesis unfolding live_feed_def demo_message_def by blast
qed

text \<open>
  The same process step by step: the message, a request while its callback is under way, the delivery.
\<close>

definition demo_request :: lob_event where
  "demo_request = FromClient (Request ''a'' 0 (Some (JObject [(''op'', JString ''subscribe''), (''streams'', JArray [JString ''binance.BTC-USDT.book''])])))"

lemma demo_request_parsed:
  "parseClientMessage (Some (JObject [(''op'', JString ''subscribe''), (''streams'', JArray [JString ''binance.BTC-USDT.book''])]))
     = Some \<lparr>op = ''subscribe'', req_streams = [''binance.BTC-USDT.book'']\<rparr>"
  by code_simp

lemma demo_asks: "asks_for ''binance.BTC-USDT'' ''binance.BTC-USDT.book''"
proof -
  have "parseStream ''binance.BTC-USDT.book'' = Some (''binance'', ''BTC-USDT'')" by (simp add: parseStream_iff)
  then show ?thesis by (simp add: asks_for_def streamKey_def)
qed

lemma demo_traffic:
  "\<exists>r b'. applyUpdateCore demo_book (m_U demo_change) (m_u demo_change) [(11, 1), (12, 0)] [(11, 9)] Genuine = Some (r, b') \<and> traffic (deltas r) = 29"
proof -
  have "map_option (\<lambda>(r, b). traffic (deltas r)) (applyUpdateCore demo_book 8 9 [(11, 1), (12, 0)] [(11, 9)] Genuine) = Some 29" by code_simp
  then show ?thesis by (auto simp: demo_change_def)
qed

lemma demo_message_step:
  obtains ds F where "fine_step 5 demo_env (idle demo_live) (Handle demo_message) [] [(''binance'', demo_symbol, ds, 4000)] F"
    "traffic ds = 29" "bin_due F = [(demo_symbol, ds, 4000)]" "lob_server (proc F) = lob_server demo_live"
proof -
  obtain ds b' where u: "applyUpdateCore demo_book (m_U demo_change) (m_u demo_change) [(11, 1), (12, 0)] [(11, 9)] Genuine
      = Some (\<lparr>success = True, deltas = ds\<rparr>, b')"
    by (rule live_update [OF demo_continues]) blast
  have tr: "traffic ds = 29" using demo_traffic u by auto
  obtain A where h: "handleWsMessage demo_time (WsMessage (Some (streamMessage ''BTCUSDT@depth'' 4000 demo_change)) None)
      (adp (lob_binance demo_live)) = Some ([(demo_symbol, ds, 4000)], A)"
    using live_handled [OF demo_live_feed demo_continues demo_times u, of None] by blast
  have calls: "bin_calls (map (\<lambda>(s, ds, ts). Callback s ds ts) [(demo_symbol, ds, 4000)]) = [(demo_symbol, ds, 4000)]"
    by (rule bin_calls_callbacks)
  have st: "bin_step 5 (lob_binance (proc (idle demo_live))) (Ws demo_time (WsMessage (Some (streamMessage ''BTCUSDT@depth'' 4000 demo_change)) None))
      (map (\<lambda>(s, ds, ts). Callback s ds ts) [(demo_symbol, ds, 4000)]) ((lob_binance demo_live)\<lparr>adp := A\<rparr>)"
    using bin_step.ws [OF h, of 5] by (simp add: idle_def)
  have "fine_step 5 demo_env (idle demo_live) (Handle demo_message) [] [(''binance'', demo_symbol, ds, 4000)]
      ((idle demo_live)\<lparr>proc := (proc (idle demo_live))\<lparr>lob_binance := (lob_binance demo_live)\<lparr>adp := A\<rparr>\<rparr>,
        bin_due := bin_due (idle demo_live) @ [(demo_symbol, ds, 4000)]\<rparr>)"
    using fine_step.fine_binance [OF st, of demo_env] by (simp only: calls demo_message_def) (simp add: idle_def)
  then show thesis by (rule that [OF _ tr]) (simp_all add: idle_def)
qed

lemma demo_request_run:
  obtains ds F1 sent F2 sent' F3 where
    "fine_step 5 demo_env (idle demo_live) (Handle demo_message) [] [(''binance'', demo_symbol, ds, 4000)] F1" "traffic ds = 29"
    "fine_step 5 demo_env F1 (Handle demo_request) sent [] F2" "present ''a'' (lob_server (proc F1))"
    "fine_step 5 demo_env F2 (Deliver ''binance'') sent' [] F3" "bin_due F3 = []"
proof -
  obtain ds F1 where one: "fine_step 5 demo_env (idle demo_live) (Handle demo_message) [] [(''binance'', demo_symbol, ds, 4000)] F1"
    "traffic ds = 29" "bin_due F1 = [(demo_symbol, ds, 4000)]" "lob_server (proc F1) = lob_server demo_live"
    by (rule demo_message_step)
  have p: "present ''a'' (lob_server (proc F1))" by (simp add: one(4) present_def demo_live_def demo_subscribed_def)
  have ok: "lob_ok (proc F1)" using fine_step_kept [OF one(1)] demo_live_ok demo_message_safe by (simp add: idle_def fine_safe_def)
  define a where "a = Request ''a'' 0 (Some (JObject [(''op'', JString ''subscribe''), (''streams'', JArray [JString ''binance.BTC-USDT.book''])]))"
  obtain sent V where v: "srv_step demo_env (liveBooks (proc F1)) a (lob_server (proc F1)) = Some (sent, V)"
    using srv_step_total [of "liveBooks (proc F1)" demo_env a] liveBooks_small [OF ok] by blast
  have two: "fine_step 5 demo_env F1 (Handle demo_request) sent [] (F1\<lparr>proc := (proc F1)\<lparr>lob_server := V\<rparr>\<rparr>)"
    using fine_step.fine_client [OF _ v, of 5] by (simp add: demo_request_def a_def client_action_def)
  let ?F2 = "F1\<lparr>proc := (proc F1)\<lparr>lob_server := V\<rparr>\<rparr>"
  obtain sent' M W where u: "updateCallback demo_env ''binance'' (demo_symbol, ds, 4000) (bin_metrics (adp (lob_binance (proc ?F2))), lob_server (proc ?F2)) = (sent', M, W)"
    by (cases "updateCallback demo_env ''binance'' (demo_symbol, ds, 4000) (bin_metrics (adp (lob_binance (proc ?F2))), lob_server (proc ?F2))")
  have "bin_due ?F2 = [(demo_symbol, ds, 4000)]" by (simp add: one(3))
  from that [OF one(1,2) two p fine_step.fine_deliver_binance [OF this u]] show thesis by simp
qed

lemma demo_attends:
  "attends ''binance'' ''BTCUSDT@depth'' demo_symbol (idle demo_live) (Handle demo_message)"
  "attends exch src s F (Handle demo_request)" "attends exch src s F (Deliver x)"
proof -
  have "bin_books (adp (lob_binance demo_live)) demo_symbol = Some demo_book" using demo_live_feed by (simp add: live_feed_def)
  then show "attends ''binance'' ''BTCUSDT@depth'' demo_symbol (idle demo_live) (Handle demo_message)"
    using demo_continues demo_times unfolding attends_def demo_message_def bin_attends_def bin_live_message_def by (fastforce simp: idle_def)
qed (simp_all add: attends_def demo_request_def)

lemma demo_request_keeps: "fine_keeps_up ''a'' (demo_env, Handle demo_request)" "fine_keeps_up ''a'' (demo_env, Deliver x)"
  "fine_safe (Handle demo_message)" "fine_safe (Handle demo_request)" "fine_safe (Deliver x)"
  using demo_message_safe demo_request_parsed
  by (simp_all add: fine_keeps_up_def keeps_def demo_request_def demo_env_def fine_safe_def lob_event_safe_def client_action_def)

end
