(* ===== verification/Binance_Race.thy ===== *)
theory Binance_Race
  imports Example_Process
begin

text \<open>
  The two halves of the critical section of a snapshot attempt, and what comes of a message
  between them: the path of a live message (\<open>binance_adapter.cpp:295-368\<close>) does not take
  \<open>bufferMutex\<close> before it touches the book, so it can run while \<open>fetchAndApplySnapshot\<close> is
  between \<open>applySnapshot\<close> and the end of the replay. In the step relation of the adapter an
  attempt is one step; here it is taken apart.
\<close>

section \<open>An attempt in two steps\<close>

text \<open>\<open>applySnapshot\<close>; then the replay of the buffer on the book as it is by then, and the flag.\<close>

definition loadStep :: "json \<Rightarrow> string \<Rightarrow> binance \<Rightarrow> (bool \<times> binance) option" where
  "loadStep snapshot canonical A = (case bin_books A canonical of
       None \<Rightarrow> None
     | Some b \<Rightarrow> (case applySnapshotJson b snapshot of
           None \<Rightarrow> None | Some (Inl _) \<Rightarrow> Some (False, A) | Some (Inr b1) \<Rightarrow> Some (True, putBook canonical b1 A)))"

definition finishStep :: "string \<Rightarrow> binance \<Rightarrow> (bool \<times> binance) option" where
  "finishStep canonical A = (case bin_books A canonical of
       None \<Rightarrow> None
     | Some b1 \<Rightarrow>
          (case replayBuffer b1 (symbolBuffers A canonical) of
             None \<Rightarrow> None
           | Some (Inl _, b2) \<Rightarrow> Some (False, putBook canonical b2 A)
           | Some (Inr False, b2) \<Rightarrow>
               Some (False, (putBook canonical b2 A)\<lparr>symbolBuffers := (symbolBuffers A)(canonical := [])\<rparr>)
           | Some (Inr True, b2) \<Rightarrow>
               Some (True, (putBook canonical b2 A)
                 \<lparr>symbolBuffers := (symbolBuffers A)(canonical := []),
                  bin_metrics := (case bin_metrics A canonical of
                      None \<Rightarrow> bin_metrics A
                    | Some m \<Rightarrow> (bin_metrics A)(canonical \<mapsto> m\<lparr>liveReady := True\<rparr>))\<rparr>)))"

text \<open>Undisturbed, the two are the attempt.\<close>

lemma installSnapshot_steps:
  assumes "bin_books A s = Some b"
  shows "installSnapshot snapshot s b A = do { (ok, A1) \<leftarrow> loadStep snapshot s A; if ok then finishStep s A1 else Some (False, A1) }"
  using assms by (auto simp: installSnapshot_def loadStep_def finishStep_def split: option.splits sum.splits bool.splits)

section \<open>A live message in between\<close>

text \<open>
  The symbol is live and is fetched again (it was queued twice, as after a reconnect in the
  middle of a resync). A message with a gap arrives after the snapshot is loaded: it clears the
  book and the flag and queues the symbol; then the attempt sets the flag. The symbol is live
  with an empty book and no snapshot, until it is fetched a third time.
\<close>

definition race_gap :: update_msg where
  "race_gap = \<lparr>m_U = 90, m_u = 91, m_a = [], m_b = []\<rparr>"

lemma live_without_snapshot:
  "\<exists>A1 A2 A3. loadStep (snapshotJson \<lparr>s_lastUpdateId = 40, s_asks = [], s_bids = []\<rparr>) demo_symbol demo_live_adapter = Some (True, A1) \<and>
     handleWsMessage demo_time (WsMessage (Some (streamMessage ''BTCUSDT@depth'' 4000 race_gap)) None) A1 = Some ([], A2) \<and>
     finishStep demo_symbol A2 = Some (True, A3) \<and>
     is_live A3 demo_symbol \<and> \<not> has_book A3 demo_symbol \<and> demo_symbol \<in> set (resyncQueue A3)"
proof -
  let ?snap = "snapshotJson \<lparr>s_lastUpdateId = 40, s_asks = [], s_bids = []\<rparr>"
  obtain b1 where b1: "applySnapshotJson demo_book ?snap = Some (Inr b1)" "lastUpdateId b1 = 40"
  proof -
    have parse: "map_exn parseLevel [] = Inr []" by simp
    have "in_ll 40" by (simp add: in_ll_def int_limits)
    then have j: "applySnapshotJson demo_book ?snap = applySnapshot demo_book \<lparr>s_lastUpdateId = 40, s_asks = [], s_bids = []\<rparr>"
      by (intro applySnapshotJson_msg) simp
    obtain b' where "loadSnapshot demo_book 40 [] [] = Some b'" "lastUpdateId b' = 40"
      using loadSnapshot_law [OF demo_book_inv, of "[]" "[]" 40] by auto
    then show thesis using j by (intro that [of b']) (simp_all add: applySnapshot_def)
  qed
  define A1 where "A1 = putBook demo_symbol b1 demo_live_adapter"
  have load: "loadStep ?snap demo_symbol demo_live_adapter = Some (True, A1)"
    using b1(1) by (simp add: loadStep_def A1_def demo_live_adapter_def)
  have stream: "streamToSymbol ''BTCUSDT@depth'' = ''BTCUSDT''" by code_simp
  have sj: "sjUpdate (streamMessage ''BTCUSDT@depth'' 4000 race_gap) = Inr (4000, 90, 91, [], [])"
    using sjUpdate_message [of 4000 race_gap "[]" "[]"] by (simp add: race_gap_def in_ll_def int_limits)
  define m where "m = newMetrics\<lparr>liveReady := True\<rparr>"
  define A2 where "A2 = snd (finishUpdate demo_time demo_symbol 4000 \<lparr>success = False, deltas = []\<rparr> b1 (m\<lparr>lastEventLagMs := 1000\<rparr>)
    (putMetrics demo_symbol (m\<lparr>lastEventLagMs := 1000\<rparr>) (A1\<lparr>lastActivity := 1000\<rparr>)))"
  have core: "applyUpdateCore b1 90 91 [] [] Genuine = Some (\<lparr>success = False, deltas = []\<rparr>, b1)"
    using b1(2) by (simp add: applyUpdateCore_def ll_Some in_ll_def int_limits)
  have route: "routeMessage (Some (streamMessage ''BTCUSDT@depth'' 4000 race_gap)) (A1\<lparr>lastActivity := 1000\<rparr>)
      = Some (streamMessage ''BTCUSDT@depth'' 4000 race_gap, demo_symbol, b1, m)"
    by (simp add: routeMessage_def streamMessage_def sjField_def json_access sjString_def stream A1_def demo_live_adapter_def m_def)
  have "in_ll 1000" by (simp add: in_ll_def int_limits)
  then have message: "handleWsMessage demo_time (WsMessage (Some (streamMessage ''BTCUSDT@depth'' 4000 race_gap)) None) A1 = Some ([], A2)"
    using route core by (simp add: handleWsMessage_def handleMessage_def m_def fastPath_def sj A2_def finishUpdate_def demo_time_def Let_def ll_def)
  have A2: "bin_books A2 demo_symbol = Some (book_clear b1)" "symbolBuffers A2 demo_symbol = []"
    "resyncQueue A2 = resyncQueue A1 @ [demo_symbol]" "\<exists>m. bin_metrics A2 demo_symbol = Some m"
    by (simp_all add: A2_def finishUpdate_def requeueSymbol_def)
  then obtain m2 where m2: "bin_metrics A2 demo_symbol = Some m2" by blast
  define A3 where "A3 = (putBook demo_symbol (book_clear b1) A2)\<lparr>symbolBuffers := (symbolBuffers A2)(demo_symbol := []),
    bin_metrics := (bin_metrics A2)(demo_symbol \<mapsto> m2\<lparr>liveReady := True\<rparr>)\<rparr>"
  have finish: "finishStep demo_symbol A2 = Some (True, A3)"
    by (simp add: finishStep_def A2 m2 A3_def)
  have "is_live A3 demo_symbol" "\<not> has_book A3 demo_symbol" "demo_symbol \<in> set (resyncQueue A3)"
    by (simp_all add: A3_def is_live_def has_book_def book_clear_def A2)
  with load message finish show ?thesis by blast
qed

end
