(* ===== verification/Spec2Isabelle.thy ===== *)
theory Spec2Isabelle
  imports Book_Properties Ladder_Properties Number_Properties Symbol_Properties Subscriber_Properties Binance_Properties
    Kraken_Properties Configuration_Properties Prometheus_Properties Console Binance_Race
begin

text \<open>
  A model of LOB, a process that keeps limit order books of Binance and Kraken, publishes them
  to web socket subscribers and exposes metrics to Prometheus, with the theorems that make it
  correct. All sources are under \<open>src/\<close>.

  \<^bold>\<open>The program.\<close> \<open>main.cpp\<close> reads a configuration, builds a book and metrics for every
  symbol of every exchange, and starts one adapter per exchange, the metrics server and the
  subscriber server. An adapter (\<open>binance_adapter.cpp\<close>, \<open>kraken_adapter.cpp\<close>) reads messages of
  a socket, keeps the books (\<open>order_book.cpp\<close>, on two ladders of \<open>price_ladder.cpp\<close> and two views
  of the best levels) in step with the exchange, and calls the update callback of \<open>main.cpp\<close>
  with the level deltas of each update. The callback computes the order-flow imbalance of the
  deltas, broadcasts them through \<open>subscriber_server.hpp\<close>, and adds the imbalance to the metrics,
  which \<open>prometheus_format.hpp\<close> prints.

  \<^bold>\<open>Theories and sources.\<close> Definitions have the names of the functions they translate.
  \<^item> \<open>Prelude\<close>: exceptions as sums (\<open>exn\<close>), faults as \<open>None\<close>, \<open>long long\<close> as \<open>int\<close> with the range
    check \<open>ll\<close>, and lemmas on lists and folds that the components share.
  \<^item> \<open>Safe_Arithmetic\<close> (\<open>safe_arithmetic.hpp\<close>, \<open>utils/checked_arith.hpp\<close>), \<open>Decimal\<close>
    (\<open>decimal.hpp\<close>, \<open>formatScaled\<close>), \<open>Doubles\<close> and \<open>Stream_Text\<close> (rounding to doubles and the texts
    printed for them), \<open>Timestamps\<close> (\<open>isoTimestampToMs\<close>), \<open>Json\<close> (values of the parsers and their
    accessors), \<open>Symbols\<close> (\<open>symbol_normalizer.hpp\<close>, \<open>binance_utils.hpp\<close>, \<open>clampBookDepth\<close>).
  \<^item> \<open>Price_Ladder\<close> (\<open>price_ladder.hpp\<close>, \<open>.cpp\<close>) with \<open>Ladder_Laws\<close> and \<open>Ladder_Scan\<close>: the array of
    quantities, its moving window and the walks over it.
  \<^item> \<open>Ofi_Types\<close> (\<open>ofi_types.hpp\<close>), \<open>Side_View\<close> (\<open>updateOfiView\<close>, \<open>rebuildOfiSide\<close>, in the locales
    \<open>price_order\<close> and \<open>price_side\<close>, which \<open>Book_Side\<close> interprets for both sides), \<open>Order_Book\<close>
    (\<open>order_book.hpp\<close>, \<open>.cpp\<close>) with \<open>Book_Side\<close>, \<open>Book_Laws\<close>, \<open>Book_Updates\<close>, \<open>Book_Safety\<close> and \<open>Book_Json\<close>.
    \<open>Book_Laws\<close> has the abstract side: a map with a window (\<open>window_map\<close>), on which one level acts
    by \<open>w_level\<close>; \<open>level_change_refines\<close> shows that \<open>applyLevelChange\<close> does this and nothing else.
  \<^item> \<open>Metrics\<close> (\<open>metrics.hpp\<close>), \<open>Ofi_Callback\<close> (the callback of \<open>main.cpp\<close>), \<open>Prometheus\<close> with
    \<open>Prometheus_Laws\<close> (\<open>prometheus_format.hpp\<close>, \<open>metrics_server.hpp\<close>).
  \<^item> \<open>Subscriber_Protocol\<close> and \<open>Subscriber_Server\<close> (\<open>subscriber_protocol.hpp\<close>, \<open>subscriber_server.hpp\<close>):
    requests, snapshots, broadcasts and sequence numbers, with the handlers as a machine.
  \<^item> \<open>Binance_Adapter\<close> (the message handler and the snapshots), \<open>Binance_System\<close> (the threads of the
    adapter as the step relation \<open>bin_step\<close>), \<open>Binance_Laws\<close>, \<open>Binance_Run\<close>, \<open>Binance_Recovery\<close>,
    \<open>Binance_Start\<close>; \<open>Kraken_Adapter\<close>, \<open>Kraken_Laws\<close>, \<open>Kraken_Run\<close> likewise (\<open>kr_step\<close>); \<open>Watchdog\<close>, a
    locale for the watchdogs of both. \<open>Feed_Shape\<close> says which messages of the two feeds are well-formed,
    by keys, lengths and ranges alone, and that none of them faults; \<open>Binance_Race\<close> takes the snapshot
    attempt of Binance apart and shows what a live message in its middle does.
  \<^item> \<open>Configuration\<close> and \<open>Program_Start\<close>: \<open>main\<close> up to its monitoring loop; \<open>Console\<close>: what the loop
    and \<open>printOrderBook\<close> print.
  \<^item> \<open>Lob_System\<close>: the whole process as the step relation \<open>lob_step\<close>; \<open>Lob_Delivery\<close> and
    \<open>Lob_Kraken\<close>: the way of one message to a subscriber; \<open>Lob_Follow\<close>: that of a series. What \<open>main\<close>
    relies on in \<open>i_exchange_adapter.hpp\<close> is the locale \<open>exchange_adapter\<close>, and \<open>followed_feed\<close>
    of \<open>Lob_Feeds\<close> extends it to a feed that a client can follow; both are interpreted for both adapters.
  \<^item> \<open>Lob_Fine\<close>: the process with handlers, callbacks and clients as steps of their own
    (\<open>fine_step\<close>), of which every run of \<open>lob_step\<close> is a run; \<open>Lob_Copy\<close>: the copy that a client keeps of
    all it is sent, and when it is in step with a book; \<open>Lob_Scrape\<close>: what the metrics server answers
    while the process runs. This theory has the properties of the whole.
  \<^item> \<open>Book_Properties\<close>, \<open>Ladder_Properties\<close>, \<open>Number_Properties\<close>, \<open>Symbol_Properties\<close>,
    \<open>Subscriber_Properties\<close>, \<open>Binance_Properties\<close>, \<open>Kraken_Properties\<close>, \<open>Configuration_Properties\<close>,
    \<open>Prometheus_Properties\<close>: the properties of the components, each with an instance;
    \<open>Example_Book\<close> and \<open>Example_Process\<close> hold the data of the instances.

  \<^bold>\<open>What is shown.\<close> The ladder is the map from ticks to quantities inside its window. A view is
  exactly the best levels of its side. An update overwrites, drops or moves the window by the levels of
  the message in order; while no window of a side that holds levels moves, its deltas account
  for the viewed volume and replay on a copy of the book. Gaps are refused, and no update with prices from 0
  to \<open>2^60\<close> and quantities from 0 makes it fault. On well-formed events the adapters never get stuck;
  they lose no symbol, recover when the exchange answers, and discard everything at a reconnect. Decimal
  text, timestamps, stream names and the exposition read back. The configuration is
  accepted only when valid, and every way out of \<open>main\<close> stops what it started. Of the
  process: a subscriber that keeps up gets every update once. While the feed of a symbol is continued
  and moves no window, the subscriber has, from its request on, a true copy of
  the book up to the callbacks under way; the accumulators and these callbacks together hold
  exactly the order flow of the book, and a scrape shows it.

  \<^bold>\<open>Granularity.\<close> A step of \<open>lob_step\<close> is one handler call with its callbacks, one attempt of a
  thread or one tick; steps of all threads and clients interleave freely. In \<open>fine_step\<close> a
  callback is a step of its own, since the adapters release the locks of books and metrics
  before it: a request can come between the update of a book and its broadcast, and the
  thread of a socket takes its next message when its callbacks have returned. A handler of
  Kraken applies all elements of a message before the first callback is due, while the program
  alternates. The server sends after it has released its lock; the steps have the order of the
  locks, which is that of the sequence numbers. A snapshot can be overtaken by an update
  with a higher number on the way to the socket, so that a client has to put the two in order (\<open>late_snapshot\<close>).
  A scrape reads all metrics at one moment, while the program loads them one by one.
  Mutexes have no model of their own. Where the program holds one, the critical section lies inside
  a step. One interleaving of the program is therefore not one of these runs: the path of a live message
  (\<open>binance_adapter.cpp:295-368\<close>) holds no \<open>bufferMutex\<close> and can run between \<open>applySnapshot\<close> and the flag of
  a snapshot attempt for the same symbol (\<open>binance_adapter.cpp:115-129\<close>), while here a message and
  an attempt are each one step. It takes a symbol that is live and attempted at once, one that was queued
  twice. \<open>Binance_Race\<close> has the attempt as two steps (\<open>installSnapshot_steps\<close>) and a run that ends
  with the symbol live on a cleared book (\<open>live_without_snapshot\<close>). The operations of a book do run one at a time
  (each takes the mutex of the book), and in whatever order they follow each other none of them
  faults on well-formed arguments (\<open>book_ops_never_fault\<close> in \<open>Feed_Shape\<close>).

  \<^bold>\<open>Parameters and bounds.\<close> The JSON parsers, the sockets, the REST service, the HTTP server, the
  clocks and \<open>/proc\<close> are not in the repository: parsed values, responses, instants, live
  connections and queued bytes are arguments of the steps. A number of a JSON text is an integer or a
  rational; a double is the rational it stands for, so that minus zero is zero and there is
  neither infinity nor NaN. Differences of the steady clock are taken to be in range; the lag
  against the wall clock is checked. That nothing faults is shown for well-formed events
  (\<open>event_formed\<close>, \<open>kr_event_formed\<close>), which the shape of the message alone decides: objects have the
  keys that are read (a missing one is undefined behaviour of \<open>operator[]\<close> on a constant value,
  \<open>missing_key_undefined\<close>), levels both entries, prices lie between 0 and \<open>2^60\<close> (\<open>window_end_overflows\<close>
  has a fault beyond), quantities are not negative (\<open>negative_quantity_asserts\<close>), ids and lags fit
  \<open>long long\<close>. The other properties of runs have the weaker hypothesis that every event is read
  without a fault (\<open>event_safe\<close>, \<open>kr_event_safe\<close>). A feed that a client follows is one whose messages
  \<open>continues\<close> or \<open>kr_continues\<close> its book: no gap, positive multiples of the tick up to \<open>2^60\<close> (for Kraken
  below \<open>2^52\<close>, so that the doubles are exact), no negative quantity, and no level that moves the
  window of a side that holds levels, since the deltas do not tell what a moved window
  discards (\<open>window_move_unreported\<close>). Every loop is a total function: the walks and scans of the ladder by the distance to the end of
  the array, the retries and the resync worker (\<open>workerRun\<close>, which takes the sequence of the
  service's answers) by the queue and the attempts left. \<open>readLabels\<close> has
  the length of its line as fuel, and every label takes a character. The maps that are printed
  are lists in the order of iteration.

  \<^bold>\<open>Not modelled.\<close> The messages on the console other than those of \<open>Console\<close> and the crash
  handler, which change no state; the listening threads of
  the metrics server and the subscriber server, which are calls of
  libraries; allocation failure; the tests, the Python recorder and replayer, dashboards and
  build files.
\<close>

section \<open>The whole process\<close>

text \<open>Events of the process whose messages are well-formed, and requests of clients of any shape.\<close>

definition lob_event_formed :: "lob_event \<Rightarrow> bool" where
  "lob_event_formed e \<longleftrightarrow> (case e of FromBinance b \<Rightarrow> event_formed b | FromKraken k \<Rightarrow> kr_event_formed k | FromClient a \<Rightarrow> client_action a)"

lemma lob_event_formed_safe: "lob_event_formed e \<Longrightarrow> lob_event_safe e"
  by (cases e) (simp_all add: lob_event_formed_def lob_event_safe_def event_formed_safe kr_event_formed_safe)

text \<open>
  C5: From the start of both adapters and the server on, however the events of the exchanges
  and of the clients follow each other, each handled as one step, no well-formed event faults:
  every one that some thread waits for is handled, and every book that a subscription can name
  stays there. Well-formed are the messages of the exchanges (their objects have the keys that
  are read, levels have both entries, ids, event times and timestamps convert without overflow, prices
  are from 0 to \<open>2^60\<close> units and quantities not negative); the clients may send anything.
\<close>

theorem process_never_stuck:
  assumes "prepareStart symbols bs ms d A0 = (True, A)" "fresh symbols bs ms A0"
    "kr_prepare symbols' bs' ms' d' K0 = (True, K)" "kr_fresh bs' ms'"
    "lob_run n (lob_start A K depth ptrs) es sent L" "\<forall>(E, e) \<in> set es. lob_event_formed e"
  shows "(\<forall>E e. lob_event_formed e \<and> lob_enabled L e \<longrightarrow> (\<exists>sent' L'. lob_step n E L e sent' L')) \<and>
    dom (liveBooks L) = dom (liveBooks (lob_start A K depth ptrs)) \<and> srv_inv (lob_server L)"
proof -
  have safe: "\<forall>(E, e) \<in> set es. lob_event_safe e" using assms(6) lob_event_formed_safe by fastforce
  show ?thesis
    using lob_run_kept [OF assms(5) lob_start_ok [OF assms(1-4)] safe] lob_step_total [of L _ n] lob_event_formed_safe by (auto simp: lob_ok_def)
qed

lemma process_never_stuck_demo:
  "\<exists>sent L. lob_step 5 demo_env demo_lob (FromBinance (Ws demo_time (WsMessage (Some demo_update) (Some demo_update)))) sent L"
proof -
  have run: "lob_run 5 (lob_start demo_feed kr_demo 10 demo_ptrs) [] [] demo_lob" unfolding demo_lob_def by (rule lob_run.lob_nothing)
  have "lob_event_formed (FromBinance (Ws demo_time (WsMessage (Some demo_update) (Some demo_update))))"
    "lob_enabled demo_lob (FromBinance (Ws demo_time (WsMessage (Some demo_update) (Some demo_update))))"
    using demo_update_formed by (simp_all add: lob_event_formed_def lob_enabled_def enabled_def)
  with process_never_stuck [OF demo_start demo_fresh kr_demo_start kr_demo_fresh run] show ?thesis by simp
qed

text \<open>
  C6: A connection that stays subscribed to a stream and keeps up is sent every update of
  the stream, once and in order, whatever the adapters of both exchanges, their threads and
  the other clients do meanwhile: the sequence numbers it gets are those after the number
  the stream had, without a gap, up to the number it has then.
\<close>

theorem process_serves_subscribers:
  assumes "lob_run n L es sent L'" "lob_ok L" "\<forall>(E, e) \<in> set es. lob_event_safe e" "subscribed cid key (lob_server L)"
    "\<forall>e \<in> set es. keeps_up cid e"
  shows "subscribed cid key (lob_server L') \<and>
    (\<exists>k. seqs_of cid key sent = seqs_after (seqMap (lob_server L) key) k \<and>
      seqMap (lob_server L') key = (if k = 0 then seqMap (lob_server L) key else last (seqs_of cid key sent)))"
proof -
  have inv: "srv_inv (lob_server L)" using assms(2) by (simp add: lob_ok_def)
  obtain acts where run: "srv_run acts (lob_server L) = Some (sent, lob_server L')"
    and keep: "(\<forall>e \<in> set es. keeps_up cid e) \<longrightarrow> (\<forall>a \<in> set acts. keeps cid a)"
    using lob_run_kept [OF assms(1-3)] by blast
  obtain k where k: "subscribed cid key (lob_server L')" "seqs_of cid key sent = seqs_after (seqMap (lob_server L) key) k"
    "0 < k \<longrightarrow> seqMap (lob_server L') key = (seqMap (lob_server L) key + k) mod 18446744073709551616"
    "k = 0 \<longrightarrow> seqMap (lob_server L') key = seqMap (lob_server L) key"
    using run_seqs_mod [OF run inv assms(4)] keep assms(5) by blast
  then show ?thesis using seqs_after_last [of k] by (intro conjI exI [of _ k]) auto
qed

lemma process_serves_subscribers_demo:
  "\<exists>sent L. lob_run 5 demo_live [(demo_env, FromClient (action.Connect ''b''))] sent L \<and> subscribed ''a'' ''binance.BTC-USDT'' (lob_server L)"
proof -
  obtain sent V where "srv_step demo_env (liveBooks demo_live) (action.Connect ''b'') (lob_server demo_live) = Some (sent, V)"
    using srv_step_total liveBooks_small [OF demo_live_ok] by blast
  then have "lob_step 5 demo_env demo_live (FromClient (action.Connect ''b'')) sent (demo_live\<lparr>lob_server := V\<rparr>)"
    by (intro lob_step.from_client) (simp_all add: client_action_def)
  then have run: "lob_run 5 demo_live [(demo_env, FromClient (action.Connect ''b''))] (sent @ []) (demo_live\<lparr>lob_server := V\<rparr>)"
    by (rule lob_run.lob_more [OF _ lob_run.lob_nothing])
  have "\<forall>(E, e) \<in> set [(demo_env, FromClient (action.Connect ''b''))]. lob_event_safe e"
    "\<forall>e \<in> set [(demo_env, FromClient (action.Connect ''b''))]. keeps_up ''a'' e"
    by (simp_all add: lob_event_safe_def client_action_def keeps_up_def keeps_def demo_env_def)
  with process_serves_subscribers [OF run demo_live_ok _ demo_client(1)] run show ?thesis by blast
qed

text \<open>
  A live message of Binance that continues its book reaches the subscribers as it is: a client that is
  subscribed and keeps up, and that holds the levels of a side of the book before the
  message, or already those after it, holds those of the book afterwards once it has
  overwritten its levels with those of the message that it is sent.
\<close>

theorem live_update_mirrored:
  assumes "live_feed (adp (lob_binance L)) stream s b m" "continues b msg asks bids" "in_ll e" "in_ll (wall t - e)"
    "srv_inv (lob_server L)" "subscribed cid (streamKey ''binance'' s) (lob_server L)" "alive E cid" "bufferedAmount E cid \<le> kBackpressureLimit"
    "lob_ptrs L (streamKey ''binance'' s) = Some (''binance'', s)"
  shows "\<exists>sent L' b'. lob_step n E L (FromBinance (Ws t (WsMessage (Some (streamMessage stream e msg)) nlj))) sent L' \<and>
    liveBooks L' (streamKey ''binance'' s) = Some b' \<and>
    (\<forall>side. \<forall>m \<in> {qty_at (sideLadder side b), qty_at (sideLadder side b')}.
      follow side cid (streamKey ''binance'' s) sent m = qty_at (sideLadder side b'))"
proof -
  obtain ds b' where u: "applyUpdateCore b (m_U msg) (m_u msg) asks bids Genuine = Some (\<lparr>success = True, deltas = ds\<rparr>, b')"
    "\<And>side. replay (qty_at (sideLadder side b)) (filter (\<lambda>d. d_kind d = Genuine \<and> d_isBid d = side) ds) = qty_at (sideLadder side b')"
    "\<And>d. d \<in> set ds \<Longrightarrow> d_kind d = Genuine \<Longrightarrow> in_ll (d_price d) \<and> in_ll (d_newQty d)"
    by (rule live_update [OF assms(2)]) blast
  obtain sent V' where sent: "broadcastUpdate E ''binance'' s ds e (fst (batchOfi ds)) (lob_server L) = (sent, V')"
    by (cases "broadcastUpdate E ''binance'' s ds e (fst (batchOfi ds)) (lob_server L)")
  obtain L' where L': "lob_step n E L (FromBinance (Ws t (WsMessage (Some (streamMessage stream e msg)) nlj))) sent L'"
    "bin_books (adp (lob_binance L')) s = Some b'" "lob_ptrs L' = lob_ptrs L"
    by (rule live_step [OF assms(1-4) u(1) sent])
  have "follow side cid (streamKey ''binance'' s) sent m = replay m (filter (\<lambda>d. d_kind d = Genuine \<and> d_isBid d = side) ds)" for side m
    using follow_broadcast [OF assms(5-8) sent u(3)] by simp
  then have "\<forall>side. \<forall>m \<in> {qty_at (sideLadder side b), qty_at (sideLadder side b')}.
      follow side cid (streamKey ''binance'' s) sent m = qty_at (sideLadder side b')"
    using u(2) replay_again [of "qty_at (sideLadder side b)" for side] by (metis (no_types, lifting) insertE singletonD)
  moreover have "liveBooks L' (streamKey ''binance'' s) = Some b'" using L'(2,3) assms(9) by (simp add: liveBooks_def)
  ultimately show ?thesis using L'(1) by blast
qed

lemma live_update_mirrored_demo:
  "\<exists>sent L b. lob_step 5 demo_env demo_live (FromBinance (Ws demo_time (WsMessage (Some (streamMessage ''BTCUSDT@depth'' 4000 demo_change)) None))) sent L \<and>
     liveBooks L ''binance.BTC-USDT'' = Some b \<and>
     follow True ''a'' ''binance.BTC-USDT'' sent (qty_at (sideLadder True demo_book)) = qty_at (sideLadder True b)"
  using live_update_mirrored [OF demo_live_feed demo_continues demo_times demo_client(2) _ demo_client(3,4), unfolded demo_key,
    OF demo_client(1,5), of 5 None] by blast

text \<open>
  A live message of Binance that continues its book adds to the accumulator that Prometheus reads the change of
  the viewed bid volume minus that of the viewed ask volume, as long as the accumulator and
  the traffic of the message are in range.
\<close>

theorem live_update_counted:
  assumes "live_feed (adp (lob_binance L)) stream s b m" "continues b msg asks bids" "in_ll e" "in_ll (wall t - e)"
  shows "\<exists>r b' sent L' m'. applyUpdateCore b (m_U msg) (m_u msg) asks bids Genuine = Some (r, b') \<and>
    lob_step n E L (FromBinance (Ws t (WsMessage (Some (streamMessage stream e msg)) nlj))) sent L' \<and>
    bin_metrics (adp (lob_binance L')) s = Some m' \<and>
    (\<bar>ofiAccumulator m\<bar> + traffic (deltas r) \<le> LLONG_MAX \<longrightarrow>
     ofiAccumulator m' = ofiAccumulator m + ((view_sum (ofiBids b') - view_sum (ofiBids b)) - (view_sum (ofiAsks b') - view_sum (ofiAsks b))))"
proof -
  obtain ds b' where u: "applyUpdateCore b (m_U msg) (m_u msg) asks bids Genuine = Some (\<lparr>success = True, deltas = ds\<rparr>, b')"
    "exact_ofi ds = (view_sum (ofiBids b') - view_sum (ofiBids b)) - (view_sum (ofiAsks b') - view_sum (ofiAsks b))"
    by (rule live_update [OF assms(2)]) blast
  obtain sent V' where sent: "broadcastUpdate E ''binance'' s ds e (fst (batchOfi ds)) (lob_server L) = (sent, V')"
    by (cases "broadcastUpdate E ''binance'' s ds e (fst (batchOfi ds)) (lob_server L)")
  obtain L' m' where L': "lob_step n E L (FromBinance (Ws t (WsMessage (Some (streamMessage stream e msg)) nlj))) sent L'"
    "bin_metrics (adp (lob_binance L')) s = Some m'"
    "ofiAccumulator m' = (if snd (batchOfi ds) then checkedAdd (ofiAccumulator m) (fst (batchOfi ds)) else ofiAccumulator m)"
    by (rule live_step [OF assms u(1) sent])
  have "\<bar>ofiAccumulator m\<bar> + traffic ds \<le> LLONG_MAX \<longrightarrow> ofiAccumulator m' = ofiAccumulator m + exact_ofi ds"
    using accumulated_exact [of "ofiAccumulator m" ds] L'(3) by simp
  then show ?thesis using u L'(1,2)
    by (intro exI [of _ "\<lparr>success = True, deltas = ds\<rparr>"] exI [of _ b'] exI [of _ sent] exI [of _ L'] exI [of _ m']) simp
qed

lemma live_update_counted_demo:
  "\<exists>r b' sent L' m'. applyUpdateCore demo_book 8 9 [(11, 1), (12, 0)] [(11, 9)] Genuine = Some (r, b') \<and>
    lob_step 5 demo_env demo_live (FromBinance (Ws demo_time (WsMessage (Some (streamMessage ''BTCUSDT@depth'' 4000 demo_change)) None))) sent L' \<and>
    bin_metrics (adp (lob_binance L')) demo_symbol = Some m'"
  using live_update_counted [OF demo_live_feed demo_continues demo_times, of 5 demo_env None] by (auto simp: demo_change_def)

text \<open>
  A client that is subscribed, keeps up and holds the levels of the book holds them after
  any series of live messages of Binance, whatever happens between the messages: messages
  of other symbols and of Kraken, snapshots and resyncs of other symbols, ticks, requests of
  all clients. Every message of the symbol continues its book and moves no window of a side that
  holds levels (\<open>continues\<close>); a gap, a reconnect or a snapshot of the symbol is excluded.
\<close>

theorem live_series_mirrored:
  assumes "feed_run n stream s L es sent L'" "lob_ok L" "\<forall>(E, e) \<in> set es. lob_event_safe e" "\<forall>x \<in> set es. keeps_up cid x"
    "subscribed cid (streamKey ''binance'' s) (lob_server L)" "live_feed (adp (lob_binance L)) stream s b m"
    "lob_ptrs L (streamKey ''binance'' s) = Some (''binance'', s)"
  shows "lob_run n L es sent L' \<and> (\<exists>b'. liveBooks L' (streamKey ''binance'' s) = Some b' \<and>
    (\<forall>side. follow side cid (streamKey ''binance'' s) sent (qty_at (sideLadder side b)) = qty_at (sideLadder side b')))"
proof -
  note run = feed_run_is_run [OF assms(1)]
  obtain b' m' where b': "live_feed (adp (lob_binance L')) stream s b' m'"
    "\<forall>side. follow side cid (streamKey ''binance'' s) sent (qty_at (sideLadder side b)) = qty_at (sideLadder side b')"
    using feed_followed [OF assms(1-6)] by blast
  have "lob_ptrs L' = lob_ptrs L" using lob_run_kept [OF run assms(2,3)] by blast
  then have "liveBooks L' (streamKey ''binance'' s) = Some b'" using b'(1) assms(7) by (simp add: liveBooks_def live_feed_def)
  then show ?thesis using run b'(2) by blast
qed

lemma live_series_mirrored_demo:
  "\<exists>sent L b. lob_run 5 demo_live [(demo_env, demo_message), (demo_env, FromClient (action.Connect ''b''))] sent L \<and>
     liveBooks L ''binance.BTC-USDT'' = Some b \<and>
     follow True ''a'' ''binance.BTC-USDT'' sent (qty_at (sideLadder True demo_book)) = qty_at (sideLadder True b)"
proof -
  let ?es = "[(demo_env, demo_message), (demo_env, FromClient (action.Connect ''b''))]"
  obtain sent L where run: "feed_run 5 ''BTCUSDT@depth'' demo_symbol demo_live ?es sent L" using demo_feed_run by blast
  have safe: "\<forall>(E, e) \<in> set ?es. lob_event_safe e" "\<forall>x \<in> set ?es. keeps_up ''a'' x"
    using demo_message_safe by (simp_all add: lob_event_safe_def client_action_def keeps_up_def keeps_def demo_env_def demo_message_def)
  show ?thesis
    using live_series_mirrored [OF run demo_live_ok safe _ demo_live_feed, unfolded demo_key, OF demo_client(1,5)] by blast
qed

text \<open>
  C3: A live book update of Kraken that moves no window reaches the subscribers and the accumulator as
  it is: a client that is subscribed and keeps up and holds the levels of the book before the message, or
  already those after it, holds those of the book afterwards; and the accumulator grows by the
  change of the viewed bid volume minus that of the viewed ask volume, as long as its absolute value and the
  sizes of the deltas of the message add up to at most \<open>LLONG_MAX\<close>. The update has one element, for a book
  with its snapshot, with a readable timestamp after 1970 whose distance to the clock is a \<open>long long\<close>. Its
  levels are JSON doubles of multiples of the tick, positive and below \<open>2^52\<close> units of \<open>10^-8\<close>, with
  quantities from 0 and below \<open>2^52\<close>, and each lies in the window of its side, or is dropped beyond its
  far end, or finds the side empty: of a window that moves, the subscribers are not told what it
  discards (\<open>window_move_unreported\<close>).
\<close>

theorem kraken_update_delivered:
  assumes "kr_live_feed (kr (lob_kraken L)) krakenSym s b m" "kr_continues b asks bids"
    "isoTimestampToMs stamp = Some ms" "0 < ms" "in_ll (wall t - ms)"
    "srv_inv (lob_server L)" "subscribed cid (streamKey ''kraken'' s) (lob_server L)" "alive E cid" "bufferedAmount E cid \<le> kBackpressureLimit"
    "lob_ptrs L (streamKey ''kraken'' s) = Some (''kraken'', s)"
  shows "\<exists>d1 b1 ds b' sent L' m'.
    foldM (applyLevelChange Genuine True) ([], b) bids = Some (d1, b1) \<and> foldM (applyLevelChange Genuine False) (d1, b1) asks = Some (ds, b') \<and>
    lob_step n E L (FromKraken (KrWs t (WsMessage sj (Some (krakenMessage ''update'' (krakenItem krakenSym bids asks stamp)))))) sent L' \<and>
    liveBooks L' (streamKey ''kraken'' s) = Some b' \<and>
    (\<forall>side. \<forall>c \<in> {qty_at (sideLadder side b), qty_at (sideLadder side b')}.
      follow side cid (streamKey ''kraken'' s) sent c = qty_at (sideLadder side b')) \<and>
    kr_metrics (kr (lob_kraken L')) s = Some m' \<and>
    (\<bar>ofiAccumulator m\<bar> + traffic ds \<le> LLONG_MAX \<longrightarrow>
     ofiAccumulator m' = ofiAccumulator m + ((view_sum (ofiBids b') - view_sum (ofiBids b)) - (view_sum (ofiAsks b') - view_sum (ofiAsks b))))"
proof -
  obtain d1 b1 ds b' where u: "foldM (applyLevelChange Genuine True) ([], b) bids = Some (d1, b1)"
    "foldM (applyLevelChange Genuine False) (d1, b1) asks = Some (ds, b')"
    "exact_ofi ds = (view_sum (ofiBids b') - view_sum (ofiBids b)) - (view_sum (ofiAsks b') - view_sum (ofiAsks b))"
    "\<And>side. replay (qty_at (sideLadder side b)) (filter (\<lambda>d. d_kind d = Genuine \<and> d_isBid d = side) ds) = qty_at (sideLadder side b')"
    "\<And>d. d \<in> set ds \<Longrightarrow> d_kind d = Genuine \<Longrightarrow> in_ll (d_price d) \<and> in_ll (d_newQty d)"
    by (rule kr_update [OF assms(2)]) blast
  obtain sent V' where sent: "broadcastUpdate E ''kraken'' s ds ms (fst (batchOfi ds)) (lob_server L) = (sent, V')"
    by (cases "broadcastUpdate E ''kraken'' s ds ms (fst (batchOfi ds)) (lob_server L)")
  obtain L' m' where L': "lob_step n E L (FromKraken (KrWs t (WsMessage sj (Some (krakenMessage ''update'' (krakenItem krakenSym bids asks stamp)))))) sent L'"
    "kr_books (kr (lob_kraken L')) s = Some b'" "lob_ptrs L' = lob_ptrs L" "kr_metrics (kr (lob_kraken L')) s = Some m'"
    "ofiAccumulator m' = (if snd (batchOfi ds) then checkedAdd (ofiAccumulator m) (fst (batchOfi ds)) else ofiAccumulator m)"
    by (rule kr_live_step [OF assms(1-5) u(1,2) sent]) blast
  have copy: "\<forall>side. \<forall>c \<in> {qty_at (sideLadder side b), qty_at (sideLadder side b')}.
      follow side cid (streamKey ''kraken'' s) sent c = qty_at (sideLadder side b')"
    using follow_broadcast [OF assms(6-9) sent u(5)] u(4) replay_again [of "qty_at (sideLadder side b)" for side]
    by (metis (no_types, lifting) insertE singletonD)
  have "liveBooks L' (streamKey ''kraken'' s) = Some b'" using L'(2,3) assms(10) by (simp add: liveBooks_def)
  moreover have "\<bar>ofiAccumulator m\<bar> + traffic ds \<le> LLONG_MAX \<longrightarrow> ofiAccumulator m' = ofiAccumulator m + exact_ofi ds"
    using accumulated_exact [of "ofiAccumulator m" ds] L'(5) by simp
  ultimately show ?thesis using u(1-3) L'(1,4) copy by metis
qed

lemma kraken_update_delivered_demo:
  "\<exists>sent L' b'. lob_step 5 demo_env kr_demo_followed (FromKraken (KrWs kr_demo_time (WsMessage None
       (Some (krakenMessage ''update'' (krakenItem ''BTC/USD'' [(11, 9)] [(12, 0)] kr_demo_stamp)))))) sent L' \<and>
     liveBooks L' ''kraken.BTC-USD'' = Some b' \<and>
     follow True ''a'' ''kraken.BTC-USD'' sent (qty_at (sideLadder True demo_book)) = qty_at (sideLadder True b')"
proof -
  have "0 < (1700000000100 :: int)" "in_ll (wall kr_demo_time - 1700000000100)"
    by (simp_all add: kr_demo_time_def in_ll_def int_limits)
  note d = kraken_update_delivered [OF kr_demo_live_feed kr_demo_continues kr_demo_stamp_ms this kr_demo_client(2) _ kr_demo_client(3,4),
    unfolded kr_demo_key, OF kr_demo_client(1,5), of 5 None]
  show ?thesis using d by blast
qed

section \<open>Handlers, callbacks and clients interleaved\<close>

text \<open>
  C1: A client that asks for a stream whose feed is live holds the book from then on, whatever it held
  before and however its request falls among the steps of the process, also between the update of a
  book and its broadcast: as long as it stays connected and keeps up, its copy (snapshots replace
  it, updates overwrite the levels they list) is the book up to the callbacks that are still
  under way, and is the book when there are none. So for Binance and for Kraken, with every event
  between the messages that leaves the symbol alone and is read without a fault. The run is one in
  which every event of the adapter that concerns the symbol is a message that continues its book, so
  none with a gap, no reconnect, resync or snapshot of the symbol: its levels are those the
  ladder stores (C8) and, for Kraken, below \<open>2^52\<close> units; its times are in range; and no level moves
  the window of a side that holds levels. A level may be dropped beyond the far end or be the first
  of an empty side. After a level that does move the window, the client keeps
  levels that the book has discarded (\<open>window_move_unreported\<close>).
\<close>

theorem subscriber_holds_book:
  assumes "lob_ok L" "feed_live exch src s L b m" "lob_ptrs L (streamKey exch s) = Some (exch, s)"
    "attended_run n exch src s (idle L) before sent0 made0 F0" "\<forall>(E, e) \<in> set before. fine_safe e"
    "fine_step n E F0 (Handle (FromClient (Request cid now msg))) sent1 made1 F1" "present cid (lob_server (proc F0))" "alive E cid"
    "parseClientMessage msg = Some r" "op r = ''subscribe''" "\<exists>x \<in> set (req_streams r). asks_for (streamKey exch s) x"
    "attended_run n exch src s F1 after sent2 made2 F2" "\<forall>(E, e) \<in> set after. fine_safe e" "\<forall>x \<in> set after. fine_keeps_up cid x"
  shows "\<exists>b'. liveBooks (proc F2) (streamKey exch s) = Some b' \<and>
    (\<forall>c side. replay (client_view cid (streamKey exch s) (sent1 @ sent2) c side) (genuine side (deltas_for s (due exch F2))) = levelsOf side b') \<and>
    (due exch F2 = [] \<longrightarrow> (\<forall>c side. client_view cid (streamKey exch s) (sent1 @ sent2) c side = levelsOf side b'))"
proof -
  have idle: "proc (idle L) = L" by (simp add: idle_def)
  obtain b0 m0 where zero: "feed_live exch src s (proc F0) b0 m0" "settled s b0 (due exch F0)" "lob_ok (proc F0)" "lob_ptrs (proc F0) = lob_ptrs L"
    using followed_run [OF assms(4) _ assms(5) _ settled_idle, of b m "{}"] assms(1-3) by (auto simp: idle follows_def)
  note one = request_in_step [OF assms(6) zero(3,1,2) _ assms(9-11) assms(7,8)]
  have ptr: "lob_ptrs (proc F0) (streamKey exch s) = Some (exch, s)" using zero(4) assms(3) by simp
  obtain b' m' where two: "feed_live exch src s (proc F2) b' m'" "follows exch s b0 m0 F1 b' m' F2 sent2 made2 {cid}" "lob_ptrs (proc F2) = lob_ptrs (proc F1)"
    using followed_run [OF assms(12) one(3) [OF ptr] assms(13) one(1,2) [OF ptr], of "{cid}"] one(4,5) [OF ptr] assms(14) ptr by auto
  have copy: "in_step s b' (due exch F2) (client_view cid (streamKey exch s) (sent1 @ sent2) c)" for c
    using two(2) one(6) [OF ptr, of c] by (simp add: follows_def)
  have "liveBooks (proc F2) (streamKey exch s) = Some b'" by (rule feed_book [OF two(1)]) (simp add: two(3) one(4) [OF ptr] ptr)
  then show ?thesis using copy by (intro exI [of _ b']) (auto simp: in_step_def)
qed

lemma subscriber_holds_book_demo:
  "\<exists>ds F0 sent1 F1 sent2 F2 b. fine_step 5 demo_env (idle demo_live) (Handle demo_message) [] [(''binance'', demo_symbol, ds, 4000)] F0 \<and>
     fine_step 5 demo_env F0 (Handle demo_request) sent1 [] F1 \<and> fine_step 5 demo_env F1 (Deliver ''binance'') sent2 [] F2 \<and>
     liveBooks (proc F2) ''binance.BTC-USDT'' = Some b \<and>
     client_view ''a'' ''binance.BTC-USDT'' (sent1 @ sent2) (\<lambda>side p. 0) True = levelsOf True b"
proof -
  obtain ds F0 sent1 F1 sent2 F2 where s: "fine_step 5 demo_env (idle demo_live) (Handle demo_message) [] [(''binance'', demo_symbol, ds, 4000)] F0"
    "fine_step 5 demo_env F0 (Handle demo_request) sent1 [] F1" "present ''a'' (lob_server (proc F0))"
    "fine_step 5 demo_env F1 (Deliver ''binance'') sent2 [] F2" "bin_due F2 = []"
    by (rule demo_request_run) blast
  note before = attended_run.attended_more [OF demo_attends(1) s(1) attended_run.attended_nothing]
  note after = attended_run.attended_more [OF demo_attends(3) s(4) attended_run.attended_nothing]
  have live: "feed_live ''binance'' ''BTCUSDT@depth'' demo_symbol demo_live demo_book (newMetrics\<lparr>liveReady := True\<rparr>)"
    using demo_live_feed by (simp add: feed_live_def)
  have "\<exists>b. liveBooks (proc F2) ''binance.BTC-USDT'' = Some b \<and>
      (\<forall>c side. client_view ''a'' ''binance.BTC-USDT'' (sent1 @ sent2) c side = levelsOf side b)"
    using subscriber_holds_book [OF demo_live_ok live _ before _ s(2) [unfolded demo_request_def] s(3) demo_client(3) demo_request_parsed _ _ after, unfolded demo_key]
      demo_client(5) demo_asks demo_request_keeps s(5) by (simp add: due_def)
  then show ?thesis using s(1,2,4) by blast
qed

text \<open>
  C2: While the feed of a symbol is continued, no order flow is lost and none is counted twice: at every
  moment the accumulator that Prometheus reads, with the callbacks that are still under way, has
  grown by exactly the change of the viewed bid volume minus that of the viewed ask volume of the book, for
  every interleaving of handlers, callbacks and clients. The run is one as in C1: every event of
  the adapter that concerns the symbol is a message that continues its book (no gap, reconnect,
  resync or snapshot of the symbol) and moves no window of a side that holds levels; otherwise the
  accumulator misses what a window discards (\<open>window_move_unreported\<close>) or is reset. And the absolute value
  the accumulator had and the sizes of all deltas of the run add up to at most \<open>LLONG_MAX\<close>.
\<close>

theorem order_flow_accounted:
  assumes "lob_ok L" "feed_live exch src s L b m" "lob_ptrs L (streamKey exch s) = Some (exch, s)"
    "attended_run n exch src s (idle L) es sent made F" "\<forall>(E, e) \<in> set es. fine_safe e"
    "\<bar>ofiAccumulator m\<bar> + traffic (deltas_for s (made_for exch made)) \<le> LLONG_MAX"
  shows "\<exists>b' m'. liveBooks (proc F) (streamKey exch s) = Some b' \<and> metricsAt exch (proc F) s = Some m' \<and>
    ofiAccumulator m' + exact_ofi (deltas_for s (due exch F)) = ofiAccumulator m + (imbalance b' - imbalance b)"
proof -
  obtain b' m' where f: "feed_live exch src s (proc F) b' m'" "liveBooks (proc F) (streamKey exch s) = Some b'"
    "ofiAccumulator m' + exact_ofi (deltas_for s (due exch F)) = ofiAccumulator m + (imbalance b' - imbalance b)"
    by (rule accounted_run [OF assms]) blast
  then show ?thesis using feed_metrics [OF f(1)] by blast
qed

lemma order_flow_accounted_demo:
  "\<exists>ds F b' m'. fine_step 5 demo_env (idle demo_live) (Handle demo_message) [] [(''binance'', demo_symbol, ds, 4000)] F \<and>
     liveBooks (proc F) ''binance.BTC-USDT'' = Some b' \<and> metricsAt ''binance'' (proc F) demo_symbol = Some m' \<and>
     ofiAccumulator m' + exact_ofi (deltas_for demo_symbol (bin_due F)) = imbalance b' - imbalance demo_book"
proof -
  obtain ds F where s: "fine_step 5 demo_env (idle demo_live) (Handle demo_message) [] [(''binance'', demo_symbol, ds, 4000)] F" "traffic ds = 29"
    by (rule demo_message_step) blast
  note run = attended_run.attended_more [OF demo_attends(1) s(1) attended_run.attended_nothing]
  have live: "feed_live ''binance'' ''BTCUSDT@depth'' demo_symbol demo_live demo_book (newMetrics\<lparr>liveReady := True\<rparr>)"
    using demo_live_feed by (simp add: feed_live_def)
  have acc: "ofiAccumulator (newMetrics\<lparr>liveReady := True\<rparr>) = 0" by (simp add: newMetrics_def)
  have "\<bar>ofiAccumulator (newMetrics\<lparr>liveReady := True\<rparr>)\<bar> + traffic (deltas_for demo_symbol (made_for ''binance'' ([(''binance'', demo_symbol, ds, 4000)] @ []))) \<le> LLONG_MAX"
    using s(2) by (simp add: acc made_for_def int_limits)
  from order_flow_accounted [OF demo_live_ok live _ run _ this, unfolded demo_key] demo_client(5) demo_request_keeps(3)
  have "\<exists>b' m'. liveBooks (proc F) ''binance.BTC-USDT'' = Some b' \<and> metricsAt ''binance'' (proc F) demo_symbol = Some m' \<and>
      ofiAccumulator m' + exact_ofi (deltas_for demo_symbol (bin_due F)) = imbalance b' - imbalance demo_book"
    by (simp add: acc due_def)
  then show ?thesis using s(1) by blast
qed

text \<open>
  C4: What Prometheus reads is the state of the books: a request for \<open>/metrics\<close> of the running process is
  answered with a text in which a reader of the format finds, for a symbol whose feed has been
  continued as in C1 since some moment and has no callback under way, the order flow (the accumulator
  of that moment plus the change of the viewed bid volume minus that of the viewed ask volume
  since then), the numbers of levels of both sides and the best prices that are positive, each rounded to
  six significant digits as the stream prints it. As in C1 and C2 every event of the adapter that
  concerns the symbol is a message that continues its book and moves no window of a side that holds levels
  (\<open>window_move_unreported\<close>), and the accumulator of that moment and the deltas of the run add up to at most
  \<open>LLONG_MAX\<close> in absolute value.
\<close>

theorem scrape_shows_book:
  assumes "lob_ok L" "feed_live exch src s L b m" "lob_ptrs L (streamKey exch s) = Some (exch, s)"
    "attended_run n exch src s (idle L) es sent made F" "\<forall>(E, e) \<in> set es. fine_safe e"
    "\<bar>ofiAccumulator m\<bar> + traffic (deltas_for s (made_for exch made)) \<le> LLONG_MAX" "due exch F = []"
    "(exch, metricsOrder, booksOrder) \<in> set exchanges" "s \<in> set metricsOrder" "s \<in> set booksOrder"
  shows "\<exists>b' body ss. liveBooks (proc F) (streamKey exch s) = Some b' \<and>
    scrape exchanges now rss (proc F) ''/metrics'' = Some (body, ''text/plain; version=0.0.4; charset=utf-8'') \<and> readExposition body = Some ss \<and>
    float_sample exch ''lob_ofi_value'' s (unscaled (ofiAccumulator m + (imbalance b' - imbalance b))) \<in> set ss \<and>
    float_sample exch ''lob_orderbook_asks_count'' s (int_double (int (asksCount (getStats b')))) \<in> set ss \<and>
    float_sample exch ''lob_orderbook_bids_count'' s (int_double (int (bidsCount (getStats b')))) \<in> set ss \<and>
    (0 < bestAsk (getStats b') \<longrightarrow> float_sample exch ''lob_orderbook_best_ask_price'' s (bestAsk (getStats b')) \<in> set ss) \<and>
    (0 < bestBid (getStats b') \<longrightarrow> float_sample exch ''lob_orderbook_best_bid_price'' s (bestBid (getStats b')) \<in> set ss)"
proof -
  obtain b' m' where f: "feed_live exch src s (proc F) b' m'" "liveBooks (proc F) (streamKey exch s) = Some b'"
    "ofiAccumulator m' + exact_ofi (deltas_for s (due exch F)) = ofiAccumulator m + (imbalance b' - imbalance b)"
    by (rule accounted_run [OF assms(1-6)]) blast
  have acc: "ofiAccumulator m' = ofiAccumulator m + (imbalance b' - imbalance b)" using f(3) assms(7) by simp
  show ?thesis
    by (rule scraped_samples [OF assms(8-10) feed_metrics [OF f(1)] feed_booksAt [OF f(1)], of now rss, unfolded acc]) (use f(2) in blast)
qed

lemma scrape_shows_book_demo:
  "\<exists>ds F0 sent1 F1 sent2 F2 b body ss. fine_step 5 demo_env (idle demo_live) (Handle demo_message) [] [(''binance'', demo_symbol, ds, 4000)] F0 \<and>
     fine_step 5 demo_env F0 (Handle demo_request) sent1 [] F1 \<and> fine_step 5 demo_env F1 (Deliver ''binance'') sent2 [] F2 \<and>
     scrape [(''binance'', [demo_symbol], [demo_symbol])] (\<lambda>_. 5000) (\<lambda>_. None) (proc F2) ''/metrics'' = Some (body, ''text/plain; version=0.0.4; charset=utf-8'') \<and>
     readExposition body = Some ss \<and>
     float_sample ''binance'' ''lob_ofi_value'' demo_symbol (unscaled (imbalance b - imbalance demo_book)) \<in> set ss"
proof -
  obtain ds F0 sent1 F1 sent2 F2 where s: "fine_step 5 demo_env (idle demo_live) (Handle demo_message) [] [(''binance'', demo_symbol, ds, 4000)] F0" "traffic ds = 29"
    "fine_step 5 demo_env F0 (Handle demo_request) sent1 [] F1" "present ''a'' (lob_server (proc F0))"
    "fine_step 5 demo_env F1 (Deliver ''binance'') sent2 [] F2" "bin_due F2 = []"
    by (rule demo_request_run) blast
  note run = attended_run.attended_more [OF demo_attends(1) s(1) attended_run.attended_more [OF demo_attends(2) s(3)
    attended_run.attended_more [OF demo_attends(3) s(5) attended_run.attended_nothing]]]
  have live: "feed_live ''binance'' ''BTCUSDT@depth'' demo_symbol demo_live demo_book (newMetrics\<lparr>liveReady := True\<rparr>)"
    using demo_live_feed by (simp add: feed_live_def)
  have acc: "ofiAccumulator (newMetrics\<lparr>liveReady := True\<rparr>) = 0" by (simp add: newMetrics_def)
  have range: "\<bar>ofiAccumulator (newMetrics\<lparr>liveReady := True\<rparr>)\<bar> +
      traffic (deltas_for demo_symbol (made_for ''binance'' ([(''binance'', demo_symbol, ds, 4000)] @ [] @ [] @ []))) \<le> LLONG_MAX"
    using s(2) by (simp add: acc made_for_def int_limits)
  have safe: "\<forall>(E, e) \<in> set [(demo_env, Handle demo_message), (demo_env, Handle demo_request), (demo_env, Deliver ''binance'')]. fine_safe e"
    by (simp add: demo_request_keeps)
  have ptr: "lob_ptrs demo_live (streamKey ''binance'' demo_symbol) = Some (''binance'', demo_symbol)"
    using demo_client(5) by (simp add: demo_key)
  have due: "due ''binance'' F2 = []" using s(6) by (simp add: due_def)
  have "(''binance'', [demo_symbol], [demo_symbol]) \<in> set [(''binance'', [demo_symbol], [demo_symbol])]" "demo_symbol \<in> set [demo_symbol]" by simp_all
  from scrape_shows_book [OF demo_live_ok live ptr run safe range due this this(2), of "\<lambda>_. 5000" "\<lambda>_. None", unfolded acc]
  show ?thesis using s(1,3,5) by (metis add_0)
qed

end
